(* ===== verification/Prelude.thy ===== *)
theory Prelude
  imports Main "HOL-Library.Word" "HOL-Library.Monad_Syntax"
begin

unbundle bit_operations_syntax

text \<open>
  Shared vocabulary of the development: the machine integers of the source, the checked slice
  operations of Rust (a panic is \<open>None\<close>), big-endian conversions, ASCII case folding, and the
  generic list facts the component theories use.
\<close>

section \<open>Machine integers\<close>

type_synonym byte = "8 word"
type_synonym u16 = "16 word"
type_synonym u32 = "32 word"
type_synonym u64 = "64 word"
type_synonym u128 = "128 word"

text \<open>Facts about big-endian conversions, and facts about ASCII case folding.\<close>

named_theorems be_simps
named_theorems lower_simps

section \<open>Slices\<close>

text \<open>\<open>&xs[a..b]\<close>: panics (here \<open>None\<close>) unless \<open>a \<le> b \<le> xs.len()\<close>.\<close>

definition subslice :: "'a list \<Rightarrow> nat \<Rightarrow> nat \<Rightarrow> 'a list option" where
  "subslice xs a b = (if a \<le> b \<and> b \<le> length xs then Some (take (b - a) (drop a xs)) else None)"

text \<open>\<open>xs[i]\<close>: panics when \<open>i\<close> is out of range; also \<open>xs.get(i)\<close>.\<close>

definition index :: "'a list \<Rightarrow> nat \<Rightarrow> 'a option" where
  "index xs i = (if i < length xs then Some (xs ! i) else None)"

lemma index_Some_iff: "index xs i = Some x \<longleftrightarrow> i < length xs \<and> xs ! i = x"
  by (auto simp: index_def)

lemma index_append_Cons [simp]: "index (xs @ y # ys) (length xs) = Some y"
  by (simp add: index_def)

lemma subslice_append_mid [simp]:
  "subslice (xs @ ys @ zs) (length xs) (length xs + length ys) = Some ys"
  by (simp add: subslice_def)

lemma subslice_to_end: "i \<le> length xs \<Longrightarrow> subslice xs i (length xs) = Some (drop i xs)"
  by (simp add: subslice_def)

lemma subslice_length: "subslice xs a b = Some ys \<Longrightarrow> length ys = b - a"
  by (auto simp: subslice_def split: if_splits)

section \<open>Operations that return\<close>

text \<open>An operation returns when it does not panic; \<open>no_panic\<close> collects the operations that do.\<close>

named_theorems no_panic \<open>operations that return on well-formed names\<close>

definition returns :: "'a option \<Rightarrow> bool" where
  "returns a \<longleftrightarrow> a \<noteq> None"

lemma returns_simps [simp]: "returns (Some a)" "\<not> returns None" "returns (map_option f b) \<longleftrightarrow> returns b"
  by (simp_all add: returns_def)

lemma returnsE: "returns a \<Longrightarrow> (\<And>x. a = Some x \<Longrightarrow> thesis) \<Longrightarrow> thesis"
  by (cases a) auto

lemma returns_bind [no_panic]: "returns a \<Longrightarrow> (\<And>x. a = Some x \<Longrightarrow> returns (f x)) \<Longrightarrow> returns (Option.bind a f)"
  by (cases a) auto

section \<open>Big-endian conversions\<close>

definition u16_to_be :: "u16 \<Rightarrow> byte list" where
  "u16_to_be w = [ucast (drop_bit 8 w), ucast w]"

definition u16_from_be :: "byte \<Rightarrow> byte \<Rightarrow> u16" where
  "u16_from_be hi lo = push_bit 8 (ucast hi) OR ucast lo"

definition u32_to_be :: "u32 \<Rightarrow> byte list" where
  "u32_to_be w = [ucast (drop_bit 24 w), ucast (drop_bit 16 w), ucast (drop_bit 8 w), ucast w]"

text \<open>\<open>Decoder::u32\<close> joins two 16-bit reads.\<close>

definition u32_join :: "u16 \<Rightarrow> u16 \<Rightarrow> u32" where
  "u32_join a b = push_bit 16 (ucast a) OR ucast b"

text \<open>\<open>Ipv6Addr::from([u8; 16])\<close> and \<open>octets()\<close>; the same for \<open>Ipv4Addr\<close> with four octets.\<close>

definition be_bytes :: "nat \<Rightarrow> 'a::len word \<Rightarrow> byte list" where
  "be_bytes n w = map (\<lambda>i. ucast (drop_bit (8 * (n - 1 - i)) w)) [0..<n]"

definition be_word :: "byte list \<Rightarrow> 'a::len word" where
  "be_word bs = foldl (\<lambda>acc b. push_bit 8 acc OR ucast b) 0 bs"

lemma length_u16_to_be [simp]: "length (u16_to_be w) = 2"
  by (simp add: u16_to_be_def)

lemma length_u32_to_be [simp]: "length (u32_to_be w) = 4"
  by (simp add: u32_to_be_def)

lemma length_be_bytes [simp]: "length (be_bytes n w) = n"
  by (simp add: be_bytes_def)

lemma u16_from_to_be [be_simps]:
  "u16_from_be (ucast (drop_bit 8 w)) (ucast w) = w"
  unfolding u16_from_be_def
  by (rule bit_word_eqI) (auto simp: bit_simps)

lemma u16_to_from_be: "u16_to_be (u16_from_be a b) = [a, b]"
  unfolding u16_from_be_def u16_to_be_def list.inject
  by (intro conjI refl; rule bit_word_eqI; auto simp: bit_simps dest: bit_imp_le_length)

lemma u32_join_be [be_simps]:
  "u32_join (u16_from_be (ucast (drop_bit 24 w)) (ucast (drop_bit 16 w)))
     (u16_from_be (ucast (drop_bit 8 w)) (ucast w)) = w"
  unfolding u32_join_def u16_from_be_def
proof (rule bit_word_eqI)
  fix n :: nat
  assume "n < LENGTH(32)"
  then consider "n < 8" | "8 \<le> n" "n < 16" | "16 \<le> n" "n < 24" | "24 \<le> n" "n < 32"
    by fastforce
  then show "bit (push_bit 16 (ucast (push_bit 8 (ucast (ucast (drop_bit 24 w) :: byte)) OR
      ucast (ucast (drop_bit 16 w) :: byte) :: u16)) OR
      ucast (push_bit 8 (ucast (ucast (drop_bit 8 w) :: byte)) OR
      ucast (ucast w :: byte) :: u16) :: u32) n = bit w n"
    by cases (auto simp: bit_simps)
qed

lemma be_word_append:
  "be_word (bs @ [b]) = (push_bit 8 (be_word bs) OR ucast b :: 'a::len word)"
  by (simp add: be_word_def)

lemma bit_be_word:
  "bit (be_word bs :: 'a::len word) k \<longleftrightarrow>
     k < LENGTH('a) \<and> k < 8 * length bs \<and> bit (bs ! (length bs - 1 - k div 8)) (k mod 8)"
proof (induction bs arbitrary: k rule: rev_induct)
  case Nil
  then show ?case by (simp add: be_word_def)
next
  case (snoc b bs)
  show ?case
  proof (cases "k < 8")
    case True
    then show ?thesis
      by (auto simp: be_word_append bit_simps nth_append)
  next
    case False
    then have k: "k div 8 = Suc ((k - 8) div 8)" "k mod 8 = (k - 8) mod 8"
      by (auto simp: le_div_geq le_mod_geq)
    have "\<not> bit (ucast b :: 'a word) k"
      using False by (auto simp: bit_simps dest: bit_imp_le_length)
    with False show ?thesis
      by (auto simp: be_word_append bit_simps snoc.IH k nth_append)
  qed
qed

lemma nth_be_bytes:
  "i < n \<Longrightarrow> be_bytes n w ! i = ucast (drop_bit (8 * (n - 1 - i)) w)"
  by (simp add: be_bytes_def)

lemma be_word_be_bytes [be_simps]:
  fixes w :: "'a::len word"
  assumes "LENGTH('a) = 8 * n"
  shows "be_word (be_bytes n w) = w"
proof (rule bit_word_eqI)
  fix k
  assume "k < LENGTH('a)"
  with assms have k: "k < 8 * n" by simp
  then have "k div 8 < n" by (simp add: less_mult_imp_div_less mult.commute)
  then have "n - 1 - (n - 1 - k div 8) = k div 8" by simp
  with k show "bit (be_word (be_bytes n w) :: 'a word) k = bit w k"
    using assms \<open>k div 8 < n\<close> by (simp add: bit_be_word nth_be_bytes bit_simps)
qed

lemma be_bytes_be_word [be_simps]:
  assumes "LENGTH('a::len) = 8 * length bs"
  shows "be_bytes (length bs) (be_word bs :: 'a word) = bs"
proof (rule nth_equalityI)
  show "length (be_bytes (length bs) (be_word bs :: 'a word)) = length bs" by simp
next
  fix i
  assume "i < length (be_bytes (length bs) (be_word bs :: 'a word))"
  then have i: "i < length bs" by simp
  show "be_bytes (length bs) (be_word bs :: 'a word) ! i = bs ! i"
  proof (rule bit_word_eqI)
    fix k
    assume "k < LENGTH(8)"
    then have k: "k < 8" by simp
    have "8 * (length bs - 1 - i) + k < 8 * length bs" using i k by linarith
    moreover have "length bs - 1 - (8 * (length bs - 1 - i) + k) div 8 = i"
      using i k by simp
    ultimately show "bit (be_bytes (length bs) (be_word bs :: 'a word) ! i) k = bit (bs ! i) k"
      using i k assms by (simp add: nth_be_bytes bit_be_word bit_simps)
  qed
qed

lemma bit_bounded:
  fixes v :: "'a::len word"
  assumes "unat v < 2 ^ k" "bit v n"
  shows "n < k"
proof -
  have "take_bit k (unat v) = unat v" using assms(1) by (simp add: take_bit_nat_eq_self_iff)
  moreover have "bit (unat v) n" using assms(2) by (simp add: bit_simps bit_imp_le_length)
  ultimately show ?thesis by (metis bit_take_bit_iff)
qed

section \<open>ASCII case folding\<close>

text \<open>\<open>u8::to_ascii_lowercase\<close> and \<open>u8::eq_ignore_ascii_case\<close> of the standard library.\<close>

definition to_ascii_lowercase :: "byte \<Rightarrow> byte" where
  "to_ascii_lowercase b = (if 65 \<le> b \<and> b \<le> 90 then b OR 32 else b)"

definition byte_eq_ignore_case :: "byte \<Rightarrow> byte \<Rightarrow> bool" where
  "byte_eq_ignore_case a b \<longleftrightarrow> to_ascii_lowercase a = to_ascii_lowercase b"

abbreviation lower :: "byte list \<Rightarrow> byte list" where
  "lower bs \<equiv> map to_ascii_lowercase bs"

lemma upper_cases:
  assumes "65 \<le> b" "b \<le> (90::byte)"
  shows "b \<in> {65, 66, 67, 68, 69, 70, 71, 72, 73, 74, 75, 76, 77, 78, 79, 80, 81, 82, 83,
    84, 85, 86, 87, 88, 89, 90}"
proof -
  have "65 \<le> unat b" "unat b \<le> 90"
    using assms by (auto simp: word_le_nat_alt)
  then have "unat b \<in> {65, 66, 67, 68, 69, 70, 71, 72, 73, 74, 75, 76, 77, 78, 79, 80, 81, 82,
    83, 84, 85, 86, 87, 88, 89, 90}"
    by (simp only: insert_iff empty_iff) presburger
  moreover have "b = of_nat (unat b)" by simp
  ultimately show ?thesis by fastforce
qed

lemma or_32_upper: "65 \<le> b \<Longrightarrow> b \<le> (90::byte) \<Longrightarrow> b OR 32 = b + 32"
  by (drule (1) upper_cases) (elim insertE emptyE; simp)

lemma to_ascii_lowercase_idem [simp]:
  "to_ascii_lowercase (to_ascii_lowercase b) = to_ascii_lowercase b"
proof (cases "65 \<le> b \<and> b \<le> 90")
  case True
  then have "b \<in> {65, 66, 67, 68, 69, 70, 71, 72, 73, 74, 75, 76, 77, 78, 79, 80, 81, 82, 83,
    84, 85, 86, 87, 88, 89, 90}" by (intro upper_cases) auto
  then show ?thesis
    by (elim insertE emptyE; simp add: to_ascii_lowercase_def)
next
  case False
  then have "to_ascii_lowercase b = b" by (auto simp: to_ascii_lowercase_def)
  then show ?thesis by simp
qed

lemma to_ascii_lowercase_small [lower_simps]: "b \<le> 64 \<Longrightarrow> to_ascii_lowercase b = b"
  by (auto simp: to_ascii_lowercase_def word_le_nat_alt)

lemma unat_byte_le: "unat (b :: byte) \<le> 255"
  using unsigned_less [of b, where 'a = nat] by simp

lemma unat_u16_le: "unat (v :: u16) \<le> 65535"
  using unsigned_less [of v, where 'a = nat] by simp

end
