(* ===== verification/Net_Std.thy ===== *)
theory Net_Std
  imports Prelude "HOL-Library.Monad_Syntax"
begin

text \<open>
  What the sources use of the Rust standard library for addresses and text: \<open>str\<close> as the list of its
  Unicode scalar values, \<open>split_whitespace\<close>, \<open>trim\<close>, integer \<open>parse\<close>, and the parser and the
  predicates of \<open>std::net\<close>.
\<close>

section \<open>Text\<close>

type_synonym str = "nat list"

definition ascii :: "string \<Rightarrow> str" where
  "ascii s = map of_char s"

text \<open>\<open>char::is_whitespace\<close>: the Unicode \<open>White_Space\<close> property.\<close>

definition is_whitespace :: "nat \<Rightarrow> bool" where
  "is_whitespace c \<longleftrightarrow> 9 \<le> c \<and> c \<le> 13 \<or> c = 0x20 \<or> c = 0x85 \<or> c = 0xA0 \<or> c = 0x1680 \<or>
     0x2000 \<le> c \<and> c \<le> 0x200A \<or> c = 0x2028 \<or> c = 0x2029 \<or> c = 0x202F \<or> c = 0x205F \<or> c = 0x3000"

definition trim_start_matches :: "(nat \<Rightarrow> bool) \<Rightarrow> str \<Rightarrow> str" where
  "trim_start_matches p s = dropWhile p s"

definition trim_end_matches :: "(nat \<Rightarrow> bool) \<Rightarrow> str \<Rightarrow> str" where
  "trim_end_matches p s = rev (dropWhile p (rev s))"

definition trim_matches :: "(nat \<Rightarrow> bool) \<Rightarrow> str \<Rightarrow> str" where
  "trim_matches p s = trim_end_matches p (trim_start_matches p s)"

definition trim :: "str \<Rightarrow> str" where
  "trim s = trim_matches is_whitespace s"

function split_whitespace :: "str \<Rightarrow> str list" where
  "split_whitespace s =
     (let r = dropWhile is_whitespace s in
      if r = [] then []
      else takeWhile (\<lambda>c. \<not> is_whitespace c) r # split_whitespace (dropWhile (\<lambda>c. \<not> is_whitespace c) r))"
  by pat_completeness auto
termination
proof (relation "measure length", goal_cases)
  case (2 s r)
  then obtain c cs where r: "dropWhile is_whitespace s = c # cs" by (cases "dropWhile is_whitespace s") auto
  then have "\<not> is_whitespace c" by (simp add: dropWhile_eq_Cons_conv)
  moreover have "length (c # cs) \<le> length s" using length_dropWhile_le [of is_whitespace s] by (simp add: r)
  ultimately show ?case using 2 r length_dropWhile_le [of "\<lambda>c. \<not> is_whitespace c" cs] by simp
qed simp

declare split_whitespace.simps [simp del]

text \<open>\<open>s.split_once(c)\<close>\<close>

definition split_once :: "nat \<Rightarrow> str \<Rightarrow> (str \<times> str) option" where
  "split_once c s =
     (case dropWhile (\<lambda>x. x \<noteq> c) s of
        [] \<Rightarrow> None
      | _ # rest \<Rightarrow> Some (takeWhile (\<lambda>x. x \<noteq> c) s, rest))"

definition to_digit :: "nat \<Rightarrow> nat \<Rightarrow> nat option" where
  "to_digit radix c =
     (let d = (if 48 \<le> c \<and> c \<le> 57 then c - 48
               else if 97 \<le> c \<and> c \<le> 122 then c - 87
               else if 65 \<le> c \<and> c \<le> 90 then c - 55
               else radix)
      in if d < radix then Some d else None)"

text \<open>\<open>s.parse::<u8>()\<close> and the like: an optional plus sign, decimal digits, no overflow.\<close>

fun parse_digits :: "nat \<Rightarrow> nat \<Rightarrow> str \<Rightarrow> nat option" where
  "parse_digits mx acc [] = Some acc"
| "parse_digits mx acc (c # cs) =
     (case to_digit 10 c of
        None \<Rightarrow> None
      | Some d \<Rightarrow> if acc * 10 + d > mx then None else parse_digits mx (acc * 10 + d) cs)"

definition parse_uint :: "nat \<Rightarrow> str \<Rightarrow> nat option" where
  "parse_uint mx s =
     (let ds = (case s of c # cs \<Rightarrow> if c = 43 then cs else s | [] \<Rightarrow> [])
      in if ds = [] then None else parse_digits mx 0 ds)"

section \<open>Addresses\<close>

datatype ip_addr = V4 u32 | V6 u128

text \<open>The octets of an address and the 16-bit segments of an IPv6 address.\<close>

definition v4_octets :: "u32 \<Rightarrow> byte list" where
  "v4_octets a = be_bytes 4 a"

definition v6_octets :: "u128 \<Rightarrow> byte list" where
  "v6_octets a = be_bytes 16 a"

definition v6_segment :: "u128 \<Rightarrow> nat \<Rightarrow> u16" where
  "v6_segment a i = ucast (drop_bit (16 * (7 - i)) a)"

definition v6_from_segments :: "nat list \<Rightarrow> u128" where
  "v6_from_segments gs = of_nat (foldl (\<lambda>acc g. acc * 65536 + g) 0 gs)"

text \<open>\<open>Parser::read_number\<close> of \<open>std::net\<close>: digits, and the count and leading-zero rules.\<close>

fun read_digits :: "nat \<Rightarrow> str \<Rightarrow> nat list \<times> str" where
  "read_digits radix [] = ([], [])"
| "read_digits radix (c # cs) =
     (case to_digit radix c of
        None \<Rightarrow> ([], c # cs)
      | Some d \<Rightarrow> let (ds, rest) = read_digits radix cs in (d # ds, rest))"

definition read_number :: "nat \<Rightarrow> nat \<Rightarrow> bool \<Rightarrow> nat \<Rightarrow> str \<Rightarrow> (nat \<times> str) option" where
  "read_number radix max_digits allow_zero_prefix mx s =
     (let (ds, rest) = read_digits radix s; v = foldl (\<lambda>acc d. acc * radix + d) 0 ds
      in if ds = [] \<or> length ds > max_digits then None
         else if \<not> allow_zero_prefix \<and> hd ds = 0 \<and> length ds > 1 then None
         else if v > mx then None
         else Some (v, rest))"

definition read_char :: "nat \<Rightarrow> str \<Rightarrow> str option" where
  "read_char c s = (case s of x # xs \<Rightarrow> if x = c then Some xs else None | [] \<Rightarrow> None)"

definition read_separator :: "nat \<Rightarrow> nat \<Rightarrow> (str \<Rightarrow> ('a \<times> str) option) \<Rightarrow> str \<Rightarrow> ('a \<times> str) option" where
  "read_separator sep i p s = (if i > 0 then do { s \<leftarrow> read_char sep s; p s } else p s)"

definition read_octet :: "str \<Rightarrow> (nat \<times> str) option" where
  "read_octet = read_number 10 3 False 255"

definition read_ipv4 :: "str \<Rightarrow> (u32 \<times> str) option" where
  "read_ipv4 s = do {
     (a, s) \<leftarrow> read_separator 46 0 read_octet s;
     (b, s) \<leftarrow> read_separator 46 1 read_octet s;
     (c, s) \<leftarrow> read_separator 46 2 read_octet s;
     (d, s) \<leftarrow> read_separator 46 3 read_octet s;
     Some (of_nat (((a * 256 + b) * 256 + c) * 256 + d), s) }"

text \<open>\<open>read_groups\<close>: the groups read, and whether they end in an embedded IPv4 address.\<close>

function read_groups :: "nat \<Rightarrow> nat \<Rightarrow> nat list \<Rightarrow> str \<Rightarrow> nat list \<times> bool \<times> str" where
  "read_groups limit i gs s =
     (if i < limit then
        (case (if i < limit - 1 then read_separator 58 i read_ipv4 s else None) of
           Some (v4, s') \<Rightarrow> (gs @ [unat v4 div 65536, unat v4 mod 65536], True, s')
         | None \<Rightarrow>
           (case read_separator 58 i (read_number 16 4 True 65535) s of
              Some (g, s') \<Rightarrow> read_groups limit (i + 1) (gs @ [g]) s'
            | None \<Rightarrow> (gs, False, s)))
      else (gs, False, s))"
  by pat_completeness auto
termination
  by (relation "measure (\<lambda>(limit, i, gs, s). limit - i)") auto

declare read_groups.simps [simp del]

definition read_ipv6 :: "str \<Rightarrow> (u128 \<times> str) option" where
  "read_ipv6 s =
     (let (head, head_v4, s1) = read_groups 8 0 [] s in
      if length head = 8 then Some (v6_from_segments head, s1)
      else if head_v4 then None
      else do {
        s2 \<leftarrow> read_char 58 s1;
        s3 \<leftarrow> read_char 58 s2;
        let (tail, _, s4) = read_groups (8 - (length head + 1)) 0 [] s3;
        Some (v6_from_segments (head @ replicate (8 - length head - length tail) 0 @ tail), s4) })"

text \<open>\<open>IpAddr::from_str\<close>, \<open>Ipv4Addr::from_str\<close> (at most 15 octets long) and \<open>Ipv6Addr::from_str\<close>.\<close>

definition parse_ipv4 :: "str \<Rightarrow> u32 option" where
  "parse_ipv4 s =
     (if length s > 15 then None
      else case read_ipv4 s of Some (a, []) \<Rightarrow> Some a | _ \<Rightarrow> None)"

definition parse_ipv6 :: "str \<Rightarrow> u128 option" where
  "parse_ipv6 s = (case read_ipv6 s of Some (a, []) \<Rightarrow> Some a | _ \<Rightarrow> None)"

definition parse_ip :: "str \<Rightarrow> ip_addr option" where
  "parse_ip s =
     (case read_ipv4 s of
        Some (a, r) \<Rightarrow> if r = [] then Some (V4 a) else None
      | None \<Rightarrow> map_option V6 (parse_ipv6 s))"

text \<open>For evaluating the parsers on concrete text.\<close>

lemmas net_eval = ascii_def split_once_def parse_uint_def to_digit_def parse_ip_def read_ipv4_def
  read_separator_def read_octet_def read_number_def read_char_def parse_ipv4_def parse_ipv6_def
  read_ipv6_def read_groups.simps v6_from_segments_def split_whitespace.simps is_whitespace_def

end
