(* ===== verification/Ip_Acl.thy ===== *)
theory Ip_Acl
  imports Net_Std
begin

unbundle bit_operations_syntax

text \<open>
  Address-based access control: \<open>dns/acl.rs\<close> (access-control rules and private addresses),
  \<open>dns/axfr.rs\<close> (transfer permission) and \<open>ssrf.rs\<close> (addresses never connected to). The three
  matchers are written differently in the code; all are shown to decide equality of address prefixes.
\<close>

section \<open>The code of \<open>std::net\<close> predicates\<close>

definition v4_octet :: "u32 \<Rightarrow> nat \<Rightarrow> byte" where
  "v4_octet a i = v4_octets a ! i"

definition v4_is_loopback :: "u32 \<Rightarrow> bool" where
  "v4_is_loopback a \<longleftrightarrow> v4_octet a 0 = 127"

definition v4_is_private :: "u32 \<Rightarrow> bool" where
  "v4_is_private a \<longleftrightarrow> v4_octet a 0 = 10 \<or> v4_octet a 0 = 172 \<and> 16 \<le> v4_octet a 1 \<and> v4_octet a 1 \<le> 31 \<or>
     v4_octet a 0 = 192 \<and> v4_octet a 1 = 168"

definition v4_is_link_local :: "u32 \<Rightarrow> bool" where
  "v4_is_link_local a \<longleftrightarrow> v4_octet a 0 = 169 \<and> v4_octet a 1 = 254"

definition v4_is_broadcast :: "u32 \<Rightarrow> bool" where
  "v4_is_broadcast a \<longleftrightarrow> a = 0xFFFFFFFF"

definition v4_is_documentation :: "u32 \<Rightarrow> bool" where
  "v4_is_documentation a \<longleftrightarrow>
     v4_octet a 0 = 192 \<and> v4_octet a 1 = 0 \<and> v4_octet a 2 = 2 \<or>
     v4_octet a 0 = 198 \<and> v4_octet a 1 = 51 \<and> v4_octet a 2 = 100 \<or>
     v4_octet a 0 = 203 \<and> v4_octet a 1 = 0 \<and> v4_octet a 2 = 113"

definition v4_is_unspecified :: "u32 \<Rightarrow> bool" where
  "v4_is_unspecified a \<longleftrightarrow> a = 0"

definition v4_is_multicast :: "u32 \<Rightarrow> bool" where
  "v4_is_multicast a \<longleftrightarrow> 224 \<le> v4_octet a 0 \<and> v4_octet a 0 \<le> 239"

definition v6_is_loopback :: "u128 \<Rightarrow> bool" where
  "v6_is_loopback a \<longleftrightarrow> a = 1"

definition v6_is_unspecified :: "u128 \<Rightarrow> bool" where
  "v6_is_unspecified a \<longleftrightarrow> a = 0"

definition v6_is_multicast :: "u128 \<Rightarrow> bool" where
  "v6_is_multicast a \<longleftrightarrow> v6_segment a 0 AND 0xFF00 = 0xFF00"

text \<open>\<open>to_ipv4\<close> takes \<open>::a.b.c.d\<close> and \<open>::ffff:a.b.c.d\<close>, \<open>to_ipv4_mapped\<close> only the latter.\<close>

definition v6_to_ipv4_mapped :: "u128 \<Rightarrow> u32 option" where
  "v6_to_ipv4_mapped a = (if drop_bit 32 a = 0xFFFF then Some (ucast a) else None)"

definition v6_to_ipv4 :: "u128 \<Rightarrow> u32 option" where
  "v6_to_ipv4 a = (if drop_bit 32 a = 0 \<or> drop_bit 32 a = 0xFFFF then Some (ucast a) else None)"

fun ip_is_loopback :: "ip_addr \<Rightarrow> bool" where
  "ip_is_loopback (V4 a) = v4_is_loopback a"
| "ip_is_loopback (V6 a) = v6_is_loopback a"

section \<open>Access control\<close>

datatype acl_action = Allow | Deny | Refuse

record cidr_block =
  cidr_prefix :: ip_addr
  cidr_prefix_len :: nat

definition cidr_max :: "ip_addr \<Rightarrow> nat" where
  "cidr_max ip = (case ip of V4 _ \<Rightarrow> 32 | V6 _ \<Rightarrow> 128)"

definition cidr_parse :: "str \<Rightarrow> cidr_block option" where
  "cidr_parse s = do {
     (ip_str, prefix_len) \<leftarrow>
       (case split_once 47 s of
          Some (a, b) \<Rightarrow> do { len \<leftarrow> parse_uint 255 b; Some (a, len) }
        | None \<Rightarrow> do { ip \<leftarrow> parse_ip s; Some (s, cidr_max ip) });
     prefix \<leftarrow> parse_ip ip_str;
     if prefix_len > cidr_max prefix then None
     else Some \<lparr>cidr_prefix = prefix, cidr_prefix_len = prefix_len\<rparr> }"

definition cidr_contains :: "cidr_block \<Rightarrow> ip_addr \<Rightarrow> bool" where
  "cidr_contains c ip =
     (case (cidr_prefix c, ip) of
        (V4 net, V4 addr) \<Rightarrow>
          if cidr_prefix_len c = 0 then True
          else let mask = push_bit (32 - cidr_prefix_len c) (NOT 0) in net AND mask = addr AND mask
      | (V6 net, V6 addr) \<Rightarrow>
          if cidr_prefix_len c = 0 then True
          else let mask = push_bit (128 - cidr_prefix_len c) (NOT 0) in net AND mask = addr AND mask
      | _ \<Rightarrow> False)"

definition private_from_config :: "str list \<Rightarrow> cidr_block list" where
  "private_from_config cidrs = List.map_filter (\<lambda>s. cidr_parse (trim s)) cidrs"

definition private_contains :: "cidr_block list \<Rightarrow> ip_addr \<Rightarrow> bool" where
  "private_contains bs ip \<longleftrightarrow> list_ex (\<lambda>b. cidr_contains b ip) bs"

record acl_entry =
  acl_cidr :: cidr_block
  acl_act :: acl_action

definition acl_entry_parse :: "str \<Rightarrow> acl_entry option" where
  "acl_entry_parse s =
     (case split_whitespace s of
        net_str # action_str # _ \<Rightarrow> do {
          action \<leftarrow>
            (if action_str \<in> {ascii ''allow'', ascii ''allow_snoop'', ascii ''allow_setrd''} then Some Allow
             else if action_str \<in> {ascii ''deny'', ascii ''deny_non_local''} then Some Deny
             else if action_str \<in> {ascii ''refuse'', ascii ''refuse_non_local''} then Some Refuse
             else None);
          cidr \<leftarrow> cidr_parse net_str;
          Some \<lparr>acl_cidr = cidr, acl_act = action\<rparr> }
      | _ \<Rightarrow> None)"

definition acl_from_config :: "str list \<Rightarrow> acl_entry list" where
  "acl_from_config entries = List.map_filter acl_entry_parse entries"

definition acl_normalize :: "ip_addr \<Rightarrow> ip_addr" where
  "acl_normalize ip =
     (case ip of
        V6 v6 \<Rightarrow> if v6_is_loopback v6 then V6 v6
                 else (case v6_to_ipv4 v6 of Some v4 \<Rightarrow> V4 v4 | None \<Rightarrow> V6 v6)
      | V4 _ \<Rightarrow> ip)"

fun acl_first :: "acl_entry list \<Rightarrow> ip_addr \<Rightarrow> acl_action" where
  "acl_first [] ip = Refuse"
| "acl_first (entry # rest) ip =
     (if cidr_contains (acl_cidr entry) ip then acl_act entry else acl_first rest ip)"

definition acl_check :: "acl_entry list \<Rightarrow> ip_addr \<Rightarrow> acl_action" where
  "acl_check acl ip = (if acl = [] then Allow else acl_first acl (acl_normalize ip))"

section \<open>Zone transfers\<close>

text \<open>Both slices end at the same bound, at most 16, so neither indexing panics.\<close>

definition axfr_v4_matches :: "nat \<Rightarrow> u32 \<Rightarrow> u32 \<Rightarrow> bool" where
  "axfr_v4_matches prefix client net =
     (let mask = (if prefix = 0 then 0 else if prefix \<ge> 32 then 0xFFFFFFFF
                  else NOT (push_bit (32 - prefix) 1 - 1))
      in client AND mask = net AND mask)"

definition axfr_v6_matches :: "nat \<Rightarrow> u128 \<Rightarrow> u128 \<Rightarrow> bool" where
  "axfr_v6_matches prefix client net =
     (let cb = v6_octets client; nb = v6_octets net; full_bytes = prefix div 8; rem = prefix mod 8 in
      if take (min full_bytes 16) cb \<noteq> take (min full_bytes 16) nb then False
      else if rem > 0 \<and> full_bytes < 16 then
        (let mask = push_bit (8 - rem) 0xFF in cb ! full_bytes AND mask = nb ! full_bytes AND mask)
      else True)"

definition axfr_cidr_matches :: "str \<Rightarrow> ip_addr \<Rightarrow> bool" where
  "axfr_cidr_matches cidr ip =
     (case split_once 47 cidr of
        Some (addr_str, prefix_str) \<Rightarrow>
          (case parse_uint 255 prefix_str of
             None \<Rightarrow> False
           | Some prefix \<Rightarrow>
             (case (ip, parse_ip addr_str) of
                (V4 client, Some (V4 net)) \<Rightarrow> axfr_v4_matches prefix client net
              | (V6 client, Some (V6 net)) \<Rightarrow> axfr_v6_matches prefix client net
              | _ \<Rightarrow> False))
      | None \<Rightarrow> (case parse_ip cidr of Some n \<Rightarrow> n = ip | None \<Rightarrow> False))"

definition is_transfer_allowed :: "ip_addr \<Rightarrow> str list \<Rightarrow> bool" where
  "is_transfer_allowed ip allow_cidrs =
     (if allow_cidrs = [] then False else list_ex (\<lambda>cidr. axfr_cidr_matches cidr ip) allow_cidrs)"

section \<open>Addresses never connected to\<close>

definition is_public_v4 :: "u32 \<Rightarrow> bool" where
  "is_public_v4 a \<longleftrightarrow>
     \<not> (v4_is_loopback a \<or> v4_is_private a \<or> v4_is_link_local a \<or> v4_is_broadcast a \<or>
        v4_is_documentation a \<or> v4_is_unspecified a \<or> v4_is_multicast a \<or> v4_octet a 0 = 0 \<or>
        v4_octet a 0 = 100 \<and> v4_octet a 1 AND 0xC0 = 64 \<or>
        v4_octet a 0 = 192 \<and> v4_octet a 1 = 0 \<and> v4_octet a 2 = 0 \<or>
        v4_octet a 0 = 198 \<and> v4_octet a 1 AND 0xFE = 18 \<or>
        v4_octet a 0 \<ge> 240)"

definition is_public_ip :: "ip_addr \<Rightarrow> bool" where
  "is_public_ip ip =
     (case ip of
        V4 a \<Rightarrow> is_public_v4 a
      | V6 a \<Rightarrow>
        (case v6_to_ipv4_mapped a of
           Some v4 \<Rightarrow> is_public_v4 v4
         | None \<Rightarrow>
           \<not> (v6_is_loopback a \<or> v6_is_unspecified a \<or> v6_is_multicast a \<or>
              v6_segment a 0 AND 0xFE00 = 0xFC00 \<or>
              v6_segment a 0 AND 0xFFC0 = 0xFE80 \<or>
              v6_segment a 0 = 0x64 \<and> v6_segment a 1 = 0xFF9B \<or>
              v6_segment a 0 = 0x2001 \<and> v6_segment a 1 = 0x0DB8 \<or>
              v6_segment a 0 = 0 \<and> v6_segment a 1 = 0 \<and> v6_segment a 2 = 0 \<and> v6_segment a 3 = 0 \<and>
                v6_segment a 4 = 0 \<and> v6_segment a 5 = 0)))"

definition is_private_ip :: "ip_addr \<Rightarrow> bool" where
  "is_private_ip ip \<longleftrightarrow> \<not> is_public_ip ip"

text \<open>
  The resolver of the outgoing HTTP clients. \<open>lookup\<close> stands for \<open>tokio::net::lookup_host\<close>; the
  error side tells its own failure (\<open>Some\<close>) from the refusal (\<open>None\<close>).
\<close>

definition ssrf_resolve :: "('host \<Rightarrow> 'e + ip_addr list) \<Rightarrow> 'host \<Rightarrow> 'e option + ip_addr list" where
  "ssrf_resolve lookup host =
     (case lookup host of
        Inl e \<Rightarrow> Inl (Some e)
      | Inr addrs \<Rightarrow>
        let safe = filter (\<lambda>a. \<not> is_private_ip a) addrs
        in if safe = [] then Inl None else Inr safe)"

end
