(* ===== verification/Ip_Facts.thy ===== *)
theory Ip_Facts
  imports Ip_Acl
begin

unbundle bit_operations_syntax

text \<open>
  Correctness of the address matchers against one specification: two addresses are in the same
  block when their leading bits agree.
\<close>

section \<open>Prefixes\<close>

definition same_prefix :: "nat \<Rightarrow> 'a::len word \<Rightarrow> 'a word \<Rightarrow> bool" where
  "same_prefix n x y \<longleftrightarrow> drop_bit (LENGTH('a) - n) x = drop_bit (LENGTH('a) - n) y"

lemma drop_bit_eq_iff:
  fixes x y :: "'a::len word"
  shows "drop_bit m x = drop_bit m y \<longleftrightarrow> (\<forall>k. m \<le> k \<and> k < LENGTH('a) \<longrightarrow> bit x k = bit y k)"
proof
  assume eq: "drop_bit m x = drop_bit m y"
  show "\<forall>k. m \<le> k \<and> k < LENGTH('a) \<longrightarrow> bit x k = bit y k"
  proof (intro allI impI)
    fix k
    assume "m \<le> k \<and> k < LENGTH('a)"
    moreover from eq have "bit (drop_bit m x) (k - m) = bit (drop_bit m y) (k - m)" by simp
    ultimately show "bit x k = bit y k" by (simp add: bit_drop_bit_eq)
  qed
next
  assume b: "\<forall>k. m \<le> k \<and> k < LENGTH('a) \<longrightarrow> bit x k = bit y k"
  show "drop_bit m x = drop_bit m y"
  proof (rule bit_word_eqI)
    fix i
    show "bit (drop_bit m x) i = bit (drop_bit m y) i"
      using b [rule_format, of "m + i"] bit_imp_le_length [of x "m + i"] bit_imp_le_length [of y "m + i"]
      by (auto simp: bit_drop_bit_eq)
  qed
qed

lemma same_prefix_bits:
  fixes x y :: "'a::len word"
  shows "same_prefix n x y \<longleftrightarrow> (\<forall>k. LENGTH('a) - n \<le> k \<and> k < LENGTH('a) \<longrightarrow> bit x k = bit y k)"
  by (simp only: same_prefix_def drop_bit_eq_iff)

lemma mask_eq_iff:
  fixes x y :: "'a::len word"
  shows "x AND NOT (mask k) = y AND NOT (mask k) \<longleftrightarrow> drop_bit k x = drop_bit k y"
proof -
  have "x AND NOT (mask k) = y AND NOT (mask k) \<longleftrightarrow>
      (\<forall>i. i < LENGTH('a) \<longrightarrow> bit (x AND NOT (mask k)) i = bit (y AND NOT (mask k)) i)"
    by (auto intro: bit_word_eqI)
  also have "\<dots> \<longleftrightarrow> (\<forall>i. k \<le> i \<and> i < LENGTH('a) \<longrightarrow> bit x i = bit y i)"
    by (auto simp: bit_simps not_less)
  finally show ?thesis by (simp only: drop_bit_eq_iff)
qed

text \<open>The block an address must be in, family by family.\<close>

definition in_block :: "ip_addr \<Rightarrow> nat \<Rightarrow> ip_addr \<Rightarrow> bool" where
  "in_block net len ip \<longleftrightarrow>
     (case (net, ip) of
        (V4 n, V4 a) \<Rightarrow> same_prefix len n a
      | (V6 n, V6 a) \<Rightarrow> same_prefix len n a
      | _ \<Rightarrow> False)"

lemma drop_bit_all: "LENGTH('a) \<le> n \<Longrightarrow> drop_bit n (x :: 'a::len word) = 0"
  by (rule bit_word_eqI) (auto simp: bit_simps dest: bit_imp_le_length)

lemma cidr_contains_block: "cidr_contains c ip \<longleftrightarrow> in_block (cidr_prefix c) (cidr_prefix_len c) ip"
  by (auto simp: cidr_contains_def in_block_def same_prefix_def mask_eq_iff drop_bit_all Let_def
      split: ip_addr.splits)

section \<open>The transfer matcher\<close>

lemma axfr_v4_prefix: "axfr_v4_matches p c n \<longleftrightarrow> same_prefix p c n"
proof -
  consider "p = 0" | "32 \<le> p" | "0 < p" "p < 32" by linarith
  then show ?thesis
  proof cases
    case 1
    then show ?thesis by (simp add: axfr_v4_matches_def same_prefix_def drop_bit_all)
  next
    case 2
    have "(0xFFFFFFFF :: u32) = - 1" by simp
    then have "x AND 0xFFFFFFFF = x" for x :: u32 by (simp only: and.right_neutral)
    with 2 show ?thesis unfolding axfr_v4_matches_def same_prefix_def by simp
  next
    case 3
    then show ?thesis
      using mask_eq_iff [of c "32 - p" n] by (simp add: axfr_v4_matches_def Let_def same_prefix_def mask_eq_exp_minus_1)
  qed
qed

text \<open>Bit \<open>k\<close> of an address stands in octet \<open>15 - k div 8\<close>.\<close>

lemma bit_octet:
  "i < 16 \<Longrightarrow> j < 8 \<Longrightarrow> bit (v6_octets a ! i) j = bit a (8 * (15 - i) + j)"
  by (simp add: v6_octets_def nth_be_bytes bit_simps)

lemma octet_eq_iff:
  assumes "i < 16"
  shows "v6_octets a ! i = v6_octets b ! i \<longleftrightarrow> (\<forall>j < 8. bit a (8 * (15 - i) + j) = bit b (8 * (15 - i) + j))"
proof -
  have "v6_octets a ! i = v6_octets b ! i \<longleftrightarrow>
      (\<forall>j < 8. bit (v6_octets a ! i) j = bit (v6_octets b ! i) j)"
    by (auto intro: bit_word_eqI)
  then show ?thesis using assms by (simp add: bit_octet)
qed

lemma octet_high_eq_iff:
  assumes "i < 16" "r \<le> 8"
  shows "v6_octets a ! i AND push_bit (8 - r) 0xFF = v6_octets b ! i AND push_bit (8 - r) 0xFF \<longleftrightarrow>
    (\<forall>j < 8. 8 - r \<le> j \<longrightarrow> bit a (8 * (15 - i) + j) = bit b (8 * (15 - i) + j))"
proof -
  have "(0xFF :: byte) = - 1" by simp
  then have "push_bit (8 - r) (0xFF :: byte) = NOT (mask (8 - r))"
    by (simp only:) (rule bit_word_eqI, auto simp: bit_simps)
  then show ?thesis using assms by (auto simp: mask_eq_iff drop_bit_eq_iff bit_octet)
qed

lemma octets_prefix_bits:
  assumes "f \<le> 16"
  shows "take f (v6_octets a) = take f (v6_octets b) \<longleftrightarrow>
    (\<forall>k. 128 - 8 * f \<le> k \<and> k < 128 \<longrightarrow> bit a k = bit b k)" (is "?L \<longleftrightarrow> ?R")
proof -
  have len: "length (v6_octets x) = 16" for x by (simp add: v6_octets_def)
  have "?L \<longleftrightarrow> (\<forall>i < f. v6_octets a ! i = v6_octets b ! i)"
    using assms by (auto simp: list_eq_iff_nth_eq len)
  also have "\<dots> \<longleftrightarrow> (\<forall>i < f. \<forall>j < 8. bit a (8 * (15 - i) + j) = bit b (8 * (15 - i) + j))"
    using assms by (auto simp: octet_eq_iff)
  also have "\<dots> \<longleftrightarrow> ?R"
  proof
    assume l: "\<forall>i < f. \<forall>j < 8. bit a (8 * (15 - i) + j) = bit b (8 * (15 - i) + j)"
    show ?R
    proof (intro allI impI)
      fix k
      assume k: "128 - 8 * f \<le> k \<and> k < 128"
      then have "15 - k div 8 < f" "15 - (15 - k div 8) = k div 8" using assms by auto
      with l [rule_format, of "15 - k div 8" "k mod 8"] show "bit a k = bit b k" by simp
    qed
  next
    assume r: ?R
    show "\<forall>i < f. \<forall>j < 8. bit a (8 * (15 - i) + j) = bit b (8 * (15 - i) + j)"
    proof (intro allI impI)
      fix i j :: nat
      assume "i < f" "j < 8"
      then have "128 - 8 * f \<le> 8 * (15 - i) + j" "8 * (15 - i) + j < 128" using assms by auto
      with r show "bit a (8 * (15 - i) + j) = bit b (8 * (15 - i) + j)" by blast
    qed
  qed
  finally show ?thesis .
qed

lemma axfr_v6_prefix: "axfr_v6_matches p c n \<longleftrightarrow> same_prefix p c n"
proof -
  define f r where "f = p div 8" and "r = p mod 8"
  have p: "p = 8 * f + r" "r < 8" by (simp_all add: f_def r_def)
  have def': "axfr_v6_matches p c n \<longleftrightarrow> take (min f 16) (v6_octets c) = take (min f 16) (v6_octets n) \<and>
      (0 < r \<and> f < 16 \<longrightarrow> v6_octets c ! f AND push_bit (8 - r) 0xFF = v6_octets n ! f AND push_bit (8 - r) 0xFF)"
    by (simp add: axfr_v6_matches_def f_def r_def Let_def)
  show ?thesis
  proof (cases "f < 16")
    case False
    with p show ?thesis
      unfolding def' same_prefix_bits by (simp add: octets_prefix_bits [of 16] min_def)
  next
    case True
    have "(\<forall>k. 128 - 8 * f \<le> k \<and> k < 128 \<longrightarrow> bit c k = bit n k) \<and>
        (0 < r \<longrightarrow> (\<forall>j < 8. 8 - r \<le> j \<longrightarrow> bit c (8 * (15 - f) + j) = bit n (8 * (15 - f) + j))) \<longleftrightarrow>
      (\<forall>k. 128 - p \<le> k \<and> k < 128 \<longrightarrow> bit c k = bit n k)" (is "?A \<and> ?B \<longleftrightarrow> ?C")
    proof (intro iffI conjI)
      assume ab: "?A \<and> ?B"
      show ?C
      proof (intro allI impI)
        fix k
        assume k: "128 - p \<le> k \<and> k < 128"
        show "bit c k = bit n k"
        proof (cases "128 - 8 * f \<le> k")
          case False
          let ?j = "k - 8 * (15 - f)"
          from False k p True have "0 < r" "8 - r \<le> ?j" "?j < 8" "8 * (15 - f) + ?j = k" by auto
          with ab show ?thesis by metis
        qed (use ab k in blast)
      qed
    next
      assume c: ?C
      show ?A using c p by auto
      show ?B
      proof (intro impI allI)
        fix j
        assume "0 < r" "j < 8" "8 - r \<le> j"
        then have "128 - p \<le> 8 * (15 - f) + j" "8 * (15 - f) + j < 128" using p True by auto
        with c show "bit c (8 * (15 - f) + j) = bit n (8 * (15 - f) + j)" by blast
      qed
    qed
    with True p(2) show ?thesis
      unfolding def' same_prefix_bits by (simp add: octets_prefix_bits octet_high_eq_iff min_def)
  qed
qed

lemma split_once_parse:
  assumes "cidr_parse s = Some c"
  shows "(\<exists>a b. split_once 47 s = Some (a, b) \<and> parse_uint 255 b = Some (cidr_prefix_len c) \<and>
      parse_ip a = Some (cidr_prefix c)) \<or>
    (split_once 47 s = None \<and> parse_ip s = Some (cidr_prefix c) \<and>
      cidr_prefix_len c = cidr_max (cidr_prefix c))"
  using assms by (auto simp: cidr_parse_def split: option.splits if_splits bind_splits)

lemma full_prefix: "in_block net (cidr_max net) ip \<longleftrightarrow> net = ip"
  by (auto simp: in_block_def cidr_max_def same_prefix_def split: ip_addr.splits)

text \<open>
  C34. The two CIDR matchers of the server agree: for every rule that \<open>CidrBlock::parse\<close> accepts, the
  octet-wise matcher of zone transfers and the mask-based matcher of access control give the same
  answer on every address, which is whether the leading bits of the two addresses agree.
\<close>

theorem cidr_matchers_agree:
  assumes "cidr_parse s = Some c"
  shows "axfr_cidr_matches s ip = cidr_contains c ip \<and>
    cidr_contains c ip = in_block (cidr_prefix c) (cidr_prefix_len c) ip"
  using split_once_parse [OF assms]
proof (elim disjE exE conjE)
  fix a b
  assume "split_once 47 s = Some (a, b)" "parse_uint 255 b = Some (cidr_prefix_len c)"
    "parse_ip a = Some (cidr_prefix c)"
  then show ?thesis unfolding cidr_contains_block
    by (auto simp: axfr_cidr_matches_def in_block_def axfr_v4_prefix axfr_v6_prefix same_prefix_def
        split: ip_addr.splits)
next
  assume "split_once 47 s = None" "parse_ip s = Some (cidr_prefix c)"
    "cidr_prefix_len c = cidr_max (cidr_prefix c)"
  then show ?thesis unfolding cidr_contains_block by (simp add: axfr_cidr_matches_def full_prefix)
qed

text \<open>\<open>10.0.0.0/8\<close> as it stands in a configuration.\<close>

lemma cidr_parse_sample:
  "cidr_parse (ascii ''10.0.0.0/8'') = Some \<lparr>cidr_prefix = V4 0x0A000000, cidr_prefix_len = 8\<rparr>"
  by (simp add: net_eval cidr_parse_def cidr_max_def)

theorem cidr_matchers_agree_witness:
  "axfr_cidr_matches (ascii ''10.0.0.0/8'') (V4 0x0A010203) =
     cidr_contains \<lparr>cidr_prefix = V4 0x0A000000, cidr_prefix_len = 8\<rparr> (V4 0x0A010203)"
  using cidr_matchers_agree [OF cidr_parse_sample] by blast

section \<open>Access control\<close>

lemma acl_first_spec:
  "acl_first acl ip = act \<longleftrightarrow>
     (\<exists>i < length acl. cidr_contains (acl_cidr (acl ! i)) ip \<and> acl_act (acl ! i) = act \<and>
        (\<forall>j < i. \<not> cidr_contains (acl_cidr (acl ! j)) ip)) \<or>
     act = Refuse \<and> (\<forall>i < length acl. \<not> cidr_contains (acl_cidr (acl ! i)) ip)"
proof (induction acl)
  case (Cons e acl)
  show ?case
  proof (cases "cidr_contains (acl_cidr e) ip")
    case True
    then have "(\<forall>j < Suc i. \<not> cidr_contains (acl_cidr ((e # acl) ! j)) ip) \<longleftrightarrow> False" for i
      by auto
    with True show ?thesis by (auto simp: Ex_less_Suc2 All_less_Suc2)
  next
    case False
    with Cons.IH show ?thesis by (simp add: Ex_less_Suc2 All_less_Suc2)
  qed
qed auto

text \<open>
  C23. Without any rule every client is allowed. With rules configured, the access-control answer is the
  action of the first rule whose block holds the client (its leading bits agree with the rule's network),
  and \<open>Refuse\<close> when there is none.
\<close>

theorem acl_first_match:
  "acl_check acl ip = act \<longleftrightarrow>
    acl = [] \<and> act = Allow \<or>
    (\<exists>i < length acl. acl_act (acl ! i) = act \<and>
       in_block (cidr_prefix (acl_cidr (acl ! i))) (cidr_prefix_len (acl_cidr (acl ! i))) (acl_normalize ip) \<and>
       (\<forall>j < i. \<not> in_block (cidr_prefix (acl_cidr (acl ! j))) (cidr_prefix_len (acl_cidr (acl ! j)))
          (acl_normalize ip))) \<or>
    act = Refuse \<and> acl \<noteq> [] \<and> (\<forall>i < length acl. \<not> in_block (cidr_prefix (acl_cidr (acl ! i)))
      (cidr_prefix_len (acl_cidr (acl ! i))) (acl_normalize ip))"
  using acl_first_spec [of acl "acl_normalize ip" act]
  by (auto simp: acl_check_def cidr_contains_block)

theorem acl_first_match_witness:
  "acl_check [] (V4 0x0A010203) = Allow \<and>
   acl_check [\<lparr>acl_cidr = \<lparr>cidr_prefix = V4 0x0A000000, cidr_prefix_len = 8\<rparr>, acl_act = Allow\<rparr>] (V4 0x0A010203) = Allow"
  using acl_first_match [of "[]" "V4 0x0A010203" Allow] acl_first_match [of "[\<lparr>acl_cidr = \<lparr>cidr_prefix = V4 0x0A000000, cidr_prefix_len = 8\<rparr>, acl_act = Allow\<rparr>]"
    "V4 0x0A010203" Allow]
  by (simp add: in_block_def same_prefix_def acl_normalize_def)

text \<open>An IPv4-mapped IPv6 address.\<close>

definition v4_mapped :: "u32 \<Rightarrow> u128" where
  "v4_mapped a = push_bit 32 0xFFFF OR ucast a"

lemma v4_mapped_parts: "drop_bit 32 (v4_mapped a) = 0xFFFF" "ucast (v4_mapped a) = a"
proof -
  have ones: "(0xFFFF :: u128) = mask 16" by (simp add: mask_eq_exp_minus_1)
  then show "drop_bit 32 (v4_mapped a) = 0xFFFF" unfolding v4_mapped_def
    by (simp only:) (rule bit_word_eqI, auto simp: bit_simps dest: bit_imp_le_length)
  show "ucast (v4_mapped a) = a" unfolding v4_mapped_def ones
    by (rule bit_word_eqI) (auto simp: bit_simps)
qed

text \<open>
  C35. An IPv4-mapped client is judged exactly as the IPv4 client it is, by access control and by the
  filter against internal addresses.
\<close>

theorem mapped_same_as_v4:
  "acl_check acl (V6 (v4_mapped a)) = acl_check acl (V4 a) \<and>
   is_public_ip (V6 (v4_mapped a)) = is_public_ip (V4 a)"
proof -
  have "v4_mapped a \<noteq> 1" using v4_mapped_parts(1) [of a] by (auto simp: drop_bit_eq_div)
  then show ?thesis
    by (simp add: acl_check_def acl_normalize_def v6_is_loopback_def v6_to_ipv4_def is_public_ip_def
        v6_to_ipv4_mapped_def v4_mapped_parts)
qed

section \<open>Addresses never connected to\<close>

text \<open>Prefixes and octets as division on the value of the address.\<close>

lemma word_unat_iff: "(x :: 'a::len word) = y \<longleftrightarrow> unat x = unat y" by (auto intro: unsigned_word_eqI)

lemma unat_drop_bit: "unat (drop_bit k (x :: 'a::len word)) = unat x div 2 ^ k"
proof -
  have "take_bit LENGTH('a) (unat x) = unat x" by (simp add: take_bit_nat_eq_self_iff)
  then show ?thesis by (simp only: unsigned_drop_bit_eq) (simp add: drop_bit_eq_div [where 'a = nat])
qed

lemma prefix_split:
  assumes "0 < c" "b < d"
  shows "x div c = d * a + b \<longleftrightarrow> x div (c * d) = a \<and> x mod (c * d) div c = (b :: nat)"
proof -
  have x: "x div c div d = x div (c * d)" "x div c mod d = x mod (c * d) div c"
    using assms by (simp_all add: div_mult2_eq mod_mult2_eq)
  have "x div c = d * a + b \<longleftrightarrow> x div c div d = a \<and> x div c mod d = b"
    using assms(2) by auto
  then show ?thesis by (simp only: x)
qed

lemma octet_nat: "i < 4 \<Longrightarrow> unat (v4_octet a i) = unat a div 2 ^ (8 * (3 - i)) mod 256"
  by (simp add: v4_octet_def v4_octets_def nth_be_bytes unsigned_ucast_eq take_bit_eq_mod unat_drop_bit)

lemma block_nat: "in_block (V4 p) len (V4 a) \<longleftrightarrow> unat p div 2 ^ (32 - len) = unat a div 2 ^ (32 - len)"
  by (simp add: in_block_def same_prefix_def word_unat_iff unat_drop_bit)

text \<open>The special-use blocks, as networks and prefix lengths.\<close>

definition special_v4 :: "(u32 \<times> nat) list" where
  "special_v4 = [(0x00000000, 8), (0x0A000000, 8), (0x64400000, 10), (0x7F000000, 8), (0xA9FE0000, 16),
     (0xAC100000, 12), (0xC0000000, 24), (0xC0000200, 24), (0xC0A80000, 16), (0xC6120000, 15),
     (0xC6336400, 24), (0xCB007100, 24), (0xE0000000, 4), (0xF0000000, 4)]"

definition special_v6 :: "(u128 \<times> nat) list" where
  "special_v6 = [(0, 96), (push_bit 96 0x0064FF9B, 96), (push_bit 96 0x20010DB8, 32),
     (push_bit 120 0xFC, 7), (push_bit 112 0xFE80, 10), (push_bit 120 0xFF, 8)]"

text \<open>The NAT64 prefix as the code compares it, two segments long.\<close>

definition nat64_segments :: "ip_addr \<Rightarrow> bool" where
  "nat64_segments ip \<longleftrightarrow> in_block (V6 (push_bit 96 0x0064FF9B)) 32 ip"

lemma byte_mask_nat:
  fixes b :: byte
  shows "b AND 0xC0 = 64 \<longleftrightarrow> unat b div 64 = 1" "b AND 0xFE = 18 \<longleftrightarrow> unat b div 2 = 9"
proof -
  have m: "(0xC0 :: byte) = NOT (mask 6)" "(0xFE :: byte) = NOT (mask 1)"
    by (simp_all add: mask_eq_exp_minus_1)
  have e: "(64 :: byte) AND NOT (mask 6) = 64" "(18 :: byte) AND NOT (mask 1) = 18"
    by (simp_all add: mask_eq_exp_minus_1)
  show "b AND 0xC0 = 64 \<longleftrightarrow> unat b div 64 = 1"
    using mask_eq_iff [of b 6 64] by (simp add: m e word_unat_iff [of "drop_bit 6 b"] unat_drop_bit)
  show "b AND 0xFE = 18 \<longleftrightarrow> unat b div 2 = 9"
    using mask_eq_iff [of b 1 18] by (simp add: m e word_unat_iff [of "drop_bit (Suc 0) b"] unat_drop_bit)
qed

lemma is_public_v4_special:
  "is_public_v4 a \<longleftrightarrow> \<not> list_ex (\<lambda>(net, len). in_block (V4 net) len (V4 a)) special_v4"
proof -
  define n x q where "n = unat a" and "x = unat a div 65536" and "q = unat a div 256"
  have n: "n < 4294967296" using unsigned_less [of a, where 'a = nat] by (simp add: n_def)
  have o: "unat (v4_octet a 0) = x div 256" "unat (v4_octet a 1) = x mod 256" "unat (v4_octet a 2) = q mod 256"
    and qx: "q div 256 = x"
    using n by (simp_all add: octet_nat x_def q_def n_def flip: div_mult2_eq)
  have two: "x = 256 * b + c \<longleftrightarrow> x div 256 = b \<and> x mod 256 = c" if "c < 256" for b c
    using prefix_split [of 1 c 256 x b] that by simp
  have three: "q = 256 * (256 * b + c) + d \<longleftrightarrow> x div 256 = b \<and> x mod 256 = c \<and> q mod 256 = d"
    if "c < 256" "d < 256" for b c d
    using prefix_split [of 1 d 256 q "256 * b + c"] that two [of c b] by (auto simp: qx)
  have twelve: "x div 16 = 2753 \<longleftrightarrow> x div 256 = 172 \<and> 16 \<le> x mod 256 \<and> x mod 256 \<le> 31"
    using prefix_split [of 16 1 16 x 172] by auto
  have ten: "x div 64 = 401 \<longleftrightarrow> x div 256 = 100 \<and> x mod 256 div 64 = 1"
    using prefix_split [of 64 1 4 x 100] by simp
  have fifteen: "x div 2 = 25353 \<longleftrightarrow> x div 256 = 198 \<and> x mod 256 div 2 = 9"
    using prefix_split [of 2 9 128 x 198] by simp
  have four: "x div 256 div 16 = 14 \<longleftrightarrow> 224 \<le> x div 256 \<and> x div 256 \<le> 239"
    "x div 256 div 16 = 15 \<longleftrightarrow> 240 \<le> x div 256" using n by (auto simp: x_def n_def)
  have d: "unat a div 16777216 = x div 256" "unat a div 4194304 = x div 64" "unat a div 1048576 = x div 16"
    "unat a div 131072 = x div 2" "unat a div 268435456 = x div 256 div 16"
    by (simp_all add: x_def flip: div_mult2_eq)
  have all: "a = 0xFFFFFFFF \<Longrightarrow> 240 \<le> x div 256" "a = 0 \<Longrightarrow> x div 256 = 0" by (simp_all add: x_def)
  have eqs: "v4_octet a 0 = k \<longleftrightarrow> x div 256 = unat k" "v4_octet a 1 = k \<longleftrightarrow> x mod 256 = unat k"
    "v4_octet a 2 = k \<longleftrightarrow> q mod 256 = unat k" for k
    by (simp_all only: word_unat_iff o)
  have pub: "is_public_v4 a \<longleftrightarrow> \<not> (x div 256 = 127 \<or>
      (x div 256 = 10 \<or> x div 256 = 172 \<and> 16 \<le> x mod 256 \<and> x mod 256 \<le> 31 \<or> x div 256 = 192 \<and> x mod 256 = 168) \<or>
      x div 256 = 169 \<and> x mod 256 = 254 \<or> a = 0xFFFFFFFF \<or>
      (x div 256 = 192 \<and> x mod 256 = 0 \<and> q mod 256 = 2 \<or> x div 256 = 198 \<and> x mod 256 = 51 \<and> q mod 256 = 100 \<or>
       x div 256 = 203 \<and> x mod 256 = 0 \<and> q mod 256 = 113) \<or> a = 0 \<or>
      (224 \<le> x div 256 \<and> x div 256 \<le> 239) \<or> x div 256 = 0 \<or> x div 256 = 100 \<and> x mod 256 div 64 = 1 \<or>
      x div 256 = 192 \<and> x mod 256 = 0 \<and> q mod 256 = 0 \<or> x div 256 = 198 \<and> x mod 256 div 2 = 9 \<or>
      240 \<le> x div 256)"
    unfolding is_public_v4_def v4_is_loopback_def v4_is_private_def v4_is_link_local_def
      v4_is_broadcast_def v4_is_documentation_def v4_is_unspecified_def v4_is_multicast_def eqs
      byte_mask_nat word_le_nat_alt o by simp
  have spec: "list_ex (\<lambda>(net, len). in_block (V4 net) len (V4 a)) special_v4 \<longleftrightarrow>
      x div 256 = 0 \<or> x div 256 = 10 \<or> x div 64 = 401 \<or> x div 256 = 127 \<or> x = 43518 \<or> x div 16 = 2753 \<or>
      q = 12582912 \<or> q = 12582914 \<or> x = 49320 \<or> x div 2 = 25353 \<or> q = 12989284 \<or> q = 13303921 \<or>
      x div 256 div 16 = 14 \<or> x div 256 div 16 = 15"
    by (simp add: special_v4_def block_nat d x_def [symmetric] q_def [symmetric] eq_commute [of "numeral _"] eq_commute [of 0])
  have blocks: "x = 43518 \<longleftrightarrow> x div 256 = 169 \<and> x mod 256 = 254" "x = 49320 \<longleftrightarrow> x div 256 = 192 \<and> x mod 256 = 168"
    "q = 12582912 \<longleftrightarrow> x div 256 = 192 \<and> x mod 256 = 0 \<and> q mod 256 = 0"
    "q = 12582914 \<longleftrightarrow> x div 256 = 192 \<and> x mod 256 = 0 \<and> q mod 256 = 2"
    "q = 12989284 \<longleftrightarrow> x div 256 = 198 \<and> x mod 256 = 51 \<and> q mod 256 = 100"
    "q = 13303921 \<longleftrightarrow> x div 256 = 203 \<and> x mod 256 = 0 \<and> q mod 256 = 113"
    using two [of 254 169] two [of 168 192] three [of 0 0 192] three [of 0 2 192]
      three [of 51 100 198] three [of 0 113 203] by simp_all
  show ?thesis unfolding pub spec twelve ten fifteen four blocks using all by argo
qed

lemma segment_mask_nat:
  fixes w :: u16
  shows "w AND 0xFE00 = 0xFC00 \<longleftrightarrow> unat w div 512 = 126" "w AND 0xFFC0 = 0xFE80 \<longleftrightarrow> unat w div 64 = 1018"
    "w AND 0xFF00 = 0xFF00 \<longleftrightarrow> unat w div 256 = 255"
proof -
  have m: "(0xFE00 :: u16) = NOT (mask 9)" "(0xFFC0 :: u16) = NOT (mask 6)" "(0xFF00 :: u16) = NOT (mask 8)"
    by (simp_all add: mask_eq_exp_minus_1)
  have e: "(0xFC00 :: u16) AND NOT (mask 9) = 0xFC00" "(0xFE80 :: u16) AND NOT (mask 6) = 0xFE80"
    by (simp_all add: mask_eq_exp_minus_1)
  show "w AND 0xFE00 = 0xFC00 \<longleftrightarrow> unat w div 512 = 126"
    using mask_eq_iff [of w 9 "0xFC00"] by (simp add: m e word_unat_iff [of "drop_bit 9 w"] unat_drop_bit)
  show "w AND 0xFFC0 = 0xFE80 \<longleftrightarrow> unat w div 64 = 1018"
    using mask_eq_iff [of w 6 "0xFE80"] by (simp add: m e word_unat_iff [of "drop_bit 6 w"] unat_drop_bit)
  show "w AND 0xFF00 = 0xFF00 \<longleftrightarrow> unat w div 256 = 255"
    using mask_eq_iff [of w 8 "0xFF00"]
    by (simp add: word_unat_iff [of "drop_bit 8 w"] unat_drop_bit flip: m(3))
qed

lemma segment_nat: "i < 8 \<Longrightarrow> unat (v6_segment a i) = unat a div 2 ^ (16 * (7 - i)) mod 65536"
  by (simp add: v6_segment_def unsigned_ucast_eq take_bit_eq_mod unat_drop_bit)

lemma block6_nat: "in_block (V6 p) len (V6 a) \<longleftrightarrow> unat p div 2 ^ (128 - len) = unat a div 2 ^ (128 - len)"
  by (simp add: in_block_def same_prefix_def word_unat_iff unat_drop_bit)

lemma zero_split: "z = 0 \<longleftrightarrow> z div 65536 = 0 \<and> z mod 65536 = 0" for z :: nat
  by auto

lemma low_segments_zero:
  "v6_segment a 0 = 0 \<and> v6_segment a 1 = 0 \<and> v6_segment a 2 = 0 \<and> v6_segment a 3 = 0 \<and>
     v6_segment a 4 = 0 \<and> v6_segment a 5 = 0 \<longleftrightarrow> unat a div 2 ^ 32 = 0"
proof -
  define z where "z = unat a div 2 ^ 32"
  have top: "z div 65536 div 65536 div 65536 div 65536 div 65536 < 65536"
    using unsigned_less [of a, where 'a = nat] by (simp add: z_def flip: div_mult2_eq)
  have s: "v6_segment a i = 0 \<longleftrightarrow> unat a div 2 ^ (16 * (7 - i)) mod 65536 = 0" if "i < 8" for i
    using segment_nat [OF that, of a] by (simp add: word_unat_iff)
  have "z = 0 \<longleftrightarrow> z div 65536 div 65536 div 65536 div 65536 div 65536 mod 65536 = 0 \<and>
      z div 65536 div 65536 div 65536 div 65536 mod 65536 = 0 \<and> z div 65536 div 65536 div 65536 mod 65536 = 0 \<and>
      z div 65536 div 65536 mod 65536 = 0 \<and> z div 65536 mod 65536 = 0 \<and> z mod 65536 = 0"
    using top zero_split [of z] zero_split [of "z div 65536"] zero_split [of "z div 65536 div 65536"]
      zero_split [of "z div 65536 div 65536 div 65536"]
      zero_split [of "z div 65536 div 65536 div 65536 div 65536"] by (metis mod_less)
  then show ?thesis by (simp add: s z_def flip: div_mult2_eq)
qed

lemma is_public_v6_special:
  assumes "v6_to_ipv4_mapped a = None"
  shows "is_public_ip (V6 a) \<longleftrightarrow> \<not> list_ex (\<lambda>(net, len). in_block (V6 net) len (V6 a)) special_v6 \<and> \<not> nat64_segments (V6 a)"
proof -
  define s y where "s = unat a div 2 ^ 112" and "y = unat a div 2 ^ 96"
  have "s < 65536" using unsigned_less [of a, where 'a = nat] by (simp add: s_def less_mult_imp_div_less)
  then have seg: "unat (v6_segment a 0) = s" by (simp add: segment_nat s_def)
  have seg1: "unat (v6_segment a 1) = y mod 65536" and y: "y div 65536 = s"
    by (simp_all add: segment_nat s_def y_def flip: div_mult2_eq)
  have two: "y = 65536 * b + c \<longleftrightarrow> s = b \<and> y mod 65536 = c" if "c < 65536" for b c
    using prefix_split [of 1 c 65536 y b] that by (simp add: y)
  have blocks: "y = 6619035 \<longleftrightarrow> s = 100 \<and> y mod 65536 = 65435" "y = 536939960 \<longleftrightarrow> s = 8193 \<and> y mod 65536 = 3512"
    using two [of 65435 100] two [of 3512 8193] by simp_all
  have eqs: "v6_segment a 0 = k \<longleftrightarrow> s = unat k" "v6_segment a 1 = k \<longleftrightarrow> y mod 65536 = unat k" for k
    by (simp_all only: word_unat_iff seg seg1)
  have pub: "is_public_ip (V6 a) \<longleftrightarrow> \<not> (a = 1 \<or> a = 0 \<or> s div 256 = 255 \<or> s div 512 = 126 \<or> s div 64 = 1018 \<or>
      s = 100 \<and> y mod 65536 = 65435 \<or> s = 8193 \<and> y mod 65536 = 3512 \<or> unat a div 2 ^ 32 = 0)"
    unfolding is_public_ip_def ip_addr.case assms option.case v6_is_loopback_def v6_is_unspecified_def
      v6_is_multicast_def segment_mask_nat seg low_segments_zero eqs by simp
  have spec: "list_ex (\<lambda>(net, len). in_block (V6 net) len (V6 a)) special_v6 \<longleftrightarrow>
      unat a div 2 ^ 32 = 0 \<or> unat a div 2 ^ 32 = 6619035 * 2 ^ 64 \<or> y = 536939960 \<or> s div 512 = 126 \<or> s div 64 = 1018 \<or> s div 256 = 255"
    by (simp add: special_v6_def block6_nat s_def y_def eq_commute [of "numeral _"] eq_commute [of 0]
        flip: div_mult2_eq)
  have "a = 1 \<Longrightarrow> unat a div 2 ^ 32 = 0" "a = 0 \<Longrightarrow> unat a div 2 ^ 32 = 0" by simp_all
  moreover have "unat a div 2 ^ 32 = 6619035 * 2 ^ 64 \<Longrightarrow> y = 6619035"
    using div_mult2_eq [of "unat a" "2 ^ 32" "2 ^ 64"] by (simp add: y_def)
  moreover have "nat64_segments (V6 a) \<longleftrightarrow> y = 6619035"
    by (simp add: nat64_segments_def block6_nat y_def eq_commute [of "numeral _"])
  ultimately show ?thesis unfolding pub spec blocks by argo
qed

definition special_use :: "ip_addr \<Rightarrow> bool" where
  "special_use ip \<longleftrightarrow>
     list_ex (\<lambda>(net, len). in_block (V4 net) len ip) special_v4 \<or>
     list_ex (\<lambda>(net, len). in_block (V6 net) len ip) special_v6"

definition embedded :: "ip_addr \<Rightarrow> ip_addr" where
  "embedded ip = (case ip of V6 a \<Rightarrow> (case v6_to_ipv4_mapped a of Some v4 \<Rightarrow> V4 v4 | None \<Rightarrow> ip) | _ \<Rightarrow> ip)"

lemma special_use_family:
  "special_use (V4 a) \<longleftrightarrow> list_ex (\<lambda>(net, len). in_block (V4 net) len (V4 a)) special_v4"
  "special_use (V6 b) \<longleftrightarrow> list_ex (\<lambda>(net, len). in_block (V6 net) len (V6 b)) special_v6"
  by (auto simp: special_use_def list_ex_iff in_block_def split: prod.splits)

lemma mapped_not_nat64: "v6_to_ipv4_mapped a = Some v \<Longrightarrow> \<not> nat64_segments (V6 a)"
proof -
  assume "v6_to_ipv4_mapped a = Some v"
  then have "drop_bit 32 a = 0xFFFF" by (auto simp: v6_to_ipv4_mapped_def split: if_splits)
  then have "unat (drop_bit 32 a) = 65535" by simp
  then have "unat a div 2 ^ 32 = 65535" by (simp add: unat_drop_bit)
  then have "unat a div 2 ^ 96 = 0" using div_mult2_eq [of "unat a" "2 ^ 32" "2 ^ 64"] by simp
  then show ?thesis by (simp add: nat64_segments_def block6_nat)
qed

text \<open>
  C36. \<open>is_public_ip\<close> refuses every address of the documented special-use blocks, an IPv4-mapped address
  being looked up as its IPv4 address: loopback, private, link-local, CGNAT, documentation,
  benchmarking, multicast, reserved, ULA, NAT64 and IPv4-compatible addresses. Beyond them it refuses exactly
  the addresses whose first two segments are those of the NAT64 prefix: the comment in the code names
  64:ff9b::/96, the code compares 64:ff9b::/32, so that there are addresses outside all documented blocks that
  are refused. Every other address passes.
\<close>

theorem is_public_ip_iff:
  "(is_public_ip ip \<longleftrightarrow> \<not> special_use (embedded ip) \<and> \<not> nat64_segments ip) \<and>
   \<not> special_use (V6 0x0064FF9B000100000000000000000000) \<and> \<not> is_public_ip (V6 0x0064FF9B000100000000000000000000)"
proof (intro conjI)
  show "is_public_ip ip \<longleftrightarrow> \<not> special_use (embedded ip) \<and> \<not> nat64_segments ip"
  proof (cases ip)
    case (V4 a)
    then show ?thesis
      by (simp add: embedded_def special_use_family is_public_ip_def is_public_v4_special nat64_segments_def in_block_def)
  next
    case (V6 a)
    then show ?thesis
      using is_public_v4_special is_public_v6_special [of a] mapped_not_nat64 [of a]
      by (cases "v6_to_ipv4_mapped a") (simp_all add: embedded_def special_use_family is_public_ip_def)
  qed
  show "\<not> special_use (V6 0x0064FF9B000100000000000000000000)"
    by (simp add: special_use_family special_v6_def block6_nat)
  show "\<not> is_public_ip (V6 0x0064FF9B000100000000000000000000)" by code_simp
qed

text \<open>The filtering resolver hands out only addresses outside the special-use blocks.\<close>

theorem ssrf_resolve_safe:
  "ssrf_resolve lookup host = Inr addrs \<Longrightarrow>
     addrs \<noteq> [] \<and> (\<forall>a \<in> set addrs. is_public_ip a) \<and> (\<exists>all. lookup host = Inr all \<and> set addrs \<subseteq> set all)"
  by (auto simp: ssrf_resolve_def is_private_ip_def Let_def split: sum.splits if_splits)

end
