(* ===== verification/Rate_Limit.thy ===== *)
theory Rate_Limit
  imports Ip_Facts
begin

unbundle bit_operations_syntax

text \<open>
  The per-address token buckets, \<open>dns/ratelimit.rs\<close>. Time is the monotonic clock in nanoseconds and
  an argument of \<open>check\<close>; the table of buckets is an association list. The model is sequential: the
  compare-and-exchange that elects one thread for the clean-up always succeeds.
\<close>

section \<open>The code\<close>

abbreviation (input) RATE_LIMIT_WINDOW_MS :: nat where "RATE_LIMIT_WINDOW_MS \<equiv> 1000"
abbreviation (input) MAX_RATE_LIMIT_BUCKETS :: nat where "MAX_RATE_LIMIT_BUCKETS \<equiv> 65536"
abbreviation (input) U64_MAX :: nat where "U64_MAX \<equiv> 18446744073709551615"

text \<open>The octet updates of the IPv6 branch, on the list of the 16 octets.\<close>

definition mask_octets :: "nat \<Rightarrow> byte list \<Rightarrow> byte list" where
  "mask_octets prefix os =
     (let keep_bytes = prefix div 8; keep_bits = prefix mod 8 in
      if keep_bytes < 16 then
        if keep_bits > 0 then
          take keep_bytes os @ [os ! keep_bytes AND push_bit (8 - keep_bits) 0xFF] @
            map (\<lambda>_. 0) (drop (keep_bytes + 1) os)
        else take keep_bytes os @ map (\<lambda>_. 0) (drop keep_bytes os)
      else os)"

definition normalize_ip :: "ip_addr \<Rightarrow> nat \<Rightarrow> nat \<Rightarrow> ip_addr" where
  "normalize_ip ip prefix_v4 prefix_v6 =
     (case ip of
        V4 bits \<Rightarrow>
          let mask = (if prefix_v4 = 0 then 0 else if prefix_v4 \<ge> 32 then NOT 0
                      else push_bit (32 - prefix_v4) (NOT 0))
          in V4 (bits AND mask)
      | V6 v6 \<Rightarrow> V6 (be_word (mask_octets prefix_v6 (v6_octets v6))))"

record ip_bucket =
  tokens :: nat
  last_refill :: nat

record rate_limiter =
  rl_buckets :: "(ip_addr \<times> ip_bucket) list"
  rl_start :: nat
  rl_next_gc_ns :: nat
  rl_rps :: nat
  rl_burst :: nat
  rl_prefix_v4 :: nat
  rl_prefix_v6 :: nat

definition saturating :: "nat \<Rightarrow> nat" where
  "saturating n = min n U64_MAX"

definition rl_new :: "nat \<Rightarrow> nat \<Rightarrow> nat option \<Rightarrow> nat \<Rightarrow> nat \<Rightarrow> rate_limiter" where
  "rl_new now rps burst prefix_v4 prefix_v6 =
     \<lparr>rl_buckets = [], rl_start = now, rl_next_gc_ns = 10000000000, rl_rps = rps,
      rl_burst = (case burst of Some b \<Rightarrow> b | None \<Rightarrow> saturating (rps * 2)),
      rl_prefix_v4 = prefix_v4, rl_prefix_v6 = prefix_v6\<rparr>"

definition rl_enabled :: "rate_limiter \<Rightarrow> bool" where
  "rl_enabled rl \<longleftrightarrow> rl_rps rl \<noteq> 0"

definition rl_set_limits :: "nat \<Rightarrow> nat option \<Rightarrow> rate_limiter \<Rightarrow> rate_limiter" where
  "rl_set_limits rps burst rl =
     (let burst = (case burst of Some b \<Rightarrow> b | None \<Rightarrow> saturating (rps * 2));
          burst = (if rps > 0 then max burst 1 else burst)
      in rl\<lparr>rl_rps := rps, rl_burst := burst\<rparr>)"

text \<open>\<open>retain\<close>: the buckets refilled less than \<open>secs\<close> seconds ago.\<close>

definition retain_recent :: "nat \<Rightarrow> nat \<Rightarrow> (ip_addr \<times> ip_bucket) list \<Rightarrow> (ip_addr \<times> ip_bucket) list" where
  "retain_recent now secs bs = filter (\<lambda>(_, b). (now - last_refill b) div 1000000000 < secs) bs"

definition put_bucket :: "ip_addr \<Rightarrow> ip_bucket \<Rightarrow> (ip_addr \<times> ip_bucket) list \<Rightarrow> (ip_addr \<times> ip_bucket) list"
  where
  "put_bucket k b bs = (k, b) # filter (\<lambda>(k', _). k' \<noteq> k) bs"

text \<open>\<open>now.duration_since(t).as_millis()\<close>; the subtraction saturates.\<close>

definition ms_since :: "nat \<Rightarrow> nat \<Rightarrow> nat" where
  "ms_since t now = (now - t) div 1000000"

definition refill :: "nat \<Rightarrow> nat \<Rightarrow> nat \<Rightarrow> ip_bucket \<Rightarrow> ip_bucket" where
  "refill now rps burst b =
     (let elapsed_ms = ms_since (last_refill b) now mod 2 ^ 64 in
      if elapsed_ms \<ge> RATE_LIMIT_WINDOW_MS then b\<lparr>tokens := burst, last_refill := now\<rparr>
      else let new_tokens = (rps * elapsed_ms) div RATE_LIMIT_WINDOW_MS mod 2 ^ 64 in
        if new_tokens > 0
        then b\<lparr>tokens := min (saturating (tokens b + new_tokens)) burst, last_refill := now\<rparr>
        else b)"

definition rl_gc :: "nat \<Rightarrow> rate_limiter \<Rightarrow> rate_limiter" where
  "rl_gc now rl =
     (let now_ns = (now - rl_start rl) mod 2 ^ 64; gc_at = rl_next_gc_ns rl in
      if now_ns \<ge> gc_at
      then rl\<lparr>rl_next_gc_ns := saturating (gc_at + 10000000000),
              rl_buckets := retain_recent now 60 (rl_buckets rl)\<rparr>
      else rl)"

definition take_token :: "nat \<Rightarrow> ip_addr \<Rightarrow> rate_limiter \<Rightarrow> bool \<times> rate_limiter" where
  "take_token now k rl =
     (let b = (case map_of (rl_buckets rl) k of
                 Some b \<Rightarrow> b
               | None \<Rightarrow> \<lparr>tokens = rl_burst rl, last_refill = now\<rparr>);
          b = refill now (rl_rps rl) (rl_burst rl) b
      in if tokens b > 0
         then (True, rl\<lparr>rl_buckets := put_bucket k (b\<lparr>tokens := tokens b - 1\<rparr>) (rl_buckets rl)\<rparr>)
         else (False, rl\<lparr>rl_buckets := put_bucket k b (rl_buckets rl)\<rparr>))"

definition rl_check :: "nat \<Rightarrow> ip_addr \<Rightarrow> rate_limiter \<Rightarrow> bool \<times> rate_limiter" where
  "rl_check now ip rl =
     (if rl_rps rl = 0 then (True, rl)
      else if ip_is_loopback ip then (True, rl)
      else
        let k = normalize_ip ip (rl_prefix_v4 rl) (rl_prefix_v6 rl); rl = rl_gc now rl in
        if length (rl_buckets rl) \<ge> MAX_RATE_LIMIT_BUCKETS \<and> map_of (rl_buckets rl) k = None then
          let rl = rl\<lparr>rl_buckets := retain_recent now 10 (rl_buckets rl)\<rparr> in
          if length (rl_buckets rl) \<ge> MAX_RATE_LIMIT_BUCKETS then (False, rl)
          else take_token now k rl
        else take_token now k rl)"

definition rl_clear :: "rate_limiter \<Rightarrow> nat \<times> rate_limiter" where
  "rl_clear rl = (length (rl_buckets rl), rl\<lparr>rl_buckets := []\<rparr>)"

section \<open>Bucket keys\<close>

lemma length_mask_octets [simp]: "length os = 16 \<Longrightarrow> length (mask_octets p os) = 16"
  by (auto simp: mask_octets_def Let_def)

lemma nth_mask_octets:
  assumes "length os = 16" "i < 16" "j < 8"
  shows "bit (mask_octets p os ! i) j \<longleftrightarrow> bit (os ! i) j \<and> 128 - p \<le> 8 * (15 - i) + j"
proof -
  define f r where "f = p div 8" and "r = p mod 8"
  have p: "p = 8 * f + r" "r < 8" by (simp_all add: f_def r_def)
  have "(0xFF :: byte) = - 1" by simp
  then have ff: "bit (push_bit (8 - r) (0xFF :: byte)) j \<longleftrightarrow> 8 - r \<le> j"
    using assms(3) by (simp only: bit_simps) auto
  consider "i < f" | "i = f" | "f < i" by linarith
  then show ?thesis
  proof cases
    case 1
    then have "mask_octets p os ! i = os ! i" using assms p
      by (auto simp: mask_octets_def Let_def nth_append f_def [symmetric] r_def [symmetric])
    moreover have "128 - p \<le> 8 * (15 - i) + j" using 1 p assms by linarith
    ultimately show ?thesis by simp
  next
    case 2
    show ?thesis
    proof (cases "r = 0")
      case True
      with 2 p assms have "mask_octets p os ! i = 0"
        by (auto simp: mask_octets_def Let_def nth_append f_def [symmetric] r_def [symmetric])
      moreover have "\<not> 128 - p \<le> 8 * (15 - i) + j" using True 2 p assms by linarith
      ultimately show ?thesis by simp
    next
      case False
      with 2 p assms have "mask_octets p os ! i = os ! i AND push_bit (8 - r) 0xFF"
        by (auto simp: mask_octets_def Let_def nth_append f_def [symmetric] r_def [symmetric])
      moreover have "8 - r \<le> j \<longleftrightarrow> 128 - p \<le> 8 * (15 - i) + j" using 2 p assms by linarith
      ultimately show ?thesis by (simp add: bit_and_iff ff)
    qed
  next
    case 3
    then have "mask_octets p os ! i = 0" using assms p
      by (auto simp: mask_octets_def Let_def nth_append f_def [symmetric] r_def [symmetric] nth_Cons
          split: nat.splits)
    moreover have "\<not> 128 - p \<le> 8 * (15 - i) + j" using 3 p assms by linarith
    ultimately show ?thesis by simp
  qed
qed

lemma normalize_v6: "be_word (mask_octets p (v6_octets a)) = a AND NOT (mask (128 - p))"
proof (rule bit_word_eqI)
  fix k
  assume "k < LENGTH(128)"
  then have k: "k < 128" "15 - k div 8 < 16" "8 * (15 - (15 - k div 8)) + k mod 8 = k" by auto
  have len: "length (v6_octets a) = 16" by (simp add: v6_octets_def)
  show "bit (be_word (mask_octets p (v6_octets a)) :: u128) k = bit (a AND NOT (mask (128 - p))) k"
    using k len bit_octet [OF k(2), of "k mod 8" a]
    by (simp add: bit_be_word nth_mask_octets bit_simps not_less)
qed

lemma normalize_v4:
  "normalize_ip (V4 a) p q = V4 (a AND NOT (mask (32 - p)))"
proof -
  consider "p = 0" | "32 \<le> p" | "0 < p" "p < 32" by linarith
  then show ?thesis
  proof cases
    case 1
    have "(mask 32 :: u32) = - 1" by (simp add: mask_eq_exp_minus_1)
    with 1 show ?thesis by (simp add: normalize_ip_def)
  qed (simp_all add: normalize_ip_def)
qed

text \<open>
  C39. Two clients share a bucket exactly when they are of the same family and their addresses agree
  on the configured prefix.
\<close>

theorem normalize_ip_same_bucket:
  "normalize_ip a p4 p6 = normalize_ip b p4 p6 \<longleftrightarrow>
     in_block a (case a of V4 _ \<Rightarrow> p4 | V6 _ \<Rightarrow> p6) b"
proof (cases a)
  case (V4 x)
  then show ?thesis
    by (cases b) (simp_all add: normalize_v4 mask_eq_iff in_block_def same_prefix_def, simp add: normalize_ip_def)
next
  case (V6 x)
  then show ?thesis
    by (cases b) (simp_all add: normalize_ip_def normalize_v6 mask_eq_iff in_block_def same_prefix_def)
qed

section \<open>The table stays small\<close>

definition rl_inv :: "rate_limiter \<Rightarrow> bool" where
  "rl_inv rl \<longleftrightarrow> distinct (map fst (rl_buckets rl)) \<and> length (rl_buckets rl) \<le> MAX_RATE_LIMIT_BUCKETS"

lemma distinct_map_fst_filter: "distinct (map fst xs) \<Longrightarrow> distinct (map fst (filter p xs))"
  by (induction xs) auto

lemma map_of_put [simp]: "map_of (put_bucket k b bs) = (map_of bs)(k \<mapsto> b)"
proof -
  have "map_of (filter (\<lambda>(k', _). k' \<noteq> k) bs) k' = (if k' = k then None else map_of bs k')" for k'
    by (induction bs) auto
  then show ?thesis by (auto simp: put_bucket_def)
qed

lemma put_bucket_inv:
  assumes "distinct (map fst bs)" "length bs < n \<or> map_of bs k \<noteq> None \<and> length bs \<le> n"
  shows "distinct (map fst (put_bucket k b bs))" "length (put_bucket k b bs) \<le> n"
proof -
  show "distinct (map fst (put_bucket k b bs))"
    using assms(1) by (auto simp: put_bucket_def distinct_map_fst_filter)
  have "length (filter (\<lambda>(k', _). k' \<noteq> k) bs) < length bs" if "map_of bs k \<noteq> None"
    using that by (auto dest!: map_of_SomeD intro: length_filter_less)
  moreover have "length (filter (\<lambda>(k', _). k' \<noteq> k) bs) \<le> length bs" by simp
  ultimately have "length (filter (\<lambda>(k', _). k' \<noteq> k) bs) < n"
    using assms(2) le_less_trans less_le_trans by blast
  then show "length (put_bucket k b bs) \<le> n" by (simp add: put_bucket_def)
qed

lemma take_token_inv:
  assumes "rl_inv rl" "length (rl_buckets rl) < MAX_RATE_LIMIT_BUCKETS \<or> map_of (rl_buckets rl) k \<noteq> None"
  shows "rl_inv (snd (take_token now k rl))"
  using assms put_bucket_inv [of "rl_buckets rl" MAX_RATE_LIMIT_BUCKETS k]
  by (auto simp: take_token_def rl_inv_def Let_def)

lemma retain_inv: "rl_inv rl \<Longrightarrow> rl_inv (rl\<lparr>rl_buckets := retain_recent now s (rl_buckets rl)\<rparr>)"
  unfolding rl_inv_def retain_recent_def
  by (auto simp: distinct_map_fst_filter intro: order_trans [OF length_filter_le])

lemma gc_inv: "rl_inv rl \<Longrightarrow> rl_inv (rl_gc now rl)"
  using retain_inv [of rl now 60] by (simp add: rl_gc_def rl_inv_def Let_def)

lemma rl_check_inv:
  assumes "rl_inv rl"
  shows "rl_inv (snd (rl_check now ip rl))"
  using assms gc_inv [OF assms, of now] retain_inv [OF gc_inv [OF assms, of now], of now 10]
  by (auto simp: rl_check_def Let_def not_le intro!: take_token_inv)

text \<open>
  C38. The table of buckets is bounded: from an empty table on, every call of \<open>check\<close> keeps one
  bucket per key and at most 65536 buckets, whatever addresses it is called with.
\<close>

theorem rl_check_bounded:
  assumes "rl_inv rl"
  shows "rl_inv (snd (rl_check now ip rl))"
  using assms by (rule rl_check_inv)

theorem rl_check_bounded_witness:
  "rl_inv (rl_new 0 5 None 24 48) \<and> rl_inv (snd (rl_check 7 (V4 0x01020304) (rl_new 0 5 None 24 48)))"
proof -
  have "rl_inv (rl_new 0 5 None 24 48)" by (simp add: rl_inv_def rl_new_def)
  with rl_check_bounded [OF this] show ?thesis by blast
qed

section \<open>The rate\<close>

text \<open>
  The queries let through for the key \<open>k\<close> in a sequence of checks, each with its time and client;
  loopback clients are never limited and not counted.
\<close>

fun served :: "ip_addr \<Rightarrow> (nat \<times> ip_addr) list \<Rightarrow> rate_limiter \<Rightarrow> nat" where
  "served k [] rl = 0"
| "served k ((now, ip) # evs) rl =
     (let (ok, rl') = rl_check now ip rl in
      (if ok \<and> \<not> ip_is_loopback ip \<and> normalize_ip ip (rl_prefix_v4 rl) (rl_prefix_v6 rl) = k then 1 else 0) +
      served k evs rl')"

text \<open>
  The account of a key at time \<open>now\<close>, \<open>n\<close> queries having been let through since \<open>t0\<close>: those and the
  tokens left are covered by one burst and by the rate over the time of the last refill.
\<close>

definition account :: "nat \<Rightarrow> nat \<Rightarrow> nat \<Rightarrow> nat \<Rightarrow> ip_bucket option \<Rightarrow> nat \<Rightarrow> bool" where
  "account m burst t0 n ob now =
     (case ob of
        Some b \<Rightarrow> t0 \<le> last_refill b \<and> last_refill b \<le> now \<and>
          1000 * (n + tokens b) \<le> 1000 * burst + m * ms_since t0 (last_refill b)
      | None \<Rightarrow> n = 0 \<or> 1000 * n \<le> m * ms_since t0 now)"

lemma ms_since_split:
  assumes "t0 \<le> l" "l \<le> now"
  shows "m * ms_since t0 l + m * ms_since l now \<le> m * ms_since t0 now"
proof -
  have "now - t0 = (l - t0) + (now - l)" using assms by simp
  then have "ms_since t0 l + ms_since l now \<le> ms_since t0 now"
    by (simp only: ms_since_def div_add1_eq [of "l - t0" "now - l"])
  then show ?thesis by (metis add_mult_distrib2 mult_le_mono2)
qed

lemma ms_since_mono: "now \<le> now' \<Longrightarrow> m * ms_since t0 now \<le> m * ms_since t0 now'"
  by (simp add: ms_since_def div_le_mono)

lemma account_later:
  assumes "account m burst t0 n ob now" "now \<le> now'"
  shows "account m burst t0 n ob now'"
proof (cases ob)
  case None
  with assms(1) ms_since_mono [OF assms(2), of m t0] show ?thesis
    unfolding account_def option.case None by linarith
next
  case (Some b)
  with assms show ?thesis by (simp add: account_def)
qed

lemma credit_add:
  "1000 * (n + k) \<le> 1000 * b + x \<Longrightarrow> 1000 * t \<le> 1000 * k + e \<Longrightarrow> x + e \<le> y \<Longrightarrow>
     1000 * (n + t) \<le> 1000 * b + (y :: nat)"
  by (simp add: add_mult_distrib2)

lemma account_bound:
  assumes "account m b t0 n ob now" "now \<le> t1"
  shows "1000 * n \<le> 1000 * b + m * ms_since t0 t1"
proof (cases ob)
  case None
  with assms(1) order_trans [OF _ ms_since_mono [OF assms(2), of m t0]] show ?thesis
    by (auto simp: account_def intro: trans_le_add2)
next
  case (Some c)
  with assms have "1000 * (n + tokens c) \<le> 1000 * b + m * ms_since t0 (last_refill c)" "last_refill c \<le> t1"
    by (simp_all add: account_def)
  from credit_add [OF this(1) _ ms_since_mono [OF this(2), of m t0, THEN eq_refl [OF add_0_right, THEN order_trans]], of 0]
  show ?thesis by simp
qed

lemma account_gain:
  assumes acc: "account m burst t0 n (Some b) now"
    and gain: "1000 * t \<le> 1000 * tokens b + m * ms_since (last_refill b) now"
  shows "account m burst t0 n (Some (b\<lparr>tokens := t, last_refill := now\<rparr>)) now"
proof -
  from acc have l: "t0 \<le> last_refill b" "last_refill b \<le> now"
    and a: "1000 * (n + tokens b) \<le> 1000 * burst + m * ms_since t0 (last_refill b)"
    by (simp_all add: account_def)
  have "1000 * (n + t) \<le> 1000 * burst + m * ms_since t0 now"
    by (rule credit_add [OF a gain ms_since_split [OF l]])
  then show ?thesis using l by (simp add: account_def)
qed

lemma account_refill:
  assumes acc: "account m burst t0 n (Some b) now" and m: "burst \<le> m" "rps \<le> m"
  shows "account m burst t0 n (Some (refill now rps burst b)) now"
proof -
  let ?e = "ms_since (last_refill b) now"
  have e: "?e mod 2 ^ 64 \<le> ?e" by simp
  show ?thesis
  proof (cases "1000 \<le> ?e mod 2 ^ 64")
    case True
    then have "burst * 1000 \<le> m * ?e" using m(1) e by (meson mult_le_mono le_trans)
    then have "1000 * burst \<le> 1000 * tokens b + m * ?e" by linarith
    with account_gain [OF acc this] True show ?thesis by (simp add: refill_def Let_def)
  next
    case False
    let ?n = "rps * (?e mod 2 ^ 64) div 1000 mod 2 ^ 64"
    have "?n * 1000 \<le> rps * (?e mod 2 ^ 64)"
      by (metis div_times_less_eq_dividend le_trans mod_less_eq_dividend mult_le_mono1)
    also have "\<dots> \<le> m * ?e" using m(2) e by (rule mult_le_mono)
    finally have "1000 * min (saturating (tokens b + ?n)) burst \<le> 1000 * tokens b + m * ?e"
      by (auto simp: saturating_def min_def algebra_simps)
    from account_gain [OF acc this] acc False show ?thesis by (simp add: refill_def Let_def)
  qed
qed

lemma map_of_filter_val:
  "distinct (map fst bs) \<Longrightarrow> map_of (filter (\<lambda>(_, b). p b) bs) k =
     (case map_of bs k of Some b \<Rightarrow> if p b then Some b else None | None \<Rightarrow> None)"
  by (induction bs) (auto split: option.splits dest: map_of_SomeD simp: rev_image_eqI map_of_eq_None_iff)

lemma account_retain:
  assumes acc: "account m burst t0 n (map_of bs k) now" and m: "burst \<le> m" and s: "10 \<le> s"
    and d: "distinct (map fst bs)"
  shows "account m burst t0 n (map_of (retain_recent now s bs) k) now"
proof (cases "map_of (retain_recent now s bs) k = map_of bs k")
  case False
  then obtain b where b: "map_of bs k = Some b" "map_of (retain_recent now s bs) k = None"
    and old: "s \<le> (now - last_refill b) div 1000000000"
    by (auto simp: retain_recent_def map_of_filter_val [OF d] not_less split: option.splits if_splits)
  from acc b have l: "t0 \<le> last_refill b" "last_refill b \<le> now"
    and a: "1000 * (n + tokens b) \<le> 1000 * burst + m * ms_since t0 (last_refill b)"
    by (simp_all add: account_def)
  have "10 \<le> ms_since (last_refill b) now div 1000"
    using order_trans [OF s old] by (simp add: ms_since_def flip: div_mult2_eq)
  then have "1000 \<le> ms_since (last_refill b) now" by linarith
  then have "burst * 1000 \<le> m * ms_since (last_refill b) now" by (rule mult_le_mono [OF m])
  with a ms_since_split [OF l, of m] have "1000 * n \<le> m * ms_since t0 now"
    by (simp add: add_mult_distrib2)
  with b show ?thesis by (simp add: account_def)
qed (use acc in simp)

lemma account_take:
  assumes acc: "account m burst t0 n (map_of (rl_buckets rl) k) now"
    and rl: "rl_burst rl = burst" "burst \<le> m" "rl_rps rl \<le> m" "t0 \<le> now"
    and res: "take_token now k rl = (ok, rl')"
  shows "account m burst t0 (n + of_bool ok) (map_of (rl_buckets rl') k) now"
proof -
  define b where "b = (case map_of (rl_buckets rl) k of Some b \<Rightarrow> b
    | None \<Rightarrow> \<lparr>tokens = burst, last_refill = now\<rparr>)"
  have "account m burst t0 n (Some b) now"
    using acc rl(4) by (auto simp: b_def account_def split: option.splits)
  from account_refill [OF this rl(2,3)]
  have r: "account m burst t0 n (Some (refill now (rl_rps rl) burst b)) now" .
  show ?thesis
  proof (cases "tokens (refill now (rl_rps rl) burst b)")
    case 0
    with res rl(1) r show ?thesis by (auto simp: take_token_def b_def Let_def)
  next
    case (Suc t)
    with res rl(1) r show ?thesis by (auto simp: take_token_def b_def Let_def account_def)
  qed
qed

definition rl_key :: "rate_limiter \<Rightarrow> ip_addr \<Rightarrow> ip_addr" where
  "rl_key rl ip = normalize_ip ip (rl_prefix_v4 rl) (rl_prefix_v6 rl)"

text \<open>The limits are not changed by a check.\<close>

definition same_config :: "rate_limiter \<Rightarrow> rate_limiter \<Rightarrow> bool" where
  "same_config rl rl' \<longleftrightarrow> rl_rps rl' = rl_rps rl \<and> rl_burst rl' = rl_burst rl \<and>
     rl_prefix_v4 rl' = rl_prefix_v4 rl \<and> rl_prefix_v6 rl' = rl_prefix_v6 rl"

lemma take_token_config: "take_token now k rl = (ok, rl') \<Longrightarrow> same_config rl rl'"
  by (auto simp: take_token_def same_config_def Let_def split: if_splits)

lemma take_token_other:
  "take_token now k' rl = (ok, rl') \<Longrightarrow> k' \<noteq> k \<Longrightarrow> map_of (rl_buckets rl') k = map_of (rl_buckets rl) k"
  by (auto simp: take_token_def Let_def split: if_splits)

lemma rl_gc_facts:
  assumes "rl_inv rl" "account m (rl_burst rl) t0 n (map_of (rl_buckets rl) k) now" "rl_burst rl \<le> m"
  shows "same_config rl (rl_gc now rl)" "account m (rl_burst rl) t0 n (map_of (rl_buckets (rl_gc now rl)) k) now"
  using assms account_retain [OF assms(2,3), of 60]
  by (simp_all add: rl_gc_def same_config_def rl_inv_def Let_def)

lemma rl_check_account:
  assumes inv: "rl_inv rl" and acc: "account m (rl_burst rl) t0 n (map_of (rl_buckets rl) k) now"
    and m: "rl_burst rl \<le> m" "rl_rps rl \<le> m" "t0 \<le> now" and res: "rl_check now ip rl = (ok, rl')"
  shows "same_config rl rl' \<and> account m (rl_burst rl) t0
    (n + of_bool (ok \<and> rl_rps rl \<noteq> 0 \<and> \<not> ip_is_loopback ip \<and> rl_key rl ip = k)) (map_of (rl_buckets rl') k) now"
proof (cases "rl_rps rl = 0 \<or> ip_is_loopback ip")
  case True
  then have "rl_check now ip rl = (True, rl)" by (auto simp: rl_check_def)
  with res acc True show ?thesis by (auto simp: same_config_def)
next
  case False
  let ?gc = "rl_gc now rl" and ?k = "rl_key rl ip"
  let ?rt = "?gc\<lparr>rl_buckets := retain_recent now 10 (rl_buckets ?gc)\<rparr>"
  note gc = rl_gc_facts [OF inv acc m(1)] gc_inv [OF inv, of now]
  have rt: "same_config rl ?rt" "account m (rl_burst rl) t0 n (map_of (rl_buckets ?rt) k) now"
    using gc(1) account_retain [OF gc(2) m(1), of 10] gc(3) by (simp_all add: same_config_def rl_inv_def)
  have take: ?thesis
    if t: "take_token now ?k s = (ok, rl')" and s: "same_config rl s"
      and a: "account m (rl_burst rl) t0 n (map_of (rl_buckets s) k) now" for s
  proof (intro conjI)
    show "same_config rl rl'" using s take_token_config [OF t] by (simp add: same_config_def)
    show "account m (rl_burst rl) t0
      (n + of_bool (ok \<and> rl_rps rl \<noteq> 0 \<and> \<not> ip_is_loopback ip \<and> ?k = k)) (map_of (rl_buckets rl') k) now"
    proof (cases "?k = k")
      case True
      have c: "rl_burst s = rl_burst rl" "rl_rps s \<le> m" using s m(2) by (simp_all add: same_config_def)
      from account_take [OF a c(1) m(1) c(2) m(3) t [unfolded True]] True False show ?thesis by simp
    next
      case other: False
      from take_token_other [OF t other] a other show ?thesis by simp
    qed
  qed
  have def': "rl_check now ip rl =
      (if length (rl_buckets ?gc) \<ge> MAX_RATE_LIMIT_BUCKETS \<and> map_of (rl_buckets ?gc) ?k = None then
         if length (rl_buckets ?rt) \<ge> MAX_RATE_LIMIT_BUCKETS then (False, ?rt) else take_token now ?k ?rt
       else take_token now ?k ?gc)"
    using False by (simp add: rl_check_def rl_key_def Let_def)
  from res consider "take_token now ?k ?gc = (ok, rl')" | "take_token now ?k ?rt = (ok, rl')"
    | "(ok, rl') = (False, ?rt)"
    unfolding def' by (metis (no_types))
  then show ?thesis
  proof cases
    case 1
    then show ?thesis using gc(1,2) by (rule take)
  next
    case 2
    then show ?thesis using rt by (rule take)
  next
    case 3
    then show ?thesis using rt by simp
  qed
qed

lemma served_account:
  assumes "rl_inv rl" "account m (rl_burst rl) t0 n (map_of (rl_buckets rl) k) now"
    "rl_burst rl \<le> m" "rl_rps rl \<le> m" "rl_rps rl \<noteq> 0" "t0 \<le> now"
    "sorted (now # map fst evs)" "\<forall>t \<in> set (now # map fst evs). t \<le> t1"
  shows "1000 * (n + served k evs rl) \<le> 1000 * rl_burst rl + m * ms_since t0 t1"
  using assms
proof (induction evs arbitrary: n now rl)
  case Nil
  then show ?case using account_bound [OF Nil.prems(2), of t1] by simp
next
  case (Cons ev evs)
  obtain t ip where ev: "ev = (t, ip)" by (cases ev)
  obtain ok rl' where res: "rl_check t ip rl = (ok, rl')" by (cases "rl_check t ip rl")
  have t: "now \<le> t" "t0 \<le> t" using Cons.prems(6,7) by (auto simp: ev)
  let ?hit = "of_bool (ok \<and> rl_rps rl \<noteq> 0 \<and> \<not> ip_is_loopback ip \<and> rl_key rl ip = k) :: nat"
  note step = rl_check_account [OF Cons.prems(1) account_later [OF Cons.prems(2) t(1)] Cons.prems(3,4) t(2) res]
  have "rl_inv rl'" using rl_check_inv [OF Cons.prems(1), of t ip] res by simp
  then have "1000 * (n + ?hit + served k evs rl') \<le> 1000 * rl_burst rl' + m * ms_since t0 t1"
    using Cons.IH [of rl' "n + ?hit" t] step Cons.prems t by (auto simp: same_config_def ev)
  moreover have "served k (ev # evs) rl = ?hit + served k evs rl'"
    using Cons.prems(5) by (simp add: ev res rl_key_def)
  ultimately show ?case using step by (simp add: same_config_def add.assoc)
qed

text \<open>
  C15. The rate is kept, whatever the other clients do: in any sequence of checks at times from \<open>t0\<close>
  to \<open>t1\<close> that starts without a bucket for the key \<open>k\<close>, the clients of that key are let through at
  most \<open>burst\<close> times plus \<open>max burst rps\<close> times per second elapsed. Clean-ups of the table in between
  do not give anyone more.
\<close>

theorem served_bounded:
  assumes "rl_inv rl" "map_of (rl_buckets rl) k = None" "rl_rps rl \<noteq> 0"
    "sorted (t0 # map fst evs)" "\<forall>t \<in> set (t0 # map fst evs). t \<le> t1"
  shows "1000 * served k evs rl \<le> 1000 * rl_burst rl + max (rl_burst rl) (rl_rps rl) * ms_since t0 t1"
proof -
  have "account (max (rl_burst rl) (rl_rps rl)) (rl_burst rl) t0 0 (map_of (rl_buckets rl) k) t0"
    using assms(2) by (simp add: account_def)
  from served_account [OF assms(1) this _ _ assms(3) _ assms(4,5)] show ?thesis by simp
qed

theorem served_bounded_witness:
  "1000 * served (V4 0x01020300) [(0, V4 0x01020304), (1, V4 0x01020305), (2, V4 0x01020306)] (rl_new 0 1 (Some 2) 24 48)
     \<le> 1000 * 2 + max 2 1 * ms_since 0 2"
  using served_bounded [of "rl_new 0 1 (Some 2) 24 48" "V4 0x01020300" 0
      "[(0, V4 0x01020304), (1, V4 0x01020305), (2, V4 0x01020306)]" 2]
  by (simp add: rl_new_def rl_inv_def)

end
