(* ===== verification/Dns_Hasher.thy ===== *)
theory Dns_Hasher
  imports Prelude
begin

unbundle bit_operations_syntax

text \<open>
  The hashing of names, \<open>dns/hasher.rs\<close>: CRC-32C by machine instruction, with the FNV-1a fallback. The
  CRC instruction is modelled at the level of bits for the three operand widths the code uses, so that
  reading a name in 8-, 4- and 1-byte chunks is compared with reading it byte by byte.
\<close>

section \<open>The code\<close>

text \<open>
  The \<open>crc32\<close> instruction: the accumulator is combined with an operand of \<open>n\<close> bits and divided \<open>n\<close>
  times by the (reflected) Castagnoli polynomial.
\<close>

definition crc_bit :: "u64 \<Rightarrow> u64" where
  "crc_bit t = (if bit t 0 then drop_bit 1 t XOR 0x82F63B78 else drop_bit 1 t)"

definition crc32_insn :: "nat \<Rightarrow> u32 \<Rightarrow> u64 \<Rightarrow> u32" where
  "crc32_insn n crc operand = ucast ((crc_bit ^^ n) (ucast crc XOR operand))"

text \<open>\<open>read_unaligned\<close> of an integer on a little-endian machine.\<close>

definition le_word :: "byte list \<Rightarrow> u64" where
  "le_word bs = foldr (\<lambda>b acc. push_bit 8 acc XOR ucast b) bs 0"

text \<open>\<open>align_to\<close> cuts the slice into bytes, aligned 8-byte words and bytes; where is its choice.\<close>

definition crc32c_sse42 :: "u32 \<Rightarrow> byte list \<times> byte list list \<times> byte list \<Rightarrow> u32" where
  "crc32c_sse42 crc parts =
     (let (prefix, aligned, suffix) = parts;
          crc64 = foldl (\<lambda>c b. ucast (crc32_insn 8 (ucast c) (ucast b))) (ucast crc) prefix;
          crc64 = foldl (\<lambda>c w. ucast (crc32_insn 64 (ucast c) (le_word w))) crc64 aligned
      in foldl (\<lambda>c b. crc32_insn 8 c (ucast b)) (ucast (crc64 :: u64)) suffix)"

fun crc_tail :: "u32 \<Rightarrow> byte list \<Rightarrow> u32" where
  "crc_tail crc [] = crc"
| "crc_tail crc (b # bs) = crc_tail (crc32_insn 8 crc (ucast b)) bs"

function crc32c_sse42_asm :: "u32 \<Rightarrow> byte list \<Rightarrow> u32" where
  "crc32c_sse42_asm crc bytes =
     (if length bytes \<ge> 8 then crc32c_sse42_asm (crc32_insn 64 crc (le_word (take 8 bytes))) (drop 8 bytes)
      else if length bytes \<ge> 4 then crc_tail (crc32_insn 32 crc (le_word (take 4 bytes))) (drop 4 bytes)
      else crc_tail crc bytes)"
  by pat_completeness auto
termination
  by (relation "measure (\<lambda>(crc, bytes). length bytes)") auto

declare crc32c_sse42_asm.simps [simp del]

definition crc32c_arm :: "u32 \<Rightarrow> byte list \<times> byte list list \<times> byte list \<Rightarrow> u32" where
  "crc32c_arm crc parts =
     (let (prefix, aligned, suffix) = parts;
          crc = foldl (\<lambda>c b. crc32_insn 8 c (ucast b)) crc prefix;
          crc = foldl (\<lambda>c w. crc32_insn 64 c (le_word w)) crc aligned
      in foldl (\<lambda>c b. crc32_insn 8 c (ucast b)) crc suffix)"

datatype target = X86_64 | Aarch64 | Other_Target

definition crc32c_hw ::
    "target \<Rightarrow> (byte list \<Rightarrow> byte list \<times> byte list list \<times> byte list) \<Rightarrow> u32 \<Rightarrow> byte list \<Rightarrow> u32" where
  "crc32c_hw target align_to crc bytes =
     (case target of
        X86_64 \<Rightarrow> crc32c_sse42_asm crc bytes
      | Aarch64 \<Rightarrow> crc32c_arm crc (align_to bytes)
      | Other_Target \<Rightarrow> crc)"

fun fnv1a_update :: "u64 \<Rightarrow> byte list \<Rightarrow> u64" where
  "fnv1a_update h [] = h"
| "fnv1a_update h (b # bs) = fnv1a_update ((h XOR ucast b) * 0x100000001B3) bs"

record dns_hasher =
  hcrc :: u32
  hfnv :: u64
  hw :: bool

definition hasher_write ::
    "target \<Rightarrow> (byte list \<Rightarrow> byte list \<times> byte list list \<times> byte list) \<Rightarrow> byte list \<Rightarrow> dns_hasher \<Rightarrow> dns_hasher" where
  "hasher_write target align_to bytes h =
     (if hw h then h\<lparr>hcrc := crc32c_hw target align_to (hcrc h) bytes\<rparr>
      else h\<lparr>hfnv := fnv1a_update (hfnv h) bytes\<rparr>)"

definition hasher_finish :: "dns_hasher \<Rightarrow> u64" where
  "hasher_finish h =
     (if hw h then (let c = ucast (hcrc h) in c XOR c * 0x9e3779b97f4a7c15) else hfnv h)"

definition build_hasher :: "bool \<Rightarrow> dns_hasher" where
  "build_hasher has_hw = \<lparr>hcrc = 0, hfnv = 0xcbf29ce484222325, hw = has_hw\<rparr>"

definition hash_wire_qname ::
    "target \<Rightarrow> (byte list \<Rightarrow> byte list \<times> byte list list \<times> byte list) \<Rightarrow> bool \<Rightarrow> byte list \<Rightarrow> u64" where
  "hash_wire_qname target align_to has_hw wire_qname =
     hasher_finish (hasher_write target align_to wire_qname (build_hasher has_hw))"

text \<open>\<open>IdentityHasher\<close>: a 64-bit key is its own hash.\<close>

definition identity_write_u64 :: "u64 \<Rightarrow> u64 \<Rightarrow> u64" where
  "identity_write_u64 k h = k"

definition identity_write :: "byte list \<Rightarrow> u64 \<Rightarrow> u64" where
  "identity_write bytes h = foldl (\<lambda>h b. (h XOR ucast b) * 0x100000001B3) h bytes"

section \<open>The CRC instruction byte by byte\<close>

definition crc_byte :: "u32 \<Rightarrow> byte \<Rightarrow> u32" where
  "crc_byte c b = crc32_insn 8 c (ucast b)"

lemma crc_bit_xor: "\<not> bit b 0 \<Longrightarrow> crc_bit (a XOR b) = crc_bit a XOR drop_bit 1 b"
  by (simp add: crc_bit_def bit_simps drop_bit_xor ac_simps)

lemma crc_bits_xor:
  "(\<forall>i < k. \<not> bit b i) \<Longrightarrow> (crc_bit ^^ k) (a XOR b) = (crc_bit ^^ k) a XOR drop_bit k b"
proof (induction k arbitrary: a b)
  case (Suc k)
  have "(crc_bit ^^ Suc k) (a XOR b) = (crc_bit ^^ k) (crc_bit (a XOR b))" by (simp only: funpow_Suc_right comp_def)
  also have "crc_bit (a XOR b) = crc_bit a XOR drop_bit 1 b" using Suc.prems by (intro crc_bit_xor) auto
  also have "(crc_bit ^^ k) (crc_bit a XOR drop_bit 1 b) = (crc_bit ^^ k) (crc_bit a) XOR drop_bit k (drop_bit 1 b)"
    using Suc.prems by (intro Suc.IH) (auto simp: bit_drop_bit_eq)
  finally show ?case by (simp add: funpow_Suc_right del: funpow.simps)
qed simp

lemma bits_small: "(\<forall>i \<ge> 32. \<not> bit t i) \<Longrightarrow> ucast (ucast t :: u32) = (t :: u64)"
  by (rule bit_word_eqI) (auto simp: bit_simps, meson not_le)

lemma crc_bit_small:
  assumes "\<forall>i \<ge> 32. \<not> bit t i"
  shows "\<forall>i \<ge> 32. \<not> bit (crc_bit t) i"
proof -
  have p: "\<not> bit (0x82F63B78 :: u64) i" if "32 \<le> i" for i
  proof -
    have "(0x82F63B78 :: u64) = take_bit 32 0x82F63B78" by code_simp
    then show ?thesis using that by (metis bit_take_bit_iff not_le)
  qed
  have d: "\<not> bit (drop_bit 1 t) i" if "32 \<le> i" for i using assms that by (simp add: bit_drop_bit_eq)
  have "\<not> bit (drop_bit 1 t XOR 0x82F63B78) i" if "32 \<le> i" for i
    unfolding bit_xor_iff using p [OF that] d [OF that] by blast
  with d show ?thesis unfolding crc_bit_def by (cases "bit t 0") (simp_all only: if_True if_False, blast+)
qed

lemma crc_bits_small: "(\<forall>i \<ge> 32. \<not> bit t i) \<Longrightarrow> (\<forall>i \<ge> 32. \<not> bit ((crc_bit ^^ k) t) i)"
proof (induction k)
  case (Suc k)
  then show ?case using crc_bit_small [of "(crc_bit ^^ k) t"] by simp
qed simp

text \<open>One byte of a wide operand: the remaining bytes are what the next instruction would be given.\<close>

lemma crc_insn_step:
  "crc32_insn (8 + n) c (push_bit 8 w XOR ucast (b :: byte)) = crc32_insn n (crc_byte c b) w" if "drop_bit 56 w = 0"
proof -
  let ?t = "ucast c XOR ucast b :: u64"
  have small: "\<forall>i \<ge> 32. \<not> bit ?t i" by (auto simp: bit_simps dest: bit_imp_le_length)
  have "(crc_bit ^^ (8 + n)) (ucast c XOR (push_bit 8 w XOR ucast b)) = (crc_bit ^^ (n + 8)) (?t XOR push_bit 8 w)"
    by (simp add: ac_simps)
  also have "\<dots> = (crc_bit ^^ n) ((crc_bit ^^ 8) (?t XOR push_bit 8 w))" by (simp only: funpow_add comp_def)
  also have "(crc_bit ^^ 8) (?t XOR push_bit 8 w) = (crc_bit ^^ 8) ?t XOR drop_bit 8 (push_bit 8 w)"
    by (intro crc_bits_xor) (simp add: bit_push_bit_iff)
  also have "drop_bit 8 (push_bit 8 w) = w"
  proof (rule bit_word_eqI)
    fix n :: nat
    assume n: "n < LENGTH(64)"
    have "\<not> bit w n" if "56 \<le> n"
    proof -
      have "bit (drop_bit 56 w) (n - 56) = bit w n" using that by (simp add: bit_drop_bit_eq)
      then show ?thesis by (simp add: \<open>drop_bit 56 w = 0\<close>)
    qed
    with n show "bit (drop_bit 8 (push_bit 8 w)) n = bit w n"
      by (cases "56 \<le> n") (auto simp: bit_simps)
  qed
  also have "(crc_bit ^^ 8) ?t = ucast (crc_byte c b)"
    unfolding crc_byte_def crc32_insn_def using bits_small [OF crc_bits_small [OF small]] by simp
  finally show ?thesis by (simp add: crc32_insn_def)
qed

lemma le_word_Cons: "le_word (b # bs) = push_bit 8 (le_word bs) XOR ucast b"
  by (simp add: le_word_def)

lemma le_word_small: "8 * length bs \<le> i \<Longrightarrow> \<not> bit (le_word bs) i"
proof (induction bs arbitrary: i)
  case (Cons b bs)
  then show ?case by (auto simp: le_word_Cons bit_xor_iff bit_push_bit_iff bit_ucast_iff dest: bit_imp_le_length)
qed (simp add: le_word_def)

lemma ucast_32_64 [simp]: "ucast (ucast (c :: u32) :: u64) = c"
  by (simp add: ucast_up_ucast_id is_up)

lemma crc_insn_bytes: "length bs \<le> 8 \<Longrightarrow> crc32_insn (8 * length bs) c (le_word bs) = foldl crc_byte c bs"
proof (induction bs arbitrary: c)
  case Nil
  then show ?case by (simp add: crc32_insn_def le_word_def)
next
  case (Cons b bs)
  have "drop_bit 56 (le_word bs) = 0"
    using Cons.prems by (intro bit_eqI) (simp add: bit_drop_bit_eq le_word_small)
  from crc_insn_step [OF this, of "8 * length bs" c b] Cons show ?case by (simp add: le_word_Cons)
qed

lemma crc_tail: "crc_tail crc bs = foldl crc_byte crc bs"
  by (induction crc bs rule: crc_tail.induct) (simp_all add: crc_byte_def)

lemma crc_asm: "crc32c_sse42_asm crc bytes = foldl crc_byte crc bytes"
proof (induction crc bytes rule: crc32c_sse42_asm.induct)
  case (1 crc bytes)
  have split: "foldl crc_byte (foldl crc_byte crc (take n bytes)) (drop n bytes) = foldl crc_byte crc bytes" for n
    by (simp flip: foldl_append)
  show ?case
  proof (cases "8 \<le> length bytes")
    case True
    then have "crc32_insn 64 crc (le_word (take 8 bytes)) = foldl crc_byte crc (take 8 bytes)"
      using crc_insn_bytes [of "take 8 bytes" crc] by (simp add: min_absorb2)
    with 1 True show ?thesis by (subst crc32c_sse42_asm.simps) (simp add: split)
  next
    case False
    moreover have "4 \<le> length bytes \<Longrightarrow> crc32_insn 32 crc (le_word (take 4 bytes)) = foldl crc_byte crc (take 4 bytes)"
      using crc_insn_bytes [of "take 4 bytes" crc] by (simp add: min_absorb2)
    ultimately show ?thesis by (subst crc32c_sse42_asm.simps) (simp add: crc_tail split)
  qed
qed

lemma crc_words: "list_all (\<lambda>w. length w = 8) ws \<Longrightarrow>
    foldl (\<lambda>c w. crc32_insn 64 c (le_word w)) crc ws = foldl crc_byte crc (concat ws)"
proof (induction ws arbitrary: crc)
  case (Cons w ws)
  then show ?case using crc_insn_bytes [of w crc] by simp
qed simp

lemma crc_arm:
  "list_all (\<lambda>w. length w = 8) ws \<Longrightarrow> crc32c_arm crc (p, ws, s) = foldl crc_byte crc (p @ concat ws @ s)"
  by (simp add: crc32c_arm_def crc_words crc_byte_def [symmetric])

lemma foldl_ucast:
  "(ucast (foldl (\<lambda>c x. ucast (f (ucast c) x)) (c :: u64) xs) :: u32) = foldl f (ucast c) xs"
  by (induction xs arbitrary: c) simp_all

lemma crc_sse42:
  "list_all (\<lambda>w. length w = 8) ws \<Longrightarrow> crc32c_sse42 crc (p, ws, s) = foldl crc_byte crc (p @ concat ws @ s)"
  by (simp add: crc32c_sse42_def foldl_ucast [of crc_byte] crc_words crc_byte_def [symmetric]
      foldl_ucast [of "\<lambda>c w. crc32_insn 64 c (le_word w)"])

lemma fnv_append: "fnv1a_update h (xs @ ys) = fnv1a_update (fnv1a_update h xs) ys"
  by (induction h xs rule: fnv1a_update.induct) simp_all

text \<open>
  C31. The three CRC routines compute the same checksum, the byte-by-byte one: the assembly that reads
  8, 4 and 1 bytes at a time, the intrinsics version and the ARM version, however \<open>align_to\<close> cuts the
  input.
\<close>

theorem crc32c_routines_agree:
  assumes "list_all (\<lambda>w. length w = 8) ws" "bytes = p @ concat ws @ s"
  shows "crc32c_sse42_asm crc bytes = foldl crc_byte crc bytes \<and>
    crc32c_sse42 crc (p, ws, s) = foldl crc_byte crc bytes \<and>
    crc32c_arm crc (p, ws, s) = foldl crc_byte crc bytes"
  by (simp add: crc_asm crc_sse42 [OF assms(1)] crc_arm [OF assms(1)] assms(2) del: foldl_append)

theorem crc32c_routines_agree_witness:
  "crc32c_sse42 7 ([1], [[2, 3, 4, 5, 6, 7, 8, 9]], [10]) = crc32c_sse42_asm 7 [1, 2, 3, 4, 5, 6, 7, 8, 9, 10]"
  using crc32c_routines_agree [of "[[2, 3, 4, 5, 6, 7, 8, 9]]" "[1, 2, 3, 4, 5, 6, 7, 8, 9, 10]" "[1]" "[10]" 7]
  by simp

text \<open>What \<open>align_to\<close> promises: the parts make up the slice, and the middle is made of whole words.\<close>

definition aligns :: "(byte list \<Rightarrow> byte list \<times> byte list list \<times> byte list) \<Rightarrow> bool" where
  "aligns align_to \<longleftrightarrow>
     (\<forall>bs. case align_to bs of (p, ws, s) \<Rightarrow> bs = p @ concat ws @ s \<and> list_all (\<lambda>w. length w = 8) ws)"

lemma crc_hw:
  assumes "aligns align_to"
  shows "crc32c_hw t align_to crc bs = (if t = Other_Target then crc else foldl crc_byte crc bs)"
proof (cases t)
  case Aarch64
  obtain p ws s where a: "align_to bs = (p, ws, s)" by (cases "align_to bs")
  from assms have "case align_to bs of (p, ws, s) \<Rightarrow> bs = p @ concat ws @ s \<and> list_all (\<lambda>w. length w = 8) ws"
    unfolding aligns_def by (rule spec)
  then have bs: "bs = p @ concat ws @ s" and ws: "list_all (\<lambda>w. length w = 8) ws" by (simp_all add: a)
  have "crc32c_hw t align_to crc bs = crc32c_arm crc (p, ws, s)" by (simp add: crc32c_hw_def Aarch64 a)
  then show ?thesis unfolding crc_arm [OF ws] bs [symmetric] by (simp add: Aarch64)
qed (simp_all add: crc32c_hw_def crc_asm)

text \<open>
  Hashing a name in pieces gives the hash of the whole: the hasher's \<open>write\<close> is a monoid action,
  on every target and with either algorithm.
\<close>

theorem hasher_write_append:
  assumes "aligns align_to"
  shows "hasher_write t align_to (xs @ ys) h = hasher_write t align_to ys (hasher_write t align_to xs h)"
  by (simp add: hasher_write_def crc_hw [OF assms] fnv_append)

theorem hasher_write_append_witness:
  "hasher_write Aarch64 (\<lambda>bs. (bs, [], [])) ([1] @ [2]) (build_hasher True) =
   hasher_write Aarch64 (\<lambda>bs. (bs, [], [])) [2] (hasher_write Aarch64 (\<lambda>bs. (bs, [], [])) [1] (build_hasher True))"
proof -
  have "aligns (\<lambda>bs. (bs, [], []))" by (simp add: aligns_def)
  then show ?thesis by (rule hasher_write_append)
qed

end
