(* ===== verification/Wire_Base.thy ===== *)
theory Wire_Base
  imports Prelude
begin

text \<open>
  The base of the wire codec: the error type (\<open>wire/error.rs\<close>), the numeric constants
  (\<open>wire/consts.rs\<close>), the bounds-checked cursor (\<open>wire/decoder.rs\<close>) and the append-only
  builder with its compression table (\<open>wire/encoder.rs\<close>).

  A \<open>usize\<close> is a \<open>nat\<close>: every offset the codec computes is bounded by the length of a slice,
  which Rust keeps below \<open>isize::MAX\<close>, plus less than \<open>2 ^ 17\<close>, so no sum wraps, and the
  \<open>None\<close> branch of each \<open>checked_add\<close> yields the same error as the range check after it.
\<close>

section \<open>Errors\<close>

datatype wire_error =
    UnexpectedEof
  | LabelTooLong byte
  | NameTooLong
  | BadPointer
  | TooManyPointers
  | ReservedLabelType
  | BadRdataLength
  | BadCharString
  | BadOpt
  | TruncatedSection
  | BadName

type_synonym 'a wire_result = "wire_error + 'a"

section \<open>Constants\<close>

abbreviation (input) rtype_A :: u16 where "rtype_A \<equiv> 1"
abbreviation (input) rtype_NS :: u16 where "rtype_NS \<equiv> 2"
abbreviation (input) rtype_CNAME :: u16 where "rtype_CNAME \<equiv> 5"
abbreviation (input) rtype_SOA :: u16 where "rtype_SOA \<equiv> 6"
abbreviation (input) rtype_PTR :: u16 where "rtype_PTR \<equiv> 12"
abbreviation (input) rtype_MX :: u16 where "rtype_MX \<equiv> 15"
abbreviation (input) rtype_TXT :: u16 where "rtype_TXT \<equiv> 16"
abbreviation (input) rtype_AAAA :: u16 where "rtype_AAAA \<equiv> 28"
abbreviation (input) rtype_SRV :: u16 where "rtype_SRV \<equiv> 33"
abbreviation (input) rtype_NAPTR :: u16 where "rtype_NAPTR \<equiv> 35"
abbreviation (input) rtype_OPT :: u16 where "rtype_OPT \<equiv> 41"
abbreviation (input) rtype_DS :: u16 where "rtype_DS \<equiv> 43"
abbreviation (input) rtype_SSHFP :: u16 where "rtype_SSHFP \<equiv> 44"
abbreviation (input) rtype_RRSIG :: u16 where "rtype_RRSIG \<equiv> 46"
abbreviation (input) rtype_NSEC :: u16 where "rtype_NSEC \<equiv> 47"
abbreviation (input) rtype_DNSKEY :: u16 where "rtype_DNSKEY \<equiv> 48"
abbreviation (input) rtype_NSEC3 :: u16 where "rtype_NSEC3 \<equiv> 50"
abbreviation (input) rtype_TLSA :: u16 where "rtype_TLSA \<equiv> 52"
abbreviation (input) rtype_SVCB :: u16 where "rtype_SVCB \<equiv> 64"
abbreviation (input) rtype_HTTPS :: u16 where "rtype_HTTPS \<equiv> 65"
abbreviation (input) rtype_CAA :: u16 where "rtype_CAA \<equiv> 257"
abbreviation (input) rtype_TSIG :: u16 where "rtype_TSIG \<equiv> 250"

abbreviation (input) class_IN :: u16 where "class_IN \<equiv> 1"

abbreviation (input) rcode_NOERROR :: u16 where "rcode_NOERROR \<equiv> 0"
abbreviation (input) rcode_FORMERR :: u16 where "rcode_FORMERR \<equiv> 1"
abbreviation (input) rcode_SERVFAIL :: u16 where "rcode_SERVFAIL \<equiv> 2"
abbreviation (input) rcode_NXDOMAIN :: u16 where "rcode_NXDOMAIN \<equiv> 3"
abbreviation (input) rcode_NOTIMP :: u16 where "rcode_NOTIMP \<equiv> 4"
abbreviation (input) rcode_REFUSED :: u16 where "rcode_REFUSED \<equiv> 5"

section \<open>The decoder\<close>

record decoder =
  dbuf :: "byte list"
  dpos :: nat

text \<open>A decoding step: an error, or a value and the advanced cursor (\<open>&mut Decoder\<close>).\<close>

type_synonym 'a parser = "decoder \<Rightarrow> ('a \<times> decoder) wire_result"

text \<open>Sequencing with the \<open>?\<close> operator, and its facts.\<close>

definition pbind :: "'a parser \<Rightarrow> ('a \<Rightarrow> 'b parser) \<Rightarrow> 'b parser" where
  "pbind p f d = (case p d of Inl e \<Rightarrow> Inl e | Inr (a, d') \<Rightarrow> f a d')"

definition preturn :: "'a \<Rightarrow> 'a parser" where
  "preturn a d = Inr (a, d)"

named_theorems parser_simps

lemma preturn_simp [parser_simps]: "preturn a d = Inr (a, d)"
  by (simp add: preturn_def)

lemma pbind_Inr [parser_simps]: "p d = Inr (a, d') \<Longrightarrow> pbind p f d = f a d'"
  by (simp add: pbind_def)

lemma pbind_Inl [parser_simps]: "p d = Inl e \<Longrightarrow> pbind p f d = Inl e"
  by (simp add: pbind_def)

lemma pbind_eq_InrE:
  assumes "pbind p f d = Inr (b, d'')"
  obtains a d' where "p d = Inr (a, d')" "f a d' = Inr (b, d'')"
  using assms by (auto simp: pbind_def split: sum.splits)

definition dec_new :: "byte list \<Rightarrow> decoder" where
  "dec_new buf = \<lparr>dbuf = buf, dpos = 0\<rparr>"

text \<open>\<open>self.buf.len() - self.pos\<close> underflows (a panic) for a cursor past the end.\<close>

definition dec_remaining :: "decoder \<Rightarrow> nat option" where
  "dec_remaining d = (if dpos d \<le> length (dbuf d) then Some (length (dbuf d) - dpos d) else None)"

definition dec_is_empty :: "decoder \<Rightarrow> bool" where
  "dec_is_empty d \<longleftrightarrow> dpos d \<ge> length (dbuf d)"

definition dec_seek :: "nat \<Rightarrow> unit parser" where
  "dec_seek pos d = (if pos > length (dbuf d) then Inl UnexpectedEof else Inr ((), d\<lparr>dpos := pos\<rparr>))"

definition dec_u8 :: "byte parser" where
  "dec_u8 d = (case index (dbuf d) (dpos d) of
       None \<Rightarrow> Inl UnexpectedEof
     | Some b \<Rightarrow> Inr (b, d\<lparr>dpos := dpos d + 1\<rparr>))"

definition dec_peek_u8 :: "decoder \<Rightarrow> byte wire_result" where
  "dec_peek_u8 d = (case index (dbuf d) (dpos d) of None \<Rightarrow> Inl UnexpectedEof | Some b \<Rightarrow> Inr b)"

definition dec_u16 :: "u16 parser" where
  "dec_u16 = pbind dec_u8 (\<lambda>hi. pbind dec_u8 (\<lambda>lo. preturn (u16_from_be hi lo)))"

definition dec_u32 :: "u32 parser" where
  "dec_u32 = pbind dec_u16 (\<lambda>a. pbind dec_u16 (\<lambda>b. preturn (u32_join a b)))"

definition dec_slice :: "nat \<Rightarrow> byte list parser" where
  "dec_slice n d = (case subslice (dbuf d) (dpos d) (dpos d + n) of
       None \<Rightarrow> Inl UnexpectedEof
     | Some s \<Rightarrow> Inr (s, d\<lparr>dpos := dpos d + n\<rparr>))"

section \<open>The encoder\<close>

text \<open>The 14-bit ceiling of a compression pointer.\<close>

abbreviation (input) MAX_COMPRESS_OFFSET :: nat where "MAX_COMPRESS_OFFSET \<equiv> 0x3FFF"

record encoder =
  ebuf :: "byte list"
  enames :: "byte list \<rightharpoonup> u16"
  ecompress :: bool

definition enc_new :: encoder where
  "enc_new = \<lparr>ebuf = [], enames = Map.empty, ecompress = True\<rparr>"

definition enc_uncompressed :: encoder where
  "enc_uncompressed = \<lparr>ebuf = [], enames = Map.empty, ecompress = False\<rparr>"

definition enc_bytes :: "byte list \<Rightarrow> encoder \<Rightarrow> encoder" where
  "enc_bytes s e = e\<lparr>ebuf := ebuf e @ s\<rparr>"

definition enc_u8 :: "byte \<Rightarrow> encoder \<Rightarrow> encoder" where
  "enc_u8 v e = e\<lparr>ebuf := ebuf e @ [v]\<rparr>"

definition enc_u16 :: "u16 \<Rightarrow> encoder \<Rightarrow> encoder" where
  "enc_u16 v e = e\<lparr>ebuf := ebuf e @ u16_to_be v\<rparr>"

definition enc_u32 :: "u32 \<Rightarrow> encoder \<Rightarrow> encoder" where
  "enc_u32 v e = e\<lparr>ebuf := ebuf e @ u32_to_be v\<rparr>"

definition enc_lookup_name :: "encoder \<Rightarrow> byte list \<Rightarrow> u16 option" where
  "enc_lookup_name e lower_wire = (if \<not> ecompress e then None else enames e lower_wire)"

text \<open>\<open>entry(..).or_insert(..)\<close>: the first offset recorded for a name is kept.\<close>

definition enc_remember_name :: "byte list \<Rightarrow> nat \<Rightarrow> encoder \<Rightarrow> encoder" where
  "enc_remember_name lower_wire offset e =
     (if ecompress e \<and> offset \<le> MAX_COMPRESS_OFFSET then
        (case enames e lower_wire of
           None \<Rightarrow> e\<lparr>enames := (enames e)(lower_wire \<mapsto> of_nat offset)\<rparr>
         | Some _ \<Rightarrow> e)
      else e)"

text \<open>Returns the placeholder's offset with the new encoder.\<close>

definition enc_reserve_u16 :: "encoder \<Rightarrow> nat \<times> encoder" where
  "enc_reserve_u16 e = (length (ebuf e), e\<lparr>ebuf := ebuf e @ [0, 0]\<rparr>)"

text \<open>\<open>self.buf[at] = b\<close> panics out of range; \<open>buf.len() - at - 2\<close> underflows if nothing was reserved.\<close>

definition enc_patch_u16 :: "nat \<Rightarrow> u16 \<Rightarrow> encoder \<Rightarrow> encoder option" where
  "enc_patch_u16 at v e =
     (if at + 1 < length (ebuf e)
      then Some (e\<lparr>ebuf := (ebuf e)[at := ucast (drop_bit 8 v), at + 1 := ucast v]\<rparr>)
      else None)"

definition enc_patch_u16_len :: "nat \<Rightarrow> encoder \<Rightarrow> encoder option" where
  "enc_patch_u16_len at e =
     (if at + 2 \<le> length (ebuf e)
      then enc_patch_u16 at (of_nat (length (ebuf e) - at - 2)) e
      else None)"

section \<open>The contract of a parser\<close>

text \<open>
  What every parsing step promises: it never changes the buffer, it consumes at least \<open>width\<close>
  octets, and it never moves the cursor past the end of the buffer.
\<close>

locale wire_parser =
  fixes parse :: "'a parser" and width :: nat
  assumes keeps_buf: "parse d = Inr (a, d') \<Longrightarrow> dbuf d' = dbuf d"
    and advances: "parse d = Inr (a, d') \<Longrightarrow> dpos d + width \<le> dpos d'"
    and in_bounds: "parse d = Inr (a, d') \<Longrightarrow> dpos d \<le> length (dbuf d) \<Longrightarrow> dpos d' \<le> length (dbuf d)"

text \<open>Reading \<open>n\<close> entries one after the other, as the section loops of \<open>Message::parse\<close> do.\<close>

fun parse_n :: "'a parser \<Rightarrow> nat \<Rightarrow> 'a list parser" where
  "parse_n p 0 = preturn []"
| "parse_n p (Suc n) = pbind p (\<lambda>a. pbind (parse_n p n) (\<lambda>as. preturn (a # as)))"

context wire_parser
begin

lemma parse_n_keeps:
  "parse_n parse n d = Inr (as, d') \<Longrightarrow>
     dbuf d' = dbuf d \<and> length as = n \<and> dpos d + n * width \<le> dpos d' \<and>
     (dpos d \<le> length (dbuf d) \<longrightarrow> dpos d' \<le> length (dbuf d))"
proof (induction n arbitrary: as d)
  case 0
  then show ?case by (simp add: preturn_def)
next
  case (Suc n)
  from Suc.prems obtain a d1 as' where
    1: "parse d = Inr (a, d1)" and 2: "parse_n parse n d1 = Inr (as', d')" and 3: "as = a # as'"
    by (auto simp: preturn_def elim!: pbind_eq_InrE)
  from Suc.IH [OF 2] keeps_buf [OF 1] advances [OF 1] in_bounds [OF 1] 3 show ?case
    by simp
qed

text \<open>A count the buffer cannot hold is an error: the loop does no more rounds than there are octets.\<close>

lemma parse_n_too_many:
  assumes "dpos d \<le> length (dbuf d)" "length (dbuf d) < dpos d + n * width"
  shows "\<exists>e. parse_n parse n d = Inl e"
proof (cases "parse_n parse n d")
  case (Inr r)
  then obtain as d' where "parse_n parse n d = Inr (as, d')" by (cases r) auto
  from parse_n_keeps [OF this] assms show ?thesis by simp
qed auto

end

lemma wire_parser_pbind:
  assumes "wire_parser p w" "\<And>a. wire_parser (f a) v"
  shows "wire_parser (pbind p f) (w + v)"
proof
  fix d b d''
  assume "pbind p f d = Inr (b, d'')"
  then obtain a d' where 1: "p d = Inr (a, d')" and 2: "f a d' = Inr (b, d'')"
    by (rule pbind_eq_InrE)
  note p = wire_parser.keeps_buf [OF assms(1) 1] wire_parser.advances [OF assms(1) 1]
    wire_parser.in_bounds [OF assms(1) 1]
  note f = wire_parser.keeps_buf [OF assms(2) 2] wire_parser.advances [OF assms(2) 2]
    wire_parser.in_bounds [OF assms(2) 2]
  show "dbuf d'' = dbuf d" "dpos d + (w + v) \<le> dpos d''" using p f by auto
  show "dpos d'' \<le> length (dbuf d)" if "dpos d \<le> length (dbuf d)" using that p f by auto
qed

lemma wire_parser_preturn: "wire_parser (preturn a) 0"
  by unfold_locales (auto simp: preturn_def)

lemma wire_parser_map:
  "wire_parser p w \<Longrightarrow> wire_parser (pbind p (\<lambda>a. preturn (f a))) w"
  using wire_parser_pbind [OF _ wire_parser_preturn] by fastforce

lemma wire_parser_weaken: "wire_parser p w \<Longrightarrow> v \<le> w \<Longrightarrow> wire_parser p v"
  by (simp add: wire_parser_def) (meson add_left_mono le_trans)

interpretation u8_parser: wire_parser dec_u8 1
  by unfold_locales (auto simp: dec_u8_def index_def split: if_splits)

interpretation u16_parser: wire_parser dec_u16 2
  using wire_parser_pbind [OF u8_parser.wire_parser_axioms
      wire_parser_map [OF u8_parser.wire_parser_axioms]]
  by (simp add: dec_u16_def numeral_2_eq_2)

interpretation u32_parser: wire_parser dec_u32 4
  using wire_parser_pbind [OF u16_parser.wire_parser_axioms
      wire_parser_map [OF u16_parser.wire_parser_axioms]]
  by (simp add: dec_u32_def)

interpretation slice_parser: wire_parser "dec_slice n" n for n
  by unfold_locales (auto simp: dec_slice_def subslice_def split: if_splits)

section \<open>Reading back what was written\<close>

text \<open>The octets \<open>bs\<close> stand in \<open>buf\<close> at offset \<open>pos\<close>.\<close>

definition bytes_at :: "byte list \<Rightarrow> nat \<Rightarrow> byte list \<Rightarrow> bool" where
  "bytes_at buf pos bs \<longleftrightarrow> pos + length bs \<le> length buf \<and> take (length bs) (drop pos buf) = bs"

lemma bytes_at_append [simp]:
  "bytes_at buf pos (xs @ ys) \<longleftrightarrow> bytes_at buf pos xs \<and> bytes_at buf (pos + length xs) ys"
  by (auto simp: bytes_at_def take_add add.commute append_eq_append_conv)

lemma bytes_at_Cons:
  "bytes_at buf pos (x # xs) \<longleftrightarrow> pos < length buf \<and> buf ! pos = x \<and> bytes_at buf (Suc pos) xs"
  by (auto simp: bytes_at_def Cons_nth_drop_Suc [symmetric])

lemma bytes_at_Nil [simp]: "bytes_at buf pos [] \<longleftrightarrow> pos \<le> length buf"
  by (auto simp: bytes_at_def)

lemma bytes_at_here [simp]: "bytes_at (pre @ bs @ rest) (length pre) bs"
  by (simp add: bytes_at_def)

lemma bytes_at_extend: "bytes_at buf pos bs \<Longrightarrow> bytes_at (buf @ rest) pos bs"
  by (simp add: bytes_at_def)

text \<open>One step of a parser, for the proofs that read a written layout field by field.\<close>

lemma reads_bind:
  "p \<lparr>dbuf = buf, dpos = pos\<rparr> = Inr (a, \<lparr>dbuf = buf, dpos = pos1\<rparr>) \<Longrightarrow>
     f a \<lparr>dbuf = buf, dpos = pos1\<rparr> = r \<Longrightarrow> pbind p f \<lparr>dbuf = buf, dpos = pos\<rparr> = r"
  by (simp add: pbind_def)

lemma dec_u8_at:
  "bytes_at buf pos [b] \<Longrightarrow> dec_u8 \<lparr>dbuf = buf, dpos = pos\<rparr> = Inr (b, \<lparr>dbuf = buf, dpos = pos + 1\<rparr>)"
  by (simp add: dec_u8_def index_def bytes_at_Cons)

lemma dec_u16_at:
  "bytes_at buf pos (u16_to_be v) \<Longrightarrow>
     dec_u16 \<lparr>dbuf = buf, dpos = pos\<rparr> = Inr (v, \<lparr>dbuf = buf, dpos = pos + 2\<rparr>)"
  by (simp add: dec_u16_def u16_to_be_def bytes_at_Cons pbind_def preturn_def dec_u8_def index_def
      be_simps)

lemma dec_u32_at:
  "bytes_at buf pos (u32_to_be v) \<Longrightarrow>
     dec_u32 \<lparr>dbuf = buf, dpos = pos\<rparr> = Inr (v, \<lparr>dbuf = buf, dpos = pos + 4\<rparr>)"
  by (simp add: dec_u32_def dec_u16_def u32_to_be_def bytes_at_Cons pbind_def preturn_def
      dec_u8_def index_def be_simps)

lemma dec_slice_at:
  "bytes_at buf pos bs \<Longrightarrow> n = length bs \<Longrightarrow>
     dec_slice n \<lparr>dbuf = buf, dpos = pos\<rparr> = Inr (bs, \<lparr>dbuf = buf, dpos = pos + n\<rparr>)"
  by (simp add: dec_slice_def subslice_def bytes_at_def)

end
