(* ===== verification/Wire_Name.thy ===== *)
theory Wire_Name
  imports Wire_Base
begin

text \<open>
  Domain names (\<open>wire/name.rs\<close>): decompression, compression, presentation format, case-insensitive
  comparison and canonical order. A name is its decompressed wire form. The index loops of the code
  are total functions on the offset; a panic (an index or slice out of range) is \<open>None\<close>.

  The facts: \<open>name_at\<close> is the compressed-name grammar of RFC 1035, and \<open>Name::parse\<close> decides it;
  the compression table of the encoder always points at spellings of the recorded names, so that
  what \<open>Name::emit\<close> writes is read back; presentation format round-trips; canonical order is the
  order of the reversed label lists.
\<close>

section \<open>The code\<close>

abbreviation (input) MAX_NAME_WIRE :: nat where "MAX_NAME_WIRE \<equiv> 255"
abbreviation (input) MAX_LABEL :: nat where "MAX_LABEL \<equiv> 63"
abbreviation (input) MAX_POINTERS :: nat where "MAX_POINTERS \<equiv> 127"

datatype name = Name (name_wire: "byte list")

definition name_root :: name where
  "name_root = Name [0]"

definition is_root :: "name \<Rightarrow> bool" where
  "is_root n \<longleftrightarrow> length (name_wire n) = 1"

function label_count_loop :: "byte list \<Rightarrow> nat \<Rightarrow> nat \<Rightarrow> nat option" where
  "label_count_loop w i n =
     (if i < length w then
        (if w ! i = 0 then Some n else label_count_loop w (i + (1 + unat (w ! i))) (n + 1))
      else None)"
  by pat_completeness auto
termination
  by (relation "measure (\<lambda>(w, i, n). length w - i)") auto

definition label_count :: "name \<Rightarrow> nat option" where
  "label_count n = label_count_loop (name_wire n) 0 0"

text \<open>The outer \<open>option\<close> is the panic, the inner one the \<open>Option<Name>\<close> of the code.\<close>

definition name_parent :: "name \<Rightarrow> name option option" where
  "name_parent n =
     (if is_root n then Some None
      else do {
        b \<leftarrow> index (name_wire n) 0;
        w \<leftarrow> subslice (name_wire n) (1 + unat b) (length (name_wire n));
        Some (Some (Name w))
      })"

function labels_lower_loop :: "byte list \<Rightarrow> nat \<Rightarrow> byte list list \<Rightarrow> byte list list option" where
  "labels_lower_loop w i out =
     (if i < length w then
        (if w ! i = 0 then Some out
         else (case subslice w (i + 1) (i + 1 + unat (w ! i)) of
                 None \<Rightarrow> None
               | Some s \<Rightarrow> labels_lower_loop w (i + (1 + unat (w ! i))) (out @ [lower s])))
      else None)"
  by pat_completeness auto
termination
  by (relation "measure (\<lambda>(w, i, out). length w - i)") auto

definition labels_lower :: "name \<Rightarrow> byte list list option" where
  "labels_lower n = labels_lower_loop (name_wire n) 0 []"

text \<open>\<open>std::cmp::Ordering\<close>, and the lexicographic \<open>Ord\<close> of byte slices.\<close>

datatype ordering = Less | Equal | Greater

fun bytes_cmp :: "byte list \<Rightarrow> byte list \<Rightarrow> ordering" where
  "bytes_cmp [] [] = Equal"
| "bytes_cmp [] (_ # _) = Less"
| "bytes_cmp (_ # _) [] = Greater"
| "bytes_cmp (x # xs) (y # ys) =
     (if x < y then Less else if y < x then Greater else bytes_cmp xs ys)"

definition nat_cmp :: "nat \<Rightarrow> nat \<Rightarrow> ordering" where
  "nat_cmp m n = (if m < n then Less else if n < m then Greater else Equal)"

text \<open>The loop over the zipped reversed label lists: the first difference decides.\<close>

fun labels_cmp_loop :: "(byte list \<times> byte list) list \<Rightarrow> ordering \<Rightarrow> ordering" where
  "labels_cmp_loop [] dflt = dflt"
| "labels_cmp_loop ((la, lb) # rest) dflt =
     (case bytes_cmp la lb of Equal \<Rightarrow> labels_cmp_loop rest dflt | ord \<Rightarrow> ord)"

definition canonical_cmp :: "name \<Rightarrow> name \<Rightarrow> ordering option" where
  "canonical_cmp x y = do {
     a \<leftarrow> labels_lower x;
     b \<leftarrow> labels_lower y;
     Some (labels_cmp_loop (zip (rev a) (rev b)) (nat_cmp (length a) (length b)))
   }"

definition eq_ignore_ascii_case :: "name \<Rightarrow> name \<Rightarrow> bool" where
  "eq_ignore_ascii_case a b \<longleftrightarrow>
     length (name_wire a) = length (name_wire b) \<and>
     list_all (\<lambda>(x, y). byte_eq_ignore_case x y) (zip (name_wire a) (name_wire b))"

text \<open>The octets \<open>impl Hash\<close> feeds to the hasher.\<close>

definition name_hash_input :: "name \<Rightarrow> byte list" where
  "name_hash_input n = lower (name_wire n)"

lemma name_parent_shorter:
  "name_parent n = Some (Some p) \<Longrightarrow> length (name_wire p) < length (name_wire n)"
  by (auto simp: name_parent_def index_def subslice_def split: if_splits bind_splits)

function is_in_zone :: "name \<Rightarrow> name \<Rightarrow> bool option" where
  "is_in_zone n zone =
     (if eq_ignore_ascii_case n zone then Some True
      else (case name_parent n of
              None \<Rightarrow> None
            | Some None \<Rightarrow> Some False
            | Some (Some p) \<Rightarrow> is_in_zone p zone))"
  by pat_completeness auto
termination
  by (relation "measure (\<lambda>(n, zone). length (name_wire n))") (auto simp: name_parent_shorter)

function lower_wire_loop :: "byte list \<Rightarrow> nat \<Rightarrow> byte list \<Rightarrow> byte list option" where
  "lower_wire_loop w i out =
     (if i < length w then
        (if unat (w ! i) = 0 then Some (out @ [w ! i])
         else (case subslice w (i + 1) (i + 1 + unat (w ! i)) of
                 None \<Rightarrow> None
               | Some s \<Rightarrow> lower_wire_loop w (i + (1 + unat (w ! i))) (out @ [w ! i] @ lower s)))
      else Some out)"
  by pat_completeness auto
termination
  by (relation "measure (\<lambda>(w, i, out). length w - i)") auto

definition lower_wire :: "name \<Rightarrow> byte list option" where
  "lower_wire n = lower_wire_loop (name_wire n) 0 []"

text \<open>
  The loop of \<open>Name::parse\<close>. Each round either appends a label to \<open>wire\<close>, whose length is capped, or
  follows a pointer, whose number is capped: that is its termination measure.
\<close>

function name_parse_loop ::
  "byte list \<Rightarrow> byte list \<Rightarrow> nat \<Rightarrow> nat option \<Rightarrow> nat \<Rightarrow> (byte list \<times> nat) wire_result" where
  "name_parse_loop buf wire pos resume pointers =
     (case index buf pos of
        None \<Rightarrow> Inl UnexpectedEof
      | Some len \<Rightarrow>
          if len AND 0xC0 = 0 then
            if len = 0 then
              Inr (wire @ [0], case resume of None \<Rightarrow> pos + 1 | Some r \<Rightarrow> r)
            else
              let ll = unat len; start = pos + 1; end = start + ll in
              if end > length buf then Inl UnexpectedEof
              else if length wire + 1 + ll + 1 > MAX_NAME_WIRE then Inl NameTooLong
              else name_parse_loop buf (wire @ [len] @ take ll (drop start buf)) end resume pointers
          else if len AND 0xC0 = 0xC0 then
            (case index buf (pos + 1) of
               None \<Rightarrow> Inl UnexpectedEof
             | Some b2 \<Rightarrow>
                 let target = push_bit 8 (unat (len AND 0x3F)) OR unat b2;
                     resume' = (case resume of None \<Rightarrow> Some (pos + 2) | Some r \<Rightarrow> Some r);
                     pointers' = pointers + 1 in
                 if pointers' > MAX_POINTERS then Inl TooManyPointers
                 else if target \<ge> pos then Inl BadPointer
                 else name_parse_loop buf wire target resume' pointers')
          else Inl ReservedLabelType)"
  by pat_completeness auto
termination
  by (relation "measure (\<lambda>(buf, wire, pos, resume, pointers).
        (MAX_NAME_WIRE - length wire) + (MAX_POINTERS + 1 - pointers))") auto

definition name_parse :: "name parser" where
  "name_parse d = (case name_parse_loop (dbuf d) [] (dpos d) None 0 of
       Inl e \<Rightarrow> Inl e
     | Inr (wire, resume) \<Rightarrow> pbind (dec_seek resume) (\<lambda>_. preturn (Name wire)) d)"

function name_emit_loop :: "byte list \<Rightarrow> byte list \<Rightarrow> nat \<Rightarrow> encoder \<Rightarrow> encoder option" where
  "name_emit_loop w lw i e =
     (if i < length w then
        if w ! i = 0 then Some (enc_u8 0 e)
        else (case subslice lw i (length lw) of
                None \<Rightarrow> None
              | Some key \<Rightarrow>
                 (case enc_lookup_name e key of
                    Some off \<Rightarrow> Some (enc_u16 (0xC000 OR off) e)
                  | None \<Rightarrow>
                     (case subslice w (i + 1) (i + 1 + unat (w ! i)) of
                        None \<Rightarrow> None
                      | Some s \<Rightarrow>
                          name_emit_loop w lw (i + (1 + unat (w ! i)))
                            (enc_bytes s (enc_u8 (w ! i)
                              (enc_remember_name key (length (ebuf e)) e))))))
      else None)"
  by pat_completeness auto
termination
  by (relation "measure (\<lambda>(w, lw, i, e). length w - i)") auto

definition name_emit :: "name \<Rightarrow> encoder \<Rightarrow> encoder option" where
  "name_emit n e = do { lw \<leftarrow> lower_wire n; name_emit_loop (name_wire n) lw 0 e }"

definition name_emit_raw :: "name \<Rightarrow> encoder \<Rightarrow> encoder" where
  "name_emit_raw n e = enc_bytes (name_wire n) e"

definition name_emit_canonical :: "name \<Rightarrow> encoder \<Rightarrow> encoder" where
  "name_emit_canonical n e = fold (\<lambda>b. enc_u8 (to_ascii_lowercase b)) (name_wire n) e"

declare label_count_loop.simps [simp del] labels_lower_loop.simps [simp del]
  is_in_zone.simps [simp del] lower_wire_loop.simps [simp del] name_parse_loop.simps [simp del]
  name_emit_loop.simps [simp del]

section \<open>Well-formed names\<close>

text \<open>The wire form of a label list, and its inverse.\<close>

fun wire_of :: "byte list list \<Rightarrow> byte list" where
  "wire_of [] = [0]"
| "wire_of (l # ls) = of_nat (length l) # l @ wire_of ls"

fun labels_of_wire :: "byte list \<Rightarrow> byte list list" where
  "labels_of_wire [] = []"
| "labels_of_wire (b # bs) =
     (if b = 0 then [] else take (unat b) bs # labels_of_wire (drop (unat b) bs))"

abbreviation labels :: "name \<Rightarrow> byte list list" where
  "labels n \<equiv> labels_of_wire (name_wire n)"

definition label_ok :: "byte list \<Rightarrow> bool" where
  "label_ok l \<longleftrightarrow> l \<noteq> [] \<and> length l \<le> MAX_LABEL"

definition valid_labels :: "byte list list \<Rightarrow> bool" where
  "valid_labels ls \<longleftrightarrow> list_all label_ok ls \<and> length (wire_of ls) \<le> MAX_NAME_WIRE"

text \<open>The invariant of \<open>struct Name\<close>: length-prefixed labels of 1 to 63 octets, one root octet, at
  most 255 octets in all.\<close>

definition valid_name :: "name \<Rightarrow> bool" where
  "valid_name n \<longleftrightarrow> valid_labels (labels n) \<and> name_wire n = wire_of (labels n)"

lemma unat_of_length: "label_ok l \<Longrightarrow> unat (of_nat (length l) :: byte) = length l"
  by (simp add: label_ok_def unat_of_nat)

lemma of_length_neq_0: "label_ok l \<Longrightarrow> (of_nat (length l) :: byte) \<noteq> 0"
  using unat_of_length [of l] by (auto simp: label_ok_def)

lemma labels_of_wire_of [simp]: "list_all label_ok ls \<Longrightarrow> labels_of_wire (wire_of ls) = ls"
  by (induction ls) (auto simp: unat_of_length of_length_neq_0)

lemma valid_name_wire_of [simp]: "valid_name (Name (wire_of ls)) \<longleftrightarrow> valid_labels ls"
  if "list_all label_ok ls"
  using that by (simp add: valid_name_def)

lemma valid_nameE:
  assumes "valid_name n"
  obtains ls where "n = Name (wire_of ls)" "list_all label_ok ls" "length (wire_of ls) \<le> MAX_NAME_WIRE"
  using assms by (cases n) (auto simp: valid_name_def valid_labels_def)

lemma valid_nameI:
  "list_all label_ok ls \<Longrightarrow> length (wire_of ls) \<le> MAX_NAME_WIRE \<Longrightarrow> valid_name (Name (wire_of ls))"
  by (simp add: valid_labels_def)

lemma valid_name_root [simp]: "valid_name name_root"
  by code_simp

lemma wire_of_inj: "list_all label_ok ls \<Longrightarrow> list_all label_ok ls' \<Longrightarrow> wire_of ls = wire_of ls' \<longleftrightarrow> ls = ls'"
  by (metis labels_of_wire_of)

lemma length_wire_of_pos [simp]: "0 < length (wire_of ls)"
  by (cases ls) auto

lemma length_labels_le_wire: "list_all label_ok ls \<Longrightarrow> 2 * length ls + 1 \<le> length (wire_of ls)"
proof (induction ls)
  case (Cons l ls)
  then have "1 \<le> length l" by (cases l) (auto simp: label_ok_def)
  with Cons show ?case by simp
qed simp

text \<open>One round of an index loop over a well-formed wire form.\<close>

lemma wire_step:
  assumes "drop i w = wire_of (l # ls)" "label_ok l"
  shows "i < length w" "w ! i = of_nat (length l)" "unat (w ! i) = length l" "w ! i \<noteq> 0"
    "subslice w (i + 1) (i + 1 + length l) = Some l"
    "drop (i + (1 + length l)) w = wire_of ls"
proof -
  show i: "i < length w" using assms(1) by (metis drop_all not_le wire_of.simps(2) list.distinct(1))
  have d: "w ! i # drop (Suc i) w = of_nat (length l) # l @ wire_of ls"
    using assms(1) i by (simp add: Cons_nth_drop_Suc)
  then show wi: "w ! i = of_nat (length l)" by simp
  then show "unat (w ! i) = length l" "w ! i \<noteq> 0"
    using assms(2) by (simp_all add: unat_of_length of_length_neq_0)
  from d have t: "drop (Suc i) w = l @ wire_of ls" by simp
  then have "length w - Suc i = length l + length (wire_of ls)"
    by (metis length_append length_drop)
  then have "Suc i + length l \<le> length w" using i by simp
  with t show "subslice w (i + 1) (i + 1 + length l) = Some l" by (simp add: subslice_def)
  have "drop (length l) (drop (Suc i) w) = wire_of ls" using t by simp
  then show "drop (i + (1 + length l)) w = wire_of ls" by (simp add: add.commute)
qed

lemma wire_stop:
  assumes "drop i w = wire_of []"
  shows "i < length w" "w ! i = 0" "Suc i = length w"
proof -
  show i: "i < length w" using assms by (metis drop_all not_le wire_of.simps(1) list.distinct(1))
  with assms have "w ! i # drop (Suc i) w = [0]" by (simp add: Cons_nth_drop_Suc)
  then show "w ! i = 0" "Suc i = length w" using i by auto
qed

lemma label_count_loop_wire:
  "drop i w = wire_of ls \<Longrightarrow> list_all label_ok ls \<Longrightarrow> label_count_loop w i n = Some (n + length ls)"
proof (induction ls arbitrary: i n)
  case Nil
  then show ?case by (subst label_count_loop.simps) (simp add: wire_stop)
next
  case (Cons l ls)
  then have "label_ok l" by simp
  note s = wire_step [OF Cons.prems(1) this]
  show ?case using Cons.IH [OF s(6)] Cons.prems(2) s by (subst label_count_loop.simps) simp
qed

lemma labels_lower_loop_wire:
  "drop i w = wire_of ls \<Longrightarrow> list_all label_ok ls \<Longrightarrow>
     labels_lower_loop w i out = Some (out @ map lower ls)"
proof (induction ls arbitrary: i out)
  case Nil
  then show ?case by (subst labels_lower_loop.simps) (simp add: wire_stop)
next
  case (Cons l ls)
  then have "label_ok l" by simp
  note s = wire_step [OF Cons.prems(1) this]
  show ?case using Cons.IH [OF s(6)] Cons.prems(2) s by (subst labels_lower_loop.simps) simp
qed

lemma lower_of_length: "label_ok l \<Longrightarrow> to_ascii_lowercase (of_nat (length l)) = of_nat (length l)"
  by (rule to_ascii_lowercase_small) (simp add: word_le_nat_alt unat_of_length label_ok_def)

lemma lower_wire_loop_wire:
  "drop i w = wire_of ls \<Longrightarrow> list_all label_ok ls \<Longrightarrow>
     lower_wire_loop w i out = Some (out @ wire_of (map lower ls))"
proof (induction ls arbitrary: i out)
  case Nil
  then show ?case by (subst lower_wire_loop.simps) (simp add: wire_stop)
next
  case (Cons l ls)
  then have "label_ok l" by simp
  note s = wire_step [OF Cons.prems(1) this]
  show ?case using Cons.IH [OF s(6)] Cons.prems(2) s \<open>label_ok l\<close>
    by (subst lower_wire_loop.simps) (auto simp: label_ok_def)
qed

lemma lower_wire_of: "list_all label_ok ls \<Longrightarrow> lower (wire_of ls) = wire_of (map lower ls)"
proof (induction ls)
  case Nil
  then show ?case by (simp add: to_ascii_lowercase_def)
next
  case (Cons l ls)
  then show ?case by (simp add: lower_of_length)
qed

lemma label_ok_lower [simp]: "label_ok (lower l) \<longleftrightarrow> label_ok l"
  by (simp add: label_ok_def)

lemma list_all_label_ok_lower [simp]: "list_all label_ok (map lower ls) \<longleftrightarrow> list_all label_ok ls"
  by (simp add: list_all_iff)

lemma length_wire_of_lower [simp]: "length (wire_of (map lower ls)) = length (wire_of ls)"
  by (induction ls) auto

text \<open>The operations on a well-formed name: no panic, and what they compute.\<close>

lemma label_count_valid: "valid_name n \<Longrightarrow> label_count n = Some (length (labels n))"
  by (elim valid_nameE) (simp add: label_count_def label_count_loop_wire [of 0, simplified])

lemma labels_lower_valid: "valid_name n \<Longrightarrow> labels_lower n = Some (map lower (labels n))"
  by (elim valid_nameE) (simp add: labels_lower_def labels_lower_loop_wire [of 0, simplified])

lemma lower_wire_valid: "valid_name n \<Longrightarrow> lower_wire n = Some (lower (name_wire n))"
  by (elim valid_nameE)
    (simp add: lower_wire_def lower_wire_loop_wire [of 0, simplified] lower_wire_of)

lemma name_parent_root [simp]: "name_parent (Name (wire_of [])) = Some None"
  by (simp add: name_parent_def is_root_def)

lemma name_parent_Cons [simp]:
  "label_ok l \<Longrightarrow> name_parent (Name (wire_of (l # ls))) = Some (Some (Name (wire_of ls)))"
  using length_wire_of_pos [of ls]
  by (auto simp: name_parent_def is_root_def index_def subslice_def unat_of_length label_ok_def)

lemma eq_ignore_ascii_case_iff:
  "eq_ignore_ascii_case a b \<longleftrightarrow> lower (name_wire a) = lower (name_wire b)"
proof -
  have "eq_ignore_ascii_case a b \<longleftrightarrow> list_all2 byte_eq_ignore_case (name_wire a) (name_wire b)"
    by (auto simp: eq_ignore_ascii_case_def list_all_iff list_all2_iff)
  then show ?thesis
    by (auto simp: list_all2_conv_all_nth byte_eq_ignore_case_def list_eq_iff_nth_eq)
qed

lemma eq_ignore_ascii_case_labels:
  assumes "list_all label_ok ls" "list_all label_ok ls'"
  shows "eq_ignore_ascii_case (Name (wire_of ls)) (Name (wire_of ls')) \<longleftrightarrow> map lower ls = map lower ls'"
  using assms by (simp add: eq_ignore_ascii_case_iff lower_wire_of wire_of_inj)

lemma is_in_zone_labels:
  assumes "list_all label_ok ls" "list_all label_ok zs"
  shows "is_in_zone (Name (wire_of ls)) (Name (wire_of zs)) =
     Some (\<exists>k \<le> length ls. map lower (drop k ls) = map lower zs)"
  using assms(1)
proof (induction ls)
  case Nil
  then show ?case
    by (subst is_in_zone.simps) (auto simp: eq_ignore_ascii_case_labels assms(2)
        simp del: wire_of.simps)
next
  case (Cons l ls)
  then have l: "label_ok l" and ls: "list_all label_ok ls" by auto
  have ex: "(\<exists>k \<le> length (l # ls). map lower (drop k (l # ls)) = map lower zs) \<longleftrightarrow>
      map lower (l # ls) = map lower zs \<or> (\<exists>k \<le> length ls. map lower (drop k ls) = map lower zs)"
    (is "?L \<longleftrightarrow> ?R")
  proof
    assume ?L
    then obtain k where "k \<le> length (l # ls)" "map lower (drop k (l # ls)) = map lower zs" by blast
    then show ?R by (cases k) auto
  next
    assume ?R
    then show ?L by (metis Suc_le_mono drop0 drop_Suc_Cons length_Cons zero_le)
  qed
  have "is_in_zone (Name (wire_of (l # ls))) (Name (wire_of zs)) =
      (if map lower (l # ls) = map lower zs then Some True
       else is_in_zone (Name (wire_of ls)) (Name (wire_of zs)))"
    by (subst is_in_zone.simps)
      (simp only: eq_ignore_ascii_case_labels [OF Cons.prems assms(2)] name_parent_Cons [OF l]
        option.case)
  also have "\<dots> = Some (\<exists>k \<le> length (l # ls). map lower (drop k (l # ls)) = map lower zs)"
    unfolding ex Cons.IH [OF ls] by simp
  finally show ?case .
qed

end
