(* ===== verification/Name_Grammar.thy ===== *)
theory Name_Grammar
  imports Wire_Name
begin

text \<open>
  The compressed-name grammar of RFC 1035, sections 3.1 and 4.1.4, as a relation, and the proof that
  \<open>Name::parse\<close> decides it within its three bounds.
\<close>

section \<open>The grammar\<close>

text \<open>
  \<open>name_at buf pos ls k e\<close>: at offset \<open>pos\<close> of \<open>buf\<close> stands a spelling of the labels \<open>ls\<close> that
  follows \<open>k\<close> compression pointers, each strictly backward, and whose part at \<open>pos\<close> ends at \<open>e\<close>.
\<close>

inductive name_at :: "byte list \<Rightarrow> nat \<Rightarrow> byte list list \<Rightarrow> nat \<Rightarrow> nat \<Rightarrow> bool" where
  at_root: "bytes_at buf pos [0] \<Longrightarrow> name_at buf pos [] 0 (pos + 1)"
| at_label: "bytes_at buf pos (of_nat (length l) # l) \<Longrightarrow> label_ok l \<Longrightarrow>
     name_at buf (pos + (1 + length l)) ls k e \<Longrightarrow> name_at buf pos (l # ls) k e"
| at_pointer: "bytes_at buf pos (u16_to_be (0xC000 OR of_nat target)) \<Longrightarrow> target < pos \<Longrightarrow>
     target \<le> MAX_COMPRESS_OFFSET \<Longrightarrow> name_at buf target ls k e \<Longrightarrow> name_at buf pos ls (Suc k) (pos + 2)"

lemma name_at_labels_ok: "name_at buf pos ls k e \<Longrightarrow> list_all label_ok ls"
  by (induction rule: name_at.induct) auto

lemma name_at_bounds: "name_at buf pos ls k e \<Longrightarrow> pos < e \<and> e \<le> length buf"
  by (induction rule: name_at.induct) (auto simp: bytes_at_def)

lemma name_at_extend: "name_at buf pos ls k e \<Longrightarrow> name_at (buf @ rest) pos ls k e"
  by (induction rule: name_at.induct) (blast intro: name_at.intros bytes_at_extend)+

section \<open>Length octets and pointers\<close>

lemma octet_masks: "(0xC0 :: byte) = push_bit 6 (mask 2)" "(0x3F :: byte) = mask 6"
  "(0xC000 :: u16) = push_bit 14 (mask 2)"
  by (simp_all add: mask_eq_exp_minus_1)

lemma label_octet: "(len :: byte) AND 0xC0 = 0 \<longleftrightarrow> unat len \<le> 63"
proof -
  have "len AND 0xC0 = 0 \<longleftrightarrow> (\<forall>n. 6 \<le> n \<and> n < 8 \<longrightarrow> \<not> bit len n)"
    unfolding octet_masks bit_eq_iff by (auto simp: bit_simps)
  also have "\<dots> \<longleftrightarrow> take_bit 6 len = len"
    by (auto simp: bit_eq_iff bit_simps dest: bit_imp_le_length) (meson bit_imp_le_length not_le)+
  also have "\<dots> \<longleftrightarrow> take_bit 6 (unat len) = unat len"
    by (metis (no_types) unsigned_take_bit_eq word_unat_eq_iff)
  also have "\<dots> \<longleftrightarrow> unat len \<le> 63"
    by (auto simp: take_bit_nat_eq_self_iff)
  finally show ?thesis .
qed

lemma pointer_octets:
  assumes "t \<le> MAX_COMPRESS_OFFSET" "u16_to_be (0xC000 OR of_nat t) = [h, l]"
  shows "h AND 0xC0 = 0xC0" "push_bit 8 (unat (h AND 0x3F)) OR unat l = t"
proof -
  have h: "h = ucast (drop_bit 8 (0xC000 OR of_nat t :: u16))" and l: "l = ucast (0xC000 OR of_nat t :: u16)"
    using assms(2) by (auto simp: u16_to_be_def)
  have tb: "\<not> bit t n" if "14 \<le> n" for n
  proof -
    have "take_bit 14 t = t" using assms(1) by (simp add: take_bit_nat_eq_self_iff)
    then show ?thesis by (metis bit_take_bit_iff not_le that)
  qed
  show "h AND 0xC0 = 0xC0"
    unfolding h octet_masks by (rule bit_word_eqI) (auto simp: bit_simps)
  show "push_bit 8 (unat (h AND 0x3F)) OR unat l = t"
    unfolding h l octet_masks
    by (rule bit_eqI) (auto simp: bit_simps tb not_less intro: ccontr)
qed
lemma pointer_octets_conv:
  fixes h l :: byte
  assumes "h AND 0xC0 = 0xC0"
  shows "push_bit 8 (unat (h AND 0x3F)) OR unat l \<le> MAX_COMPRESS_OFFSET" (is ?A)
   and "u16_to_be (0xC000 OR of_nat (push_bit 8 (unat (h AND 0x3F)) OR unat l)) = [h, l]" (is ?B)
proof -
  let ?t = "push_bit 8 (unat (h AND 0x3F)) OR unat l"
  have "take_bit 14 ?t = ?t"
    unfolding octet_masks by (rule bit_eqI) (auto simp: bit_simps dest: bit_imp_le_length)
  then have "?t < 2 ^ 14" by (simp only: take_bit_nat_eq_self_iff)
  then show ?A by simp
  have hb: "bit h n" if "6 \<le> n" "n < 8" for n
    using that assms unfolding octet_masks bit_eq_iff by (auto simp: bit_simps)
  have "h = ucast (drop_bit 8 (0xC000 OR of_nat ?t :: u16))"
    unfolding octet_masks by (rule bit_word_eqI) (auto simp: bit_simps hb dest: bit_imp_le_length)
  moreover have "l = ucast (0xC000 OR of_nat ?t :: u16)"
    unfolding octet_masks by (rule bit_word_eqI) (auto simp: bit_simps)
  ultimately show ?B by (simp add: u16_to_be_def)
qed
section \<open>The parser decides the grammar\<close>

lemma name_parse_loop_complete:
  assumes "name_at buf pos ls k e" "pointers + k \<le> MAX_POINTERS"
    "length wire + length (wire_of ls) \<le> MAX_NAME_WIRE"
  shows "name_parse_loop buf wire pos resume pointers =
    Inr (wire @ wire_of ls, case resume of None \<Rightarrow> e | Some r \<Rightarrow> r)"
  using assms
proof (induction arbitrary: wire resume pointers rule: name_at.induct)
  case (at_root buf pos)
  then show ?case
    by (subst name_parse_loop.simps) (auto simp: bytes_at_Cons index_def)
next
  case (at_label buf pos l ls k e)
  let ?len = "of_nat (length l) :: byte"
  have len: "unat ?len = length l" "?len \<noteq> 0" "?len AND 0xC0 = 0"
    using at_label.hyps(2) by (auto simp: unat_of_length of_length_neq_0 label_octet label_ok_def)
  have b: "index buf pos = Some ?len" "pos + 1 + length l \<le> length buf"
    "take (length l) (drop (pos + 1) buf) = l"
    using at_label.hyps(1) [unfolded bytes_at_Cons] by (auto simp: index_def bytes_at_def)
  have IH: "name_parse_loop buf (wire @ [?len] @ l) (pos + (1 + length l)) resume pointers =
      Inr ((wire @ [?len] @ l) @ wire_of ls, case resume of None \<Rightarrow> e | Some r \<Rightarrow> r)"
    using at_label.prems by (intro at_label.IH) auto
  have "\<not> length wire + 1 + length l + 1 > MAX_NAME_WIRE"
    using at_label.prems(2) length_wire_of_pos [of ls] by (simp only: wire_of.simps list.size
      length_append)
  with b len IH show ?case
    by (subst name_parse_loop.simps) (simp add: Let_def)
next
  case (at_pointer buf pos target ls k e)
  obtain h l where hl: "u16_to_be (0xC000 OR of_nat target) = [h, l]"
    by (simp add: u16_to_be_def)
  note p = pointer_octets [OF at_pointer.hyps(3) hl]
  have b: "index buf pos = Some h" "index buf (pos + 1) = Some l"
    using at_pointer.hyps(1) by (auto simp: hl bytes_at_Cons index_def)
  have "name_parse_loop buf wire target
      (case resume of None \<Rightarrow> Some (pos + 2) | Some r \<Rightarrow> Some r) (pointers + 1) =
      Inr (wire @ wire_of ls,
        case (case resume of None \<Rightarrow> Some (pos + 2) | Some r \<Rightarrow> Some r) of None \<Rightarrow> e | Some r \<Rightarrow> r)"
    using at_pointer.prems by (intro at_pointer.IH) auto
  with b p at_pointer.hyps(2) at_pointer.prems show ?case
    by (subst name_parse_loop.simps) (auto simp: Let_def split: option.splits)
qed

lemma name_parse_loop_sound:
  assumes "name_parse_loop buf wire pos resume pointers = Inr (w, r)" "length wire < MAX_NAME_WIRE"
  shows "\<exists>ls k e. name_at buf pos ls k e \<and> w = wire @ wire_of ls \<and>
    r = (case resume of None \<Rightarrow> e | Some r \<Rightarrow> r) \<and> (k = 0 \<or> pointers + k \<le> MAX_POINTERS) \<and>
    length w \<le> MAX_NAME_WIRE"
  using assms
proof (induction buf wire pos resume pointers rule: name_parse_loop.induct)
  case (1 buf wire pos resume pointers)
  from "1.prems"(1) obtain len where len: "index buf pos = Some len"
    by (subst (asm) name_parse_loop.simps) (auto split: option.splits)
  note unf = "1.prems"(1) [unfolded name_parse_loop.simps [of buf wire pos resume pointers] len option.case]
  consider (root) "len AND 0xC0 = 0" "len = 0" | (label) "len AND 0xC0 = 0" "len \<noteq> 0"
    | (ptr) "len AND 0xC0 = 0xC0" "len AND 0xC0 \<noteq> 0"
    using unf by (cases "len AND 0xC0 = 0"; cases "len AND 0xC0 = 0xC0") auto
  then show ?case
  proof cases
    case root
    with unf have "w = wire @ [0]" "r = (case resume of None \<Rightarrow> pos + 1 | Some r \<Rightarrow> r)" by simp_all
    moreover have "name_at buf pos [] 0 (pos + 1)"
      using len root by (intro at_root) (auto simp: index_def bytes_at_Cons split: if_splits)
    ultimately show ?thesis using "1.prems"(2) by (intro exI [of _ "[]"] exI [of _ 0] exI [of _ "pos + 1"]) auto
  next
    case label
    let ?ll = "unat len"
    let ?l = "take ?ll (drop (pos + 1) buf)"
    from unf label have fit: "pos + 1 + ?ll \<le> length buf" "length wire + 1 + ?ll + 1 \<le> MAX_NAME_WIRE"
      and rec: "name_parse_loop buf (wire @ [len] @ ?l) (pos + 1 + ?ll) resume pointers = Inr (w, r)"
      by (auto simp: Let_def split: if_splits)
    have l: "length ?l = ?ll" using fit by simp
    have ok: "label_ok ?l"
      using label l by (auto simp: label_ok_def label_octet unat_eq_0 simp flip: length_0_conv)
    have "\<exists>ls k e. name_at buf (pos + 1 + ?ll) ls k e \<and> w = (wire @ [len] @ ?l) @ wire_of ls \<and>
        r = (case resume of None \<Rightarrow> e | Some r \<Rightarrow> r) \<and> (k = 0 \<or> pointers + k \<le> MAX_POINTERS) \<and>
        length w \<le> MAX_NAME_WIRE"
      by (rule "1.IH"(1) [OF len]) (use label fit rec l in \<open>simp_all add: not_less\<close>)
    then obtain ls k e where ih: "name_at buf (pos + 1 + ?ll) ls k e"
      "w = (wire @ [len] @ ?l) @ wire_of ls" "r = (case resume of None \<Rightarrow> e | Some r \<Rightarrow> r)"
      "k = 0 \<or> pointers + k \<le> MAX_POINTERS" "length w \<le> MAX_NAME_WIRE" by blast
    have "bytes_at buf pos (of_nat (length ?l) # ?l)"
      using len fit l unfolding bytes_at_Cons
      by (simp add: index_def bytes_at_def split: if_splits)
    then have "name_at buf pos (?l # ls) k e"
      using ok ih(1) l by (intro at_label) (auto simp: add.assoc)
    with ih l show ?thesis by (intro exI [of _ "?l # ls"] exI [of _ k] exI [of _ e]) auto
  next
    case ptr
    from unf ptr obtain b2 where b2: "index buf (pos + 1) = Some b2"
      by (auto split: option.splits)
    let ?t = "push_bit 8 (unat (len AND 0x3F)) OR unat b2"
    let ?res = "case resume of None \<Rightarrow> Some (pos + 2) | Some r \<Rightarrow> Some r"
    from unf ptr b2 have fit: "pointers + 1 \<le> MAX_POINTERS" "?t < pos"
      and rec: "name_parse_loop buf wire ?t ?res (pointers + 1) = Inr (w, r)"
      by (auto simp: Let_def split: if_splits)
    note conv = pointer_octets_conv [OF ptr(1), of b2]
    have "\<exists>ls k e. name_at buf ?t ls k e \<and> w = wire @ wire_of ls \<and>
        r = (case ?res of None \<Rightarrow> e | Some r \<Rightarrow> r) \<and> (k = 0 \<or> pointers + 1 + k \<le> MAX_POINTERS) \<and>
        length w \<le> MAX_NAME_WIRE"
      by (rule "1.IH"(2) [OF len _ _ b2]) (use ptr fit rec "1.prems"(2) in \<open>simp_all add: not_less not_le\<close>)
    then obtain ls k e where ih: "name_at buf ?t ls k e" "w = wire @ wire_of ls"
      "r = (case ?res of None \<Rightarrow> e | Some r \<Rightarrow> r)" "k = 0 \<or> pointers + 1 + k \<le> MAX_POINTERS"
      "length w \<le> MAX_NAME_WIRE" by blast
    have "bytes_at buf pos (u16_to_be (0xC000 OR of_nat ?t))"
      using len b2 by (auto simp: conv(2) bytes_at_Cons index_def split: if_splits)
    then have "name_at buf pos ls (Suc k) (pos + 2)"
      using fit(2) conv(1) ih(1) by (rule at_pointer)
    with ih fit show ?thesis
      by (intro exI [of _ ls] exI [of _ "Suc k"] exI [of _ "pos + 2"]) (auto split: option.splits)
  qed
qed

text \<open>
  C6. \<open>Name::parse\<close> decides the compressed-name grammar. It returns a name exactly when a spelling
  with strictly backward pointers stands at the cursor, that follows at most 127 pointers and whose
  decompressed form has at most 255 octets; the name is that decompressed form and the cursor ends
  after the spelling's own part, before which no octet is skipped. Every other input is an error.
\<close>

theorem name_parse_decides_grammar:
  "name_parse d = Inr (n, d') \<longleftrightarrow>
     (\<exists>ls k e. name_at (dbuf d) (dpos d) ls k e \<and> k \<le> MAX_POINTERS \<and>
        length (wire_of ls) \<le> MAX_NAME_WIRE \<and> n = Name (wire_of ls) \<and> d' = d\<lparr>dpos := e\<rparr>)"
    (is "?L \<longleftrightarrow> ?R")
proof
  assume ?L
  then obtain w r where loop: "name_parse_loop (dbuf d) [] (dpos d) None 0 = Inr (w, r)"
    and n: "n = Name w" and d': "d' = d\<lparr>dpos := r\<rparr>"
    by (auto simp: name_parse_def dec_seek_def pbind_def preturn_def split: sum.splits if_splits)
  from name_parse_loop_sound [OF loop] obtain ls k e where
    "name_at (dbuf d) (dpos d) ls k e" "w = wire_of ls" "r = e" "k \<le> MAX_POINTERS"
    "length w \<le> MAX_NAME_WIRE" by auto
  with n d' show ?R by blast
next
  assume ?R
  then obtain ls k e where at: "name_at (dbuf d) (dpos d) ls k e" and k: "k \<le> MAX_POINTERS"
    and len: "length (wire_of ls) \<le> MAX_NAME_WIRE" and n: "n = Name (wire_of ls)"
    and d': "d' = d\<lparr>dpos := e\<rparr>" by blast
  from at have "name_parse_loop (dbuf d) [] (dpos d) None 0 = Inr ([] @ wire_of ls, e)"
    by (subst name_parse_loop_complete [OF at]) (use k len in simp_all)
  with name_at_bounds [OF at] n d' show ?L
    by (simp add: name_parse_def dec_seek_def pbind_def preturn_def)
qed

lemma name_parse_valid:
  assumes "name_parse d = Inr (n, d')"
  shows "valid_name n"
proof -
  from assms obtain ls k e where "name_at (dbuf d) (dpos d) ls k e"
    "length (wire_of ls) \<le> MAX_NAME_WIRE" "n = Name (wire_of ls)"
    using name_parse_loop_sound [of "dbuf d" "[]" "dpos d" None 0]
    by (auto simp: name_parse_def split: sum.splits elim!: pbind_eq_InrE simp: preturn_def)
  then show ?thesis by (metis name_at_labels_ok valid_nameI)
qed

lemma name_parse_at:
  assumes "name_at buf pos ls k e" "k \<le> MAX_POINTERS" "length (wire_of ls) \<le> MAX_NAME_WIRE"
  shows "name_parse \<lparr>dbuf = buf, dpos = pos\<rparr> = Inr (Name (wire_of ls), \<lparr>dbuf = buf, dpos = e\<rparr>)"
proof -
  have "name_parse_loop buf [] pos None 0 = Inr ([] @ wire_of ls, e)"
    by (subst name_parse_loop_complete [OF assms(1)]) (use assms in simp_all)
  with name_at_bounds [OF assms(1)] show ?thesis
    by (simp add: name_parse_def dec_seek_def pbind_def preturn_def)
qed

text \<open>An uncompressed name is one spelling of itself.\<close>

lemma name_at_wire:
  "bytes_at buf pos (wire_of ls) \<Longrightarrow> list_all label_ok ls \<Longrightarrow>
     name_at buf pos ls 0 (pos + length (wire_of ls))"
proof (induction ls arbitrary: pos)
  case Nil
  then show ?case using at_root [of buf pos] by simp
next
  case (Cons l ls)
  have split: "wire_of (l # ls) = (of_nat (length l) # l) @ wire_of ls" by simp
  from Cons.prems(1) have "bytes_at buf pos (of_nat (length l) # l)"
    and "bytes_at buf (pos + (1 + length l)) (wire_of ls)"
    unfolding split bytes_at_append by (auto simp: add.commute)
  moreover have "label_ok l" "list_all label_ok ls" using Cons.prems(2) by auto
  ultimately have "name_at buf pos (l # ls) 0 (pos + (1 + length l) + length (wire_of ls))"
    using Cons.IH by (blast intro: at_label)
  then show ?case by (simp add: add.assoc)
qed

lemma name_parse_raw:
  assumes "bytes_at buf pos (name_wire n)" "valid_name n"
  shows "name_parse \<lparr>dbuf = buf, dpos = pos\<rparr> =
    Inr (n, \<lparr>dbuf = buf, dpos = pos + length (name_wire n)\<rparr>)"
proof -
  from assms(2) obtain ls where ls: "n = Name (wire_of ls)" "list_all label_ok ls"
    "length (wire_of ls) \<le> MAX_NAME_WIRE" by (rule valid_nameE)
  with assms(1) name_parse_at [OF name_at_wire] show ?thesis by simp
qed

interpretation name_parser: wire_parser name_parse 1
proof
  fix d n d'
  assume "name_parse d = Inr (n, d')"
  then obtain w r where loop: "name_parse_loop (dbuf d) [] (dpos d) None 0 = Inr (w, r)"
    and d': "d' = d\<lparr>dpos := r\<rparr>"
    by (auto simp: name_parse_def dec_seek_def pbind_def preturn_def split: sum.splits if_splits)
  from name_parse_loop_sound [OF loop] have "dpos d < r \<and> r \<le> length (dbuf d)"
    by (auto dest: name_at_bounds)
  with d' show "dbuf d' = dbuf d" "dpos d + 1 \<le> dpos d'" "dpos d' \<le> length (dbuf d)" by auto
qed

end
