(* ===== verification/Name_Compress.thy ===== *)
theory Name_Compress
  imports Name_Grammar
begin

text \<open>
  Name compression: the invariant of the encoder's table, and the proof that what \<open>Name::emit\<close>
  writes, pointers included, is read back by \<open>Name::parse\<close> as an equal name.
\<close>

section \<open>The compression table\<close>

text \<open>
  A table entry points at a spelling of the recorded name within pointer range. The spelling starts
  with a label, and so does the target of each of its pointers: it follows fewer pointers than it
  has labels, which keeps a reader below its pointer cap.
\<close>

definition entry_ok :: "byte list \<Rightarrow> byte list \<Rightarrow> u16 \<Rightarrow> bool" where
  "entry_ok buf key off \<longleftrightarrow> unat off \<le> MAX_COMPRESS_OFFSET \<and>
     (\<exists>ls k e. name_at buf (unat off) ls k e \<and> key = wire_of (map lower ls) \<and> k < length ls)"

definition enc_inv :: "encoder \<Rightarrow> bool" where
  "enc_inv e \<longleftrightarrow> (\<forall>key off. enames e key = Some off \<longrightarrow> entry_ok (ebuf e) key off)"

lemma enc_invI: "(\<And>key off. enames e key = Some off \<Longrightarrow> entry_ok (ebuf e) key off) \<Longrightarrow> enc_inv e"
  by (simp add: enc_inv_def)

lemma enc_inv_empty [simp]: "enc_inv enc_new" "enc_inv enc_uncompressed"
  by (simp_all add: enc_inv_def enc_new_def enc_uncompressed_def)

lemma entry_ok_extend: "entry_ok buf key off \<Longrightarrow> entry_ok (buf @ rest) key off"
  unfolding entry_ok_def using name_at_extend by blast

text \<open>Appending octets keeps the table right.\<close>

lemma enc_inv_append:
  "enc_inv e \<Longrightarrow> ebuf e' = ebuf e @ bs \<Longrightarrow> enames e' = enames e \<Longrightarrow> enc_inv e'"
  by (auto simp: enc_inv_def entry_ok_extend)

lemma enc_inv_scalars [simp]:
  "enc_inv e \<Longrightarrow> enc_inv (enc_u8 b e)" "enc_inv e \<Longrightarrow> enc_inv (enc_u16 v e)"
  "enc_inv e \<Longrightarrow> enc_inv (enc_u32 x e)" "enc_inv e \<Longrightarrow> enc_inv (enc_bytes bs e)"
  by (erule enc_inv_append; simp add: enc_u8_def enc_u16_def enc_u32_def enc_bytes_def)+

lemma ebuf_scalars [simp]:
  "ebuf (enc_u8 b e) = ebuf e @ [b]" "ebuf (enc_u16 v e) = ebuf e @ u16_to_be v"
  "ebuf (enc_u32 x e) = ebuf e @ u32_to_be x" "ebuf (enc_bytes bs e) = ebuf e @ bs"
  by (simp_all add: enc_u8_def enc_u16_def enc_u32_def enc_bytes_def)

lemma enames_scalars [simp]:
  "enames (enc_u8 b e) = enames e" "enames (enc_u16 v e) = enames e"
  "enames (enc_u32 x e) = enames e" "enames (enc_bytes bs e) = enames e"
  by (simp_all add: enc_u8_def enc_u16_def enc_u32_def enc_bytes_def)

lemma ecompress_scalars [simp]:
  "ecompress (enc_u8 b e) = ecompress e" "ecompress (enc_u16 v e) = ecompress e"
  "ecompress (enc_u32 x e) = ecompress e" "ecompress (enc_bytes bs e) = ecompress e"
  by (simp_all add: enc_u8_def enc_u16_def enc_u32_def enc_bytes_def)

lemma remember_name_simps [simp]:
  "ebuf (enc_remember_name key off e) = ebuf e"
  "ecompress (enc_remember_name key off e) = ecompress e"
  by (auto simp: enc_remember_name_def split: option.splits)

lemma enames_rememberD:
  assumes "enames (enc_remember_name key0 n e) key = Some off"
  shows "enames e key = Some off \<or> key = key0 \<and> n \<le> MAX_COMPRESS_OFFSET \<and> off = of_nat n"
  using assms by (auto simp: enc_remember_name_def split: option.splits if_splits)

section \<open>Emitting a name\<close>

lemma pointer_to_entry:
  assumes "entry_ok (ebuf e) (wire_of (map lower ls)) off" "list_all label_ok ls"
  shows "\<exists>ls' k. name_at (ebuf (enc_u16 (0xC000 OR off) e)) (length (ebuf e)) ls' k
      (length (ebuf (enc_u16 (0xC000 OR off) e))) \<and> map lower ls' = map lower ls \<and> k \<le> length ls'"
proof -
  from assms(1) obtain ls' k en where at: "name_at (ebuf e) (unat off) ls' k en"
    and key: "wire_of (map lower ls) = wire_of (map lower ls')" and k: "k < length ls'"
    and off: "unat off \<le> MAX_COMPRESS_OFFSET"
    by (auto simp: entry_ok_def)
  have "map lower ls' = map lower ls"
    using key assms(2) name_at_labels_ok [OF at] by (simp add: wire_of_inj)
  moreover have "name_at (ebuf e @ u16_to_be (0xC000 OR off)) (length (ebuf e)) ls' (Suc k)
      (length (ebuf e) + 2)"
  proof (rule at_pointer)
    show "bytes_at (ebuf e @ u16_to_be (0xC000 OR off)) (length (ebuf e))
        (u16_to_be (0xC000 OR of_nat (unat off)))"
      using bytes_at_here [of "ebuf e" "u16_to_be (0xC000 OR off)" "[]"] by simp
    show "unat off < length (ebuf e)" using name_at_bounds [OF at] by simp
  qed (use off at name_at_extend in auto)
  ultimately show ?thesis using k by (intro exI [of _ ls'] exI [of _ "Suc k"]) auto
qed

lemma name_emit_loop_spec:
  assumes "drop i w = wire_of ls" "drop i lw = wire_of (map lower ls)" "list_all label_ok ls"
    and "\<And>key off. enames e key = Some off \<Longrightarrow> length key \<le> length (wire_of ls) \<Longrightarrow>
      entry_ok (ebuf e) key off"
  shows "\<exists>e' bs ls' k. name_emit_loop w lw i e = Some e' \<and> ebuf e' = ebuf e @ bs \<and>
    ecompress e' = ecompress e \<and> map lower ls' = map lower ls \<and>
    name_at (ebuf e') (length (ebuf e)) ls' k (length (ebuf e')) \<and> k \<le> length ls' \<and>
    (\<forall>key off. enames e' key = Some off \<longrightarrow> enames e key = Some off \<or> entry_ok (ebuf e') key off)"
  using assms
proof (induction ls arbitrary: i e)
  case Nil
  note s = wire_stop [OF Nil.prems(1)]
  have "name_at (ebuf e @ [0]) (length (ebuf e)) [] 0 (length (ebuf e) + 1)"
    using bytes_at_here [of "ebuf e" "[0]" "[]"] by (intro at_root) simp
  with s show ?case
    by (subst name_emit_loop.simps) (auto intro!: exI [of _ "[]"] exI [of _ 0])
next
  case (Cons l ls)
  have ok: "label_ok l" "list_all label_ok ls" using Cons.prems(3) by auto
  let ?key = "wire_of (map lower (l # ls))"
  note s = wire_step [OF Cons.prems(1) ok(1)]
  have lw: "subslice lw i (length lw) = Some ?key"
    using Cons.prems(2) subslice_to_end [of i lw] by (cases "i \<le> length lw") auto
  have "drop i lw = wire_of (lower l # map lower ls)" using Cons.prems(2) by simp
  from wire_step(6) [OF this] ok have lw': "drop (i + (1 + length l)) lw = wire_of (map lower ls)"
    by simp
  show ?case
  proof (cases "enc_lookup_name e ?key")
    case (Some off)
    then have "enames e ?key = Some off" by (auto simp: enc_lookup_name_def split: if_splits)
    with Cons.prems(4) have "entry_ok (ebuf e) ?key off" by simp
    from pointer_to_entry [OF this Cons.prems(3)] Some s lw show ?thesis
      by (subst name_emit_loop.simps) (force simp: s(1))
  next
    case None
    let ?e1 = "enc_bytes l (enc_u8 (w ! i) (enc_remember_name ?key (length (ebuf e)) e))"
    have step: "name_emit_loop w lw i e = name_emit_loop w lw (i + (1 + length l)) ?e1"
      using s lw None by (subst name_emit_loop.simps) simp
    have buf1: "ebuf ?e1 = ebuf e @ (of_nat (length l) # l)" using s by simp
    have "\<exists>e' bs ls' k. name_emit_loop w lw (i + (1 + length l)) ?e1 = Some e' \<and>
        ebuf e' = ebuf ?e1 @ bs \<and> ecompress e' = ecompress ?e1 \<and> map lower ls' = map lower ls \<and>
        name_at (ebuf e') (length (ebuf ?e1)) ls' k (length (ebuf e')) \<and> k \<le> length ls' \<and>
        (\<forall>key off. enames e' key = Some off \<longrightarrow>
           enames ?e1 key = Some off \<or> entry_ok (ebuf e') key off)"
    proof (rule Cons.IH [OF s(6) lw' ok(2)])
      fix key off
      assume "enames ?e1 key = Some off" "length key \<le> length (wire_of ls)"
      then have "enames e key = Some off"
        by (auto dest: enames_rememberD)
      with Cons.prems(4) \<open>length key \<le> length (wire_of ls)\<close> have "entry_ok (ebuf e) key off"
        by simp
      then show "entry_ok (ebuf ?e1) key off" unfolding buf1 by (rule entry_ok_extend)
    qed
    then obtain e' bs ls' k where r: "name_emit_loop w lw (i + (1 + length l)) ?e1 = Some e'"
      "ebuf e' = ebuf ?e1 @ bs" "ecompress e' = ecompress ?e1" "map lower ls' = map lower ls"
      "name_at (ebuf e') (length (ebuf ?e1)) ls' k (length (ebuf e'))" "k \<le> length ls'"
      "\<forall>key off. enames e' key = Some off \<longrightarrow> enames ?e1 key = Some off \<or> entry_ok (ebuf e') key off"
      by blast
    have "bytes_at (ebuf e') (length (ebuf e)) (of_nat (length l) # l)"
      unfolding r(2) buf1 append_assoc by (rule bytes_at_here)
    then have at: "name_at (ebuf e') (length (ebuf e)) (l # ls') k (length (ebuf e'))"
      using ok(1) r(5) buf1 by (intro at_label) auto
    have entries: "enames e key = Some off \<or> entry_ok (ebuf e') key off"
      if "enames e' key = Some off" for key off
    proof -
      have "entry_ok (ebuf e') ?key (of_nat (length (ebuf e)))"
        if "length (ebuf e) \<le> MAX_COMPRESS_OFFSET"
        using that at r(4,6) by (force simp: entry_ok_def unat_of_nat)
      with r(7) that show ?thesis by (auto dest!: enames_rememberD)
    qed
    show ?thesis
      using step r buf1 at entries
      by (intro exI [of _ e'] exI [of _ "(of_nat (length l) # l) @ bs"] exI [of _ "l # ls'"]
          exI [of _ k]) auto
  qed
qed


text \<open>The contract of \<open>Name::emit\<close> that the record emitters rely on.\<close>

lemma name_emit_spec:
  assumes "valid_name n" "enc_inv e"
  obtains e' bs n' where "name_emit n e = Some e'" "ebuf e' = ebuf e @ bs" "enc_inv e'"
    "ecompress e' = ecompress e" "valid_name n'" "eq_ignore_ascii_case n n'"
    "\<And>rest. name_parse \<lparr>dbuf = ebuf e' @ rest, dpos = length (ebuf e)\<rparr> =
       Inr (n', \<lparr>dbuf = ebuf e' @ rest, dpos = length (ebuf e')\<rparr>)"
proof -
  from assms(1) obtain ls where n: "n = Name (wire_of ls)" and ok: "list_all label_ok ls"
    and len: "length (wire_of ls) \<le> MAX_NAME_WIRE" by (rule valid_nameE)
  have "lower_wire n = Some (wire_of (map lower ls))"
    using lower_wire_valid [OF assms(1)] by (simp add: n lower_wire_of ok)
  then have emit: "name_emit n e = name_emit_loop (wire_of ls) (wire_of (map lower ls)) 0 e"
    by (simp add: name_emit_def n)
  have "\<exists>e' bs ls' k. name_emit n e = Some e' \<and> ebuf e' = ebuf e @ bs \<and>
    ecompress e' = ecompress e \<and> map lower ls' = map lower ls \<and>
    name_at (ebuf e') (length (ebuf e)) ls' k (length (ebuf e')) \<and> k \<le> length ls' \<and>
    (\<forall>key off. enames e' key = Some off \<longrightarrow> enames e key = Some off \<or> entry_ok (ebuf e') key off)"
    unfolding emit using assms(2) ok
    by (intro name_emit_loop_spec) (auto simp: enc_inv_def)
  then obtain e' bs ls' k where r: "name_emit n e = Some e'" "ebuf e' = ebuf e @ bs"
    "ecompress e' = ecompress e" "map lower ls' = map lower ls"
    "name_at (ebuf e') (length (ebuf e)) ls' k (length (ebuf e'))" "k \<le> length ls'"
    "\<And>key off. enames e' key = Some off \<Longrightarrow> enames e key = Some off \<or> entry_ok (ebuf e') key off"
    by blast
  have ok': "list_all label_ok ls'" using r(5) by (rule name_at_labels_ok)
  have len': "length (wire_of ls') \<le> MAX_NAME_WIRE"
    using len r(4) by (metis length_wire_of_lower)
  have k: "k \<le> MAX_POINTERS" using r(6) length_labels_le_wire [OF ok'] len' by simp
  have "enc_inv e'"
    using r(2,7) assms(2) entry_ok_extend unfolding enc_inv_def by metis
  moreover have "eq_ignore_ascii_case n (Name (wire_of ls'))"
    using r(4) by (simp add: n eq_ignore_ascii_case_labels ok ok')
  ultimately show thesis
    using that [of e' bs "Name (wire_of ls')"] r(1-3) valid_nameI [OF ok' len']
      name_parse_at [OF name_at_extend [OF r(5)] k len'] by blast
qed

text \<open>Without compression the wire form is copied and the table is not touched.\<close>

lemma name_emit_loop_uncompressed:
  assumes "drop i w = wire_of ls" "i \<le> length lw" "length lw = length w" "list_all label_ok ls"
    "\<not> ecompress e"
  shows "name_emit_loop w lw i e = Some (enc_bytes (wire_of ls) e)"
  using assms
proof (induction ls arbitrary: i e)
  case Nil
  note s = wire_stop [OF Nil.prems(1)]
  then show ?case by (subst name_emit_loop.simps) (simp add: enc_u8_def enc_bytes_def)
next
  case (Cons l ls)
  then have ok: "label_ok l" "list_all label_ok ls" by auto
  note s = wire_step [OF Cons.prems(1) ok(1)]
  let ?e1 = "enc_bytes l (enc_u8 (w ! i) e)"
  have "i + (1 + length l) \<le> length w"
    using s(6) by (metis drop_all length_wire_of_pos list.size(3) nat_le_linear not_less0)
  then have "name_emit_loop w lw (i + (1 + length l)) ?e1 = Some (enc_bytes (wire_of ls) ?e1)"
    using Cons.prems by (intro Cons.IH [OF s(6)]) auto
  moreover have "subslice lw i (length lw) = Some (drop i lw)"
    using s(1) Cons.prems(3) by (intro subslice_to_end) simp
  ultimately show ?case
    using s Cons.prems
    by (subst name_emit_loop.simps)
      (simp add: subslice_to_end enc_lookup_name_def enc_remember_name_def enc_u8_def enc_bytes_def)
qed

lemma name_emit_uncompressed:
  assumes "valid_name n" "\<not> ecompress e"
  shows "name_emit n e = Some (enc_bytes (name_wire n) e)"
proof -
  from assms(1) obtain ls where n: "n = Name (wire_of ls)" and ok: "list_all label_ok ls"
    by (rule valid_nameE)
  have "lower_wire n = Some (wire_of (map lower ls))"
    using lower_wire_valid [OF assms(1)] by (simp add: n lower_wire_of ok)
  with ok assms(2) name_emit_loop_uncompressed [of 0 "wire_of ls" ls] show ?thesis
    by (simp add: name_emit_def n)
qed

end
