(* ===== verification/Wire_Interface.thy ===== *)
theory Wire_Interface
  imports Name_Compress
begin

text \<open>
  The two interfaces between the layers of the codec: a parser that reads the same value from a
  longer buffer (\<open>stable_parser\<close>), and an emitter and a parser that agree (\<open>wire_codec\<close>). The section
  loops of a message are proved once against them.
\<close>

section \<open>Parsers that ignore what follows\<close>

locale stable_parser = wire_parser +
  assumes stable: "parse d = Inr (a, d') \<Longrightarrow>
    parse (d\<lparr>dbuf := dbuf d @ x\<rparr>) = Inr (a, d'\<lparr>dbuf := dbuf d' @ x\<rparr>)"
begin

lemma parse_n_stable:
  "parse_n parse n d = Inr (as, d') \<Longrightarrow>
     parse_n parse n (d\<lparr>dbuf := dbuf d @ x\<rparr>) = Inr (as, d'\<lparr>dbuf := dbuf d' @ x\<rparr>)"
proof (induction n arbitrary: as d)
  case 0
  then show ?case by (simp add: preturn_def)
next
  case (Suc n)
  from Suc.prems obtain a d1 as' where
    "parse d = Inr (a, d1)" "parse_n parse n d1 = Inr (as', d')" "as = a # as'"
    by (auto simp: preturn_def elim!: pbind_eq_InrE)
  with Suc.IH [of d1] stable [of d a d1] show ?case by (simp add: pbind_def preturn_def)
qed

end

lemma stable_parserD:
  "stable_parser p w \<Longrightarrow> p d = Inr (a, d') \<Longrightarrow>
     p (d\<lparr>dbuf := dbuf d @ x\<rparr>) = Inr (a, d'\<lparr>dbuf := dbuf d' @ x\<rparr>)"
  by (rule stable_parser.stable)

lemma stable_parser_pbind:
  assumes "stable_parser p w" "\<And>a. stable_parser (f a) v"
  shows "stable_parser (pbind p f) (w + v)"
proof (intro stable_parser.intro stable_parser_axioms.intro wire_parser_pbind)
  show "wire_parser p w" "\<And>a. wire_parser (f a) v"
    using assms by (auto simp: stable_parser_def)
next
  fix d b d'' x
  assume "pbind p f d = Inr (b, d'')"
  then obtain a d' where "p d = Inr (a, d')" "f a d' = Inr (b, d'')" by (rule pbind_eq_InrE)
  then have "p (d\<lparr>dbuf := dbuf d @ x\<rparr>) = Inr (a, d'\<lparr>dbuf := dbuf d' @ x\<rparr>)"
    "f a (d'\<lparr>dbuf := dbuf d' @ x\<rparr>) = Inr (b, d''\<lparr>dbuf := dbuf d'' @ x\<rparr>)"
    using assms by (blast intro: stable_parserD)+
  then show "pbind p f (d\<lparr>dbuf := dbuf d @ x\<rparr>) = Inr (b, d''\<lparr>dbuf := dbuf d'' @ x\<rparr>)"
    by (simp add: pbind_def)
qed

lemma stable_parser_preturn: "stable_parser (preturn a) 0"
  by (auto simp: stable_parser_def stable_parser_axioms_def wire_parser_preturn preturn_def)

lemma stable_parser_map:
  "stable_parser p w \<Longrightarrow> stable_parser (pbind p (\<lambda>a. preturn (f a))) w"
  using stable_parser_pbind [OF _ stable_parser_preturn] by fastforce

lemma stable_parser_weaken: "stable_parser p w \<Longrightarrow> v \<le> w \<Longrightarrow> stable_parser p v"
  by (auto simp: stable_parser_def stable_parser_axioms_def intro: wire_parser_weaken)

lemmas stable_parser_sub = stable_parser_weaken [OF _ le0]

interpretation u8_parser: stable_parser dec_u8 1
  by unfold_locales (auto simp: dec_u8_def index_def nth_append split: if_splits)

interpretation u16_parser: stable_parser dec_u16 2
  using stable_parser_pbind [OF u8_parser.stable_parser_axioms
      stable_parser_map [OF u8_parser.stable_parser_axioms]]
  by (simp add: dec_u16_def numeral_2_eq_2)

interpretation u32_parser: stable_parser dec_u32 4
  using stable_parser_pbind [OF u16_parser.stable_parser_axioms
      stable_parser_map [OF u16_parser.stable_parser_axioms]]
  by (simp add: dec_u32_def)

interpretation slice_parser: stable_parser "dec_slice n" n for n
  by unfold_locales (auto simp: dec_slice_def subslice_def split: if_splits)

interpretation name_parser: stable_parser name_parse 1
proof
  fix d n d' x
  assume p: "name_parse d = Inr (n, d')"
  then obtain w r where loop: "name_parse_loop (dbuf d) [] (dpos d) None 0 = Inr (w, r)"
    and n: "n = Name w" and d': "d' = d\<lparr>dpos := r\<rparr>"
    by (auto simp: name_parse_def dec_seek_def pbind_def preturn_def split: sum.splits if_splits)
  from name_parse_loop_sound [OF loop] obtain ls k e where at: "name_at (dbuf d) (dpos d) ls k e"
    and "w = wire_of ls" "r = e" "k \<le> MAX_POINTERS" "length (wire_of ls) \<le> MAX_NAME_WIRE" by auto
  with name_parse_at [OF name_at_extend [OF at]] n d' show
    "name_parse (d\<lparr>dbuf := dbuf d @ x\<rparr>) = Inr (n, d'\<lparr>dbuf := dbuf d' @ x\<rparr>)"
    by (cases d) auto
qed

section \<open>Emitters and parsers that agree\<close>

text \<open>Emitting a sequence of entries, as the section loops of \<open>Message::encode_with\<close> do.\<close>

fun emit_all :: "('a \<Rightarrow> encoder \<Rightarrow> encoder option) \<Rightarrow> 'a list \<Rightarrow> encoder \<Rightarrow> encoder option" where
  "emit_all emit [] e = Some e"
| "emit_all emit (a # as) e = do { e \<leftarrow> emit a e; emit_all emit as e }"

text \<open>
  On a well-formed value and an encoder in the invariant, the emitter does not panic, only appends,
  keeps the invariant, and the parser reads an equivalent value back at the offset where
  it was written, whatever is written behind it.
\<close>

locale wire_codec =
  fixes einv :: "encoder \<Rightarrow> bool"
    and emit :: "'a \<Rightarrow> encoder \<Rightarrow> encoder option"
    and parse :: "'a parser"
    and wf :: "'a \<Rightarrow> bool"
    and eqv :: "'a \<Rightarrow> 'a \<Rightarrow> bool"
  assumes emit_parse: "wf a \<Longrightarrow> einv e \<Longrightarrow>
    \<exists>e' bs a'. emit a e = Some e' \<and> ebuf e' = ebuf e @ bs \<and> einv e' \<and> eqv a a' \<and>
      (\<forall>rest. parse \<lparr>dbuf = ebuf e' @ rest, dpos = length (ebuf e)\<rparr> =
         Inr (a', \<lparr>dbuf = ebuf e' @ rest, dpos = length (ebuf e')\<rparr>))"
begin

lemma emit_all_parse_n:
  "list_all wf as \<Longrightarrow> einv e \<Longrightarrow>
    \<exists>e' bs as'. emit_all emit as e = Some e' \<and> ebuf e' = ebuf e @ bs \<and> einv e' \<and>
      list_all2 eqv as as' \<and>
      (\<forall>rest. parse_n parse (length as) \<lparr>dbuf = ebuf e' @ rest, dpos = length (ebuf e)\<rparr> =
         Inr (as', \<lparr>dbuf = ebuf e' @ rest, dpos = length (ebuf e')\<rparr>))"
proof (induction as arbitrary: e)
  case Nil
  then show ?case by (auto simp: preturn_def)
next
  case (Cons a as)
  then obtain e1 bs1 a' where 1: "emit a e = Some e1" "ebuf e1 = ebuf e @ bs1" "einv e1"
    "eqv a a'" "\<And>rest. parse \<lparr>dbuf = ebuf e1 @ rest, dpos = length (ebuf e)\<rparr> =
         Inr (a', \<lparr>dbuf = ebuf e1 @ rest, dpos = length (ebuf e1)\<rparr>)"
    using emit_parse [of a e] by auto
  from Cons.IH [OF _ 1(3)] Cons.prems obtain e' bs as' where 2: "emit_all emit as e1 = Some e'"
    "ebuf e' = ebuf e1 @ bs" "einv e'" "list_all2 eqv as as'"
    "\<And>rest. parse_n parse (length as) \<lparr>dbuf = ebuf e' @ rest, dpos = length (ebuf e1)\<rparr> =
         Inr (as', \<lparr>dbuf = ebuf e' @ rest, dpos = length (ebuf e')\<rparr>)" by auto
  have "parse_n parse (length (a # as)) \<lparr>dbuf = ebuf e' @ rest, dpos = length (ebuf e)\<rparr> =
      Inr (a' # as', \<lparr>dbuf = ebuf e' @ rest, dpos = length (ebuf e')\<rparr>)" for rest
    using 1(5) [of "bs @ rest"] 2(5) [of rest] by (simp add: 2(2) pbind_def preturn_def)
  with 1 2 show ?case
    by (intro exI [of _ e'] exI [of _ "bs1 @ bs"] exI [of _ "a' # as'"]) auto
qed

end

text \<open>Sections of \<open>n\<close> entries, and two parts one after the other, are codecs again.\<close>

lemma wire_codec_section:
  assumes "wire_codec einv emit parse ok eqv"
  shows "wire_codec einv (emit_all emit) (parse_n parse n) (\<lambda>as. length as = n \<and> list_all ok as)
    (list_all2 eqv)"
proof
  fix as e
  assume "length as = n \<and> list_all ok as" "einv e"
  with wire_codec.emit_all_parse_n [OF assms, of as e]
  show "\<exists>e' bs as'. emit_all emit as e = Some e' \<and> ebuf e' = ebuf e @ bs \<and> einv e' \<and>
      list_all2 eqv as as' \<and>
      (\<forall>rest. parse_n parse n \<lparr>dbuf = ebuf e' @ rest, dpos = length (ebuf e)\<rparr> =
         Inr (as', \<lparr>dbuf = ebuf e' @ rest, dpos = length (ebuf e')\<rparr>))" by blast
qed

lemma wire_codec_pair:
  assumes 1: "wire_codec einv emit1 parse1 ok1 eqv1" and 2: "wire_codec einv emit2 parse2 ok2 eqv2"
  shows "wire_codec einv (\<lambda>(a, b) e. do { e \<leftarrow> emit1 a e; emit2 b e })
    (pbind parse1 (\<lambda>a. pbind parse2 (\<lambda>b. preturn (a, b)))) (\<lambda>(a, b). ok1 a \<and> ok2 b)
    (\<lambda>(a, b) (a', b'). eqv1 a a' \<and> eqv2 b b')"
proof (unfold_locales, clarify)
  fix a b e
  assume ok: "ok1 a" "ok2 b" and inv: "einv e"
  from wire_codec.emit_parse [OF 1 ok(1) inv] obtain e1 bs a' where a: "emit1 a e = Some e1"
    "ebuf e1 = ebuf e @ bs" "einv e1" "eqv1 a a'"
    "\<And>rest. parse1 \<lparr>dbuf = ebuf e1 @ rest, dpos = length (ebuf e)\<rparr> =
       Inr (a', \<lparr>dbuf = ebuf e1 @ rest, dpos = length (ebuf e1)\<rparr>)" by blast
  from wire_codec.emit_parse [OF 2 ok(2) a(3)] obtain e2 cs b' where b: "emit2 b e1 = Some e2"
    "ebuf e2 = ebuf e1 @ cs" "einv e2" "eqv2 b b'"
    "\<And>rest. parse2 \<lparr>dbuf = ebuf e2 @ rest, dpos = length (ebuf e1)\<rparr> =
       Inr (b', \<lparr>dbuf = ebuf e2 @ rest, dpos = length (ebuf e2)\<rparr>)" by blast
  have "pbind parse1 (\<lambda>a. pbind parse2 (\<lambda>b. preturn (a, b)))
      \<lparr>dbuf = ebuf e2 @ rest, dpos = length (ebuf e)\<rparr> =
    Inr ((a', b'), \<lparr>dbuf = ebuf e2 @ rest, dpos = length (ebuf e2)\<rparr>)" for rest
    using a(5) [of "cs @ rest"] b(5) [of rest] by (simp add: b(2) pbind_def preturn_def)
  with a b show "\<exists>e' bs p'. emit1 a e \<bind> emit2 b = Some e' \<and> ebuf e' = ebuf e @ bs \<and> einv e' \<and>
      (\<lambda>(a', b'). eqv1 a a' \<and> eqv2 b b') p' \<and>
      (\<forall>rest. pbind parse1 (\<lambda>a. pbind parse2 (\<lambda>b. preturn (a, b)))
         \<lparr>dbuf = ebuf e' @ rest, dpos = length (ebuf e)\<rparr> =
         Inr (p', \<lparr>dbuf = ebuf e' @ rest, dpos = length (ebuf e')\<rparr>))"
    by (intro exI [of _ e2] exI [of _ "bs @ cs"] exI [of _ "(a', b')"]) simp
qed

lemma wire_codec_weaken:
  assumes "wire_codec einv emit parse ok eqv" "\<And>a b. eqv a b \<Longrightarrow> eqv' a b"
  shows "wire_codec einv emit parse ok eqv'"
proof
  fix a e
  assume "ok a" "einv e"
  from wire_codec.emit_parse [OF assms(1) this] assms(2)
  show "\<exists>e' bs a'. emit a e = Some e' \<and> ebuf e' = ebuf e @ bs \<and> einv e' \<and> eqv' a a' \<and>
      (\<forall>rest. parse \<lparr>dbuf = ebuf e' @ rest, dpos = length (ebuf e)\<rparr> =
         Inr (a', \<lparr>dbuf = ebuf e' @ rest, dpos = length (ebuf e')\<rparr>))" by blast
qed

text \<open>
  Names twice: with compression the name read back may differ in case (a pointer may lead to an
  earlier spelling), without it the octets are the same.
\<close>

interpretation name_codec: wire_codec enc_inv name_emit name_parse valid_name eq_ignore_ascii_case
  by unfold_locales (metis name_emit_spec)

interpretation name_exact: wire_codec "\<lambda>e. \<not> ecompress e" name_emit name_parse valid_name "(=)"
  by unfold_locales (auto simp: name_emit_uncompressed intro: name_parse_raw bytes_at_here)

end
