(* ===== verification/Wire_Header.thy ===== *)
theory Wire_Header
  imports Wire_Interface
begin

text \<open>
  The 12-octet message header (\<open>wire/header.rs\<close>): the raw flag word with its typed accessors, parsing
  and emission. The accessors are the instances of one lens interface.
\<close>

section \<open>The code\<close>

record header =
  hid :: u16
  hflags :: u16
  qdcount :: u16
  ancount :: u16
  nscount :: u16
  arcount :: u16

definition header_default :: header where
  "header_default = \<lparr>hid = 0, hflags = 0, qdcount = 0, ancount = 0, nscount = 0, arcount = 0\<rparr>"

text \<open>The two bodies of the \<open>flag_accessors!\<close> macro, for a mask.\<close>

definition flag_get :: "u16 \<Rightarrow> header \<Rightarrow> bool" where
  "flag_get m h \<longleftrightarrow> hflags h AND m \<noteq> 0"

definition flag_set :: "u16 \<Rightarrow> bool \<Rightarrow> header \<Rightarrow> header" where
  "flag_set m v h = (if v then h\<lparr>hflags := hflags h OR m\<rparr> else h\<lparr>hflags := hflags h AND NOT m\<rparr>)"

definition hdr_qr :: "header \<Rightarrow> bool" where "hdr_qr = flag_get 0x8000"
definition set_qr :: "bool \<Rightarrow> header \<Rightarrow> header" where "set_qr = flag_set 0x8000"
definition hdr_aa :: "header \<Rightarrow> bool" where "hdr_aa = flag_get 0x0400"
definition set_aa :: "bool \<Rightarrow> header \<Rightarrow> header" where "set_aa = flag_set 0x0400"
definition hdr_tc :: "header \<Rightarrow> bool" where "hdr_tc = flag_get 0x0200"
definition set_tc :: "bool \<Rightarrow> header \<Rightarrow> header" where "set_tc = flag_set 0x0200"
definition hdr_rd :: "header \<Rightarrow> bool" where "hdr_rd = flag_get 0x0100"
definition set_rd :: "bool \<Rightarrow> header \<Rightarrow> header" where "set_rd = flag_set 0x0100"
definition hdr_ra :: "header \<Rightarrow> bool" where "hdr_ra = flag_get 0x0080"
definition set_ra :: "bool \<Rightarrow> header \<Rightarrow> header" where "set_ra = flag_set 0x0080"
definition hdr_ad :: "header \<Rightarrow> bool" where "hdr_ad = flag_get 0x0020"
definition set_ad :: "bool \<Rightarrow> header \<Rightarrow> header" where "set_ad = flag_set 0x0020"
definition hdr_cd :: "header \<Rightarrow> bool" where "hdr_cd = flag_get 0x0010"
definition set_cd :: "bool \<Rightarrow> header \<Rightarrow> header" where "set_cd = flag_set 0x0010"

definition hdr_opcode :: "header \<Rightarrow> byte" where
  "hdr_opcode h = ucast (drop_bit 11 (hflags h AND 0x7800))"

definition set_opcode :: "byte \<Rightarrow> header \<Rightarrow> header" where
  "set_opcode opc h =
     h\<lparr>hflags := (hflags h AND NOT 0x7800) OR (push_bit 11 (ucast opc) AND 0x7800)\<rparr>"

definition rcode_low :: "header \<Rightarrow> u16" where
  "rcode_low h = hflags h AND 0x000F"

definition set_rcode_low :: "u16 \<Rightarrow> header \<Rightarrow> header" where
  "set_rcode_low rc h = h\<lparr>hflags := (hflags h AND NOT 0x000F) OR (rc AND 0x000F)\<rparr>"

definition header_parse :: "header parser" where
  "header_parse = pbind dec_u16 (\<lambda>i. pbind dec_u16 (\<lambda>f. pbind dec_u16 (\<lambda>qd. pbind dec_u16 (\<lambda>an.
     pbind dec_u16 (\<lambda>ns. pbind dec_u16 (\<lambda>ar.
       preturn \<lparr>hid = i, hflags = f, qdcount = qd, ancount = an, nscount = ns, arcount = ar\<rparr>))))))"

definition header_emit :: "header \<Rightarrow> encoder \<Rightarrow> encoder" where
  "header_emit h e = enc_u16 (arcount h) (enc_u16 (nscount h) (enc_u16 (ancount h)
     (enc_u16 (qdcount h) (enc_u16 (hflags h) (enc_u16 (hid h) e)))))"

section \<open>Header fields\<close>

text \<open>
  A field of the flag word: \<open>bits\<close> are the positions it occupies. What a setter writes is what the
  getter reads, and a setter changes no other bit and no other part of the header.
\<close>

locale header_field =
  fixes get :: "header \<Rightarrow> 'v" and set :: "'v \<Rightarrow> header \<Rightarrow> header"
    and bits :: "nat set" and fits :: "'v \<Rightarrow> bool"
  assumes get_set: "fits v \<Longrightarrow> get (set v h) = v"
    and set_frame: "n < 16 \<Longrightarrow> n \<notin> bits \<Longrightarrow> bit (hflags (set v h)) n = bit (hflags h) n"
    and get_cong: "(\<And>n. n \<in> bits \<Longrightarrow> bit (hflags h) n = bit (hflags h') n) \<Longrightarrow> get h = get h'"
    and bits_bound: "n \<in> bits \<Longrightarrow> n < 16"
    and set_keeps: "hid (set v h) = hid h" "qdcount (set v h) = qdcount h"
      "ancount (set v h) = ancount h" "nscount (set v h) = nscount h" "arcount (set v h) = arcount h"
begin

text \<open>A field is untouched by the setter of a field at other positions.\<close>

lemma get_other:
  assumes "header_field get2 set2 bits2 fits2" "bits \<inter> bits2 = {}"
  shows "get (set2 v h) = get h"
proof (rule get_cong)
  fix n
  assume n: "n \<in> bits"
  then have "n \<notin> bits2" using assms(2) by auto
  then show "bit (hflags (set2 v h)) n = bit (hflags h) n"
    using header_field.set_frame [OF assms(1)] bits_bound [OF n] by blast
qed

end

lemma flag_field:
  assumes "k < 16"
  shows "header_field (flag_get (2 ^ k)) (flag_set (2 ^ k)) {k} (\<lambda>_. True)"
proof
  have get: "flag_get (2 ^ k) h = bit (hflags h) k" for h
  proof -
    have "hflags h AND 2 ^ k = 0 \<longleftrightarrow> \<not> bit (hflags h) k"
      using assms unfolding bit_eq_iff by (auto simp: bit_simps)
    then show ?thesis by (simp add: flag_get_def)
  qed
  fix v h h' n
  show "flag_get (2 ^ k) (flag_set (2 ^ k) v h) = v"
    using assms by (cases v) (simp_all add: get flag_set_def bit_simps)
  show "bit (hflags (flag_set (2 ^ k) v h)) n = bit (hflags h) n" if "n < 16" "n \<notin> {k}"
    using that by (cases v) (auto simp: flag_set_def bit_simps)
  show "flag_get (2 ^ k) h = flag_get (2 ^ k) h'"
    if "\<And>n. n \<in> {k} \<Longrightarrow> bit (hflags h) n = bit (hflags h') n"
    using that by (simp add: get)
qed (use assms in \<open>auto simp: flag_set_def\<close>)

interpretation f_qr: header_field hdr_qr set_qr "{15}" "\<lambda>_. True"
  using flag_field [of 15] by (simp add: hdr_qr_def set_qr_def)

interpretation f_aa: header_field hdr_aa set_aa "{10}" "\<lambda>_. True"
  using flag_field [of 10] by (simp add: hdr_aa_def set_aa_def)

interpretation f_tc: header_field hdr_tc set_tc "{9}" "\<lambda>_. True"
  using flag_field [of 9] by (simp add: hdr_tc_def set_tc_def)

interpretation f_rd: header_field hdr_rd set_rd "{8}" "\<lambda>_. True"
  using flag_field [of 8] by (simp add: hdr_rd_def set_rd_def)

interpretation f_ra: header_field hdr_ra set_ra "{7}" "\<lambda>_. True"
  using flag_field [of 7] by (simp add: hdr_ra_def set_ra_def)

interpretation f_ad: header_field hdr_ad set_ad "{5}" "\<lambda>_. True"
  using flag_field [of 5] by (simp add: hdr_ad_def set_ad_def)

interpretation f_cd: header_field hdr_cd set_cd "{4}" "\<lambda>_. True"
  using flag_field [of 4] by (simp add: hdr_cd_def set_cd_def)

lemma opcode_masks: "(0x7800 :: u16) = push_bit 11 (mask 4)" "(0x000F :: u16) = mask 4"
  by (simp_all add: mask_eq_exp_minus_1)

interpretation f_opcode: header_field hdr_opcode set_opcode "{11..<15}" "\<lambda>v. v < 16"
proof
  fix v :: byte and h h' :: header and n :: nat
  show "hdr_opcode (set_opcode v h) = v" if "v < 16"
  proof (rule bit_word_eqI)
    fix n
    assume "n < LENGTH(8)"
    have "unat v < 2 ^ 4" using that by (simp add: word_less_nat_alt)
    then have "bit v n \<longleftrightarrow> n < 4 \<and> bit v n" using bit_bounded by blast
    then show "bit (hdr_opcode (set_opcode v h)) n = bit v n"
      using \<open>n < LENGTH(8)\<close> unfolding hdr_opcode_def set_opcode_def opcode_masks
      by (auto simp: bit_simps)
  qed
  show "bit (hflags (set_opcode v h)) n = bit (hflags h) n" if "n < 16" "n \<notin> {11..<15}"
    using that unfolding set_opcode_def opcode_masks by (auto simp: bit_simps)
  show "hdr_opcode h = hdr_opcode h'"
    if "\<And>n. n \<in> {11..<15} \<Longrightarrow> bit (hflags h) n = bit (hflags h') n"
    unfolding hdr_opcode_def opcode_masks
    by (rule bit_word_eqI) (use that in \<open>auto simp: bit_simps\<close>)
qed (auto simp: set_opcode_def)

interpretation f_rcode: header_field rcode_low set_rcode_low "{0..<4}" "\<lambda>v. v < 16"
proof
  fix v :: u16 and h h' :: header and n :: nat
  show "rcode_low (set_rcode_low v h) = v" if "v < 16"
  proof (rule bit_word_eqI)
    fix n
    assume "n < LENGTH(16)"
    have "unat v < 2 ^ 4" using that by (simp add: word_less_nat_alt)
    then have "bit v n \<longleftrightarrow> n < 4 \<and> bit v n" using bit_bounded by blast
    then show "bit (rcode_low (set_rcode_low v h)) n = bit v n"
      using \<open>n < LENGTH(16)\<close> unfolding rcode_low_def set_rcode_low_def opcode_masks
      by (auto simp: bit_simps)
  qed
  show "bit (hflags (set_rcode_low v h)) n = bit (hflags h) n" if "n < 16" "n \<notin> {0..<4}"
    using that unfolding set_rcode_low_def opcode_masks by (auto simp: bit_simps)
  show "rcode_low h = rcode_low h'"
    if "\<And>n. n \<in> {0..<4} \<Longrightarrow> bit (hflags h) n = bit (hflags h') n"
    unfolding rcode_low_def opcode_masks
    by (rule bit_word_eqI) (use that in \<open>auto simp: bit_simps\<close>)
qed (auto simp: set_rcode_low_def)

section \<open>Facts for the clients\<close>

text \<open>Every getter is unchanged by the setter of every other field.\<close>

lemmas header_frame [simp] =
  f_qr.get_other [OF f_aa.header_field_axioms, simplified]
  f_qr.get_other [OF f_tc.header_field_axioms, simplified]
  f_qr.get_other [OF f_rd.header_field_axioms, simplified]
  f_qr.get_other [OF f_ra.header_field_axioms, simplified]
  f_qr.get_other [OF f_ad.header_field_axioms, simplified]
  f_qr.get_other [OF f_cd.header_field_axioms, simplified]
  f_qr.get_other [OF f_opcode.header_field_axioms, simplified]
  f_qr.get_other [OF f_rcode.header_field_axioms, simplified]
  f_aa.get_other [OF f_qr.header_field_axioms, simplified]
  f_aa.get_other [OF f_tc.header_field_axioms, simplified]
  f_aa.get_other [OF f_rd.header_field_axioms, simplified]
  f_aa.get_other [OF f_ra.header_field_axioms, simplified]
  f_aa.get_other [OF f_ad.header_field_axioms, simplified]
  f_aa.get_other [OF f_cd.header_field_axioms, simplified]
  f_aa.get_other [OF f_opcode.header_field_axioms, simplified]
  f_aa.get_other [OF f_rcode.header_field_axioms, simplified]
  f_tc.get_other [OF f_qr.header_field_axioms, simplified]
  f_tc.get_other [OF f_aa.header_field_axioms, simplified]
  f_tc.get_other [OF f_rd.header_field_axioms, simplified]
  f_tc.get_other [OF f_ra.header_field_axioms, simplified]
  f_tc.get_other [OF f_ad.header_field_axioms, simplified]
  f_tc.get_other [OF f_cd.header_field_axioms, simplified]
  f_tc.get_other [OF f_opcode.header_field_axioms, simplified]
  f_tc.get_other [OF f_rcode.header_field_axioms, simplified]
  f_rd.get_other [OF f_qr.header_field_axioms, simplified]
  f_rd.get_other [OF f_aa.header_field_axioms, simplified]
  f_rd.get_other [OF f_tc.header_field_axioms, simplified]
  f_rd.get_other [OF f_ra.header_field_axioms, simplified]
  f_rd.get_other [OF f_ad.header_field_axioms, simplified]
  f_rd.get_other [OF f_cd.header_field_axioms, simplified]
  f_rd.get_other [OF f_opcode.header_field_axioms, simplified]
  f_rd.get_other [OF f_rcode.header_field_axioms, simplified]
  f_ra.get_other [OF f_qr.header_field_axioms, simplified]
  f_ra.get_other [OF f_aa.header_field_axioms, simplified]
  f_ra.get_other [OF f_tc.header_field_axioms, simplified]
  f_ra.get_other [OF f_rd.header_field_axioms, simplified]
  f_ra.get_other [OF f_ad.header_field_axioms, simplified]
  f_ra.get_other [OF f_cd.header_field_axioms, simplified]
  f_ra.get_other [OF f_opcode.header_field_axioms, simplified]
  f_ra.get_other [OF f_rcode.header_field_axioms, simplified]
  f_ad.get_other [OF f_qr.header_field_axioms, simplified]
  f_ad.get_other [OF f_aa.header_field_axioms, simplified]
  f_ad.get_other [OF f_tc.header_field_axioms, simplified]
  f_ad.get_other [OF f_rd.header_field_axioms, simplified]
  f_ad.get_other [OF f_ra.header_field_axioms, simplified]
  f_ad.get_other [OF f_cd.header_field_axioms, simplified]
  f_ad.get_other [OF f_opcode.header_field_axioms, simplified]
  f_ad.get_other [OF f_rcode.header_field_axioms, simplified]
  f_cd.get_other [OF f_qr.header_field_axioms, simplified]
  f_cd.get_other [OF f_aa.header_field_axioms, simplified]
  f_cd.get_other [OF f_tc.header_field_axioms, simplified]
  f_cd.get_other [OF f_rd.header_field_axioms, simplified]
  f_cd.get_other [OF f_ra.header_field_axioms, simplified]
  f_cd.get_other [OF f_ad.header_field_axioms, simplified]
  f_cd.get_other [OF f_opcode.header_field_axioms, simplified]
  f_cd.get_other [OF f_rcode.header_field_axioms, simplified]
  f_opcode.get_other [OF f_qr.header_field_axioms, simplified]
  f_opcode.get_other [OF f_aa.header_field_axioms, simplified]
  f_opcode.get_other [OF f_tc.header_field_axioms, simplified]
  f_opcode.get_other [OF f_rd.header_field_axioms, simplified]
  f_opcode.get_other [OF f_ra.header_field_axioms, simplified]
  f_opcode.get_other [OF f_ad.header_field_axioms, simplified]
  f_opcode.get_other [OF f_cd.header_field_axioms, simplified]
  f_opcode.get_other [OF f_rcode.header_field_axioms, simplified]
  f_rcode.get_other [OF f_qr.header_field_axioms, simplified]
  f_rcode.get_other [OF f_aa.header_field_axioms, simplified]
  f_rcode.get_other [OF f_tc.header_field_axioms, simplified]
  f_rcode.get_other [OF f_rd.header_field_axioms, simplified]
  f_rcode.get_other [OF f_ra.header_field_axioms, simplified]
  f_rcode.get_other [OF f_ad.header_field_axioms, simplified]
  f_rcode.get_other [OF f_cd.header_field_axioms, simplified]
  f_rcode.get_other [OF f_opcode.header_field_axioms, simplified]

lemmas header_get_set [simp] =
  f_qr.get_set f_aa.get_set f_tc.get_set f_rd.get_set f_ra.get_set f_ad.get_set f_cd.get_set
  f_opcode.get_set f_rcode.get_set

lemmas header_set_keeps [simp] =
  f_qr.set_keeps f_aa.set_keeps f_tc.set_keeps f_rd.set_keeps f_ra.set_keeps f_ad.set_keeps
  f_cd.set_keeps f_opcode.set_keeps f_rcode.set_keeps

definition header_wire :: "header \<Rightarrow> byte list" where
  "header_wire h = u16_to_be (hid h) @ u16_to_be (hflags h) @ u16_to_be (qdcount h) @
     u16_to_be (ancount h) @ u16_to_be (nscount h) @ u16_to_be (arcount h)"

lemma length_header_wire [simp]: "length (header_wire h) = 12"
  by (simp add: header_wire_def)

lemma header_emit_wire: "header_emit h e = enc_bytes (header_wire h) e"
  by (simp add: header_emit_def header_wire_def enc_u16_def enc_bytes_def)

lemma header_parse_at:
  assumes "bytes_at buf pos (header_wire h)"
  shows "header_parse \<lparr>dbuf = buf, dpos = pos\<rparr> = Inr (h, \<lparr>dbuf = buf, dpos = pos + 12\<rparr>)"
  using assms unfolding header_parse_def header_wire_def bytes_at_append length_u16_to_be
  by (elim conjE) ((rule reads_bind, rule dec_u16_at, assumption)+, simp add: preturn_def)

interpretation header_parser: stable_parser header_parse 12
proof -
  note u = u16_parser.stable_parser_axioms
  have "stable_parser header_parse (2 + (2 + (2 + (2 + (2 + 2)))))"
    unfolding header_parse_def by (intro stable_parser_pbind stable_parser_map u)
  then show "stable_parser header_parse 12" by simp
qed

end
