(* ===== verification/Wire_Rdata.thy ===== *)
theory Wire_Rdata
  imports Wire_Header
begin

text \<open>
  Record data (\<open>wire/rdata.rs\<close>): structured for the types the server inspects, opaque for the rest.
  \<open>rdata_wire\<close> is the layout each emitter writes; \<open>rdata_ok\<close> says when a value can be carried by a
  record of a given type.
\<close>

section \<open>The code\<close>

text \<open>An \<open>Ipv4Addr\<close> is its 32-bit value, an \<open>Ipv6Addr\<close> its 128-bit value.\<close>

datatype rdata =
    A u32
  | Aaaa u128
  | Ns name
  | Cname name
  | Ptr name
  | Soa (soa_mname: name) (soa_rname: name) (soa_serial: u32) (soa_refresh: u32) (soa_retry: u32)
      (soa_expire: u32) (soa_minimum: u32)
  | Mx u16 name
  | Txt "byte list list"
  | Srv u16 u16 u16 name
  | Caa byte "byte list" "byte list"
  | Svcb u16 name "(u16 \<times> byte list) list"
  | Unknown u16 "byte list"

fun rdata_rtype :: "rdata \<Rightarrow> u16" where
  "rdata_rtype (A _) = rtype_A"
| "rdata_rtype (Aaaa _) = rtype_AAAA"
| "rdata_rtype (Ns _) = rtype_NS"
| "rdata_rtype (Cname _) = rtype_CNAME"
| "rdata_rtype (Ptr _) = rtype_PTR"
| "rdata_rtype (Soa _ _ _ _ _ _ _) = rtype_SOA"
| "rdata_rtype (Mx _ _) = rtype_MX"
| "rdata_rtype (Txt _) = rtype_TXT"
| "rdata_rtype (Srv _ _ _ _) = rtype_SRV"
| "rdata_rtype (Caa _ _ _) = rtype_CAA"
| "rdata_rtype (Svcb _ _ _) = rtype_SVCB"
| "rdata_rtype (Unknown t _) = t"

text \<open>The character-string loop of a TXT record, up to the end of the RDATA.\<close>

function txt_loop :: "nat \<Rightarrow> byte list list \<Rightarrow> byte list list parser" where
  "txt_loop end strings d =
     (if dpos d < end then
        (case dec_u8 d of
           Inl err \<Rightarrow> Inl err
         | Inr (len, d1) \<Rightarrow>
             if dpos d1 + unat len > end then Inl BadCharString
             else (case dec_slice (unat len) d1 of
                     Inl err \<Rightarrow> Inl err
                   | Inr (s, d2) \<Rightarrow> txt_loop end (strings @ [s]) d2))
      else Inr (strings, d))"
  by pat_completeness auto
termination
proof (relation "measure (\<lambda>(end, strings, d). end - dpos d)", goal_cases)
  case (2 fin strings d r len d1 r' s d2)
  then have "dec_u8 d = Inr (len, d1)" "dec_slice (unat len) d1 = Inr (s, d2)" by auto
  from u8_parser.advances [OF this(1)] slice_parser.advances [OF this(2)] 2 show ?case by simp
qed simp

text \<open>The parameter loop of an SVCB or HTTPS record.\<close>

function svcb_loop :: "nat \<Rightarrow> (u16 \<times> byte list) list \<Rightarrow> (u16 \<times> byte list) list parser" where
  "svcb_loop end params d =
     (if dpos d < end then
        (case dec_u16 d of
           Inl err \<Rightarrow> Inl err
         | Inr (key, d1) \<Rightarrow>
           (case dec_u16 d1 of
              Inl err \<Rightarrow> Inl err
            | Inr (vlen, d2) \<Rightarrow>
                if dpos d2 + unat vlen > end then Inl BadRdataLength
                else (case dec_slice (unat vlen) d2 of
                        Inl err \<Rightarrow> Inl err
                      | Inr (v, d3) \<Rightarrow> svcb_loop end (params @ [(key, v)]) d3)))
      else Inr (params, d))"
  by pat_completeness auto
termination
proof (relation "measure (\<lambda>(end, params, d). end - dpos d)", goal_cases)
  case (2 fin params d r key d1 r1 vlen d2 r2 v d3)
  then have "dec_u16 d = Inr (key, d1)" "dec_u16 d1 = Inr (vlen, d2)"
    "dec_slice (unat vlen) d2 = Inr (v, d3)" by auto
  from u16_parser.advances [OF this(1)] u16_parser.advances [OF this(2)]
    slice_parser.advances [OF this(3)] 2 show ?case by simp
qed simp

declare txt_loop.simps [simp del] svcb_loop.simps [simp del]

text \<open>A CAA record: flags, tag, and the value up to the end of the RDATA.\<close>

definition caa_parse :: "nat \<Rightarrow> rdata parser" where
  "caa_parse end = pbind dec_u8 (\<lambda>flags. pbind dec_u8 (\<lambda>taglen d.
     if dpos d + unat taglen > end then Inl BadRdataLength
     else pbind (dec_slice (unat taglen)) (\<lambda>tag d.
            pbind (dec_slice (end - dpos d)) (\<lambda>v. preturn (Caa flags tag v)) d) d))"

text \<open>The \<open>match rtype_num\<close> of \<open>Rdata::parse\<close>.\<close>

definition rdata_body :: "u16 \<Rightarrow> u16 \<Rightarrow> nat \<Rightarrow> rdata parser" where
  "rdata_body rt rdlength end =
     (if rt = rtype_A then
        pbind (dec_slice 4) (\<lambda>s. preturn (A (be_word s)))
      else if rt = rtype_AAAA then
        pbind (dec_slice 16) (\<lambda>s. preturn (Aaaa (be_word s)))
      else if rt = rtype_NS then pbind name_parse (\<lambda>n. preturn (Ns n))
      else if rt = rtype_CNAME then pbind name_parse (\<lambda>n. preturn (Cname n))
      else if rt = rtype_PTR then pbind name_parse (\<lambda>n. preturn (Ptr n))
      else if rt = rtype_SOA then
        pbind name_parse (\<lambda>mname. pbind name_parse (\<lambda>rname.
        pbind dec_u32 (\<lambda>serial. pbind dec_u32 (\<lambda>refresh. pbind dec_u32 (\<lambda>retry.
        pbind dec_u32 (\<lambda>expire. pbind dec_u32 (\<lambda>minimum.
          preturn (Soa mname rname serial refresh retry expire minimum))))))))
      else if rt = rtype_MX then
        pbind dec_u16 (\<lambda>preference. pbind name_parse (\<lambda>exchange. preturn (Mx preference exchange)))
      else if rt = rtype_TXT then pbind (txt_loop end []) (\<lambda>ss. preturn (Txt ss))
      else if rt = rtype_SRV then
        pbind dec_u16 (\<lambda>priority. pbind dec_u16 (\<lambda>weight. pbind dec_u16 (\<lambda>port.
        pbind name_parse (\<lambda>target. preturn (Srv priority weight port target)))))
      else if rt = rtype_CAA then caa_parse end
      else if rt = rtype_SVCB \<or> rt = rtype_HTTPS then
        pbind dec_u16 (\<lambda>priority. pbind name_parse (\<lambda>target.
        pbind (svcb_loop end []) (\<lambda>params. preturn (Svcb priority target params))))
      else pbind (dec_slice (unat rdlength)) (\<lambda>data. preturn (Unknown rt data)))"

definition rdata_parse :: "u16 \<Rightarrow> u16 \<Rightarrow> rdata parser" where
  "rdata_parse rt rdlength d =
     (let start = dpos d; end = start + unat rdlength in
      if end > length (dbuf d) then Inl BadRdataLength
      else if rdlength = 0 then Inr (Unknown rt [], d)
      else (case rdata_body rt rdlength end d of
              Inl err \<Rightarrow> Inl err
            | Inr (rd, d') \<Rightarrow> if dpos d' \<noteq> end then Inl BadRdataLength else Inr (rd, d')))"

text \<open>\<open>ip.octets()\<close> are the big-endian octets. The string and parameter lengths are truncated casts.\<close>

fun rdata_emit :: "rdata \<Rightarrow> encoder \<Rightarrow> encoder" where
  "rdata_emit (A ip) e = enc_bytes (be_bytes 4 ip) e"
| "rdata_emit (Aaaa ip) e = enc_bytes (be_bytes 16 ip) e"
| "rdata_emit (Ns n) e = name_emit_raw n e"
| "rdata_emit (Cname n) e = name_emit_raw n e"
| "rdata_emit (Ptr n) e = name_emit_raw n e"
| "rdata_emit (Soa mname rname serial refresh retry expire minimum) e =
     enc_u32 minimum (enc_u32 expire (enc_u32 retry (enc_u32 refresh (enc_u32 serial
       (name_emit_raw rname (name_emit_raw mname e))))))"
| "rdata_emit (Mx preference exchange) e = name_emit_raw exchange (enc_u16 preference e)"
| "rdata_emit (Txt strings) e = fold (\<lambda>s e. enc_bytes s (enc_u8 (of_nat (length s)) e)) strings e"
| "rdata_emit (Srv priority weight port target) e =
     name_emit_raw target (enc_u16 port (enc_u16 weight (enc_u16 priority e)))"
| "rdata_emit (Caa flags tag val) e =
     enc_bytes val (enc_bytes tag (enc_u8 (of_nat (length tag)) (enc_u8 flags e)))"
| "rdata_emit (Svcb priority target params) e =
     fold (\<lambda>(key, val) e. enc_bytes val (enc_u16 (of_nat (length val)) (enc_u16 key e))) params
       (name_emit_raw target (enc_u16 priority e))"
| "rdata_emit (Unknown _ data) e = enc_bytes data e"

fun rdata_emit_canonical :: "rdata \<Rightarrow> encoder \<Rightarrow> encoder" where
  "rdata_emit_canonical (A ip) e = enc_bytes (be_bytes 4 ip) e"
| "rdata_emit_canonical (Aaaa ip) e = enc_bytes (be_bytes 16 ip) e"
| "rdata_emit_canonical (Ns n) e = name_emit_canonical n e"
| "rdata_emit_canonical (Cname n) e = name_emit_canonical n e"
| "rdata_emit_canonical (Ptr n) e = name_emit_canonical n e"
| "rdata_emit_canonical (Soa mname rname serial refresh retry expire minimum) e =
     enc_u32 minimum (enc_u32 expire (enc_u32 retry (enc_u32 refresh (enc_u32 serial
       (name_emit_canonical rname (name_emit_canonical mname e))))))"
| "rdata_emit_canonical (Mx preference exchange) e =
     name_emit_canonical exchange (enc_u16 preference e)"
| "rdata_emit_canonical (Txt strings) e =
     fold (\<lambda>s e. enc_bytes s (enc_u8 (of_nat (length s)) e)) strings e"
| "rdata_emit_canonical (Srv priority weight port target) e =
     name_emit_canonical target (enc_u16 port (enc_u16 weight (enc_u16 priority e)))"
| "rdata_emit_canonical (Caa flags tag val) e =
     enc_bytes val (enc_bytes tag (enc_u8 (of_nat (length tag)) (enc_u8 flags e)))"
| "rdata_emit_canonical (Svcb priority target params) e =
     fold (\<lambda>(key, val) e. enc_bytes val (enc_u16 (of_nat (length val)) (enc_u16 key e))) params
       (name_emit_canonical target (enc_u16 priority e))"
| "rdata_emit_canonical (Unknown _ data) e = enc_bytes data e"

section \<open>The layout of record data\<close>

definition txt_wire :: "byte list list \<Rightarrow> byte list" where
  "txt_wire ss = concat (map (\<lambda>s. of_nat (length s) # s) ss)"

definition svcb_wire :: "(u16 \<times> byte list) list \<Rightarrow> byte list" where
  "svcb_wire ps = concat (map (\<lambda>(k, v). u16_to_be k @ u16_to_be (of_nat (length v)) @ v) ps)"

fun rdata_wire :: "rdata \<Rightarrow> byte list" where
  "rdata_wire (A ip) = be_bytes 4 ip"
| "rdata_wire (Aaaa ip) = be_bytes 16 ip"
| "rdata_wire (Ns n) = name_wire n"
| "rdata_wire (Cname n) = name_wire n"
| "rdata_wire (Ptr n) = name_wire n"
| "rdata_wire (Soa mname rname serial refresh retry expire minimum) =
     name_wire mname @ name_wire rname @ u32_to_be serial @ u32_to_be refresh @ u32_to_be retry @
     u32_to_be expire @ u32_to_be minimum"
| "rdata_wire (Mx preference exchange) = u16_to_be preference @ name_wire exchange"
| "rdata_wire (Txt strings) = txt_wire strings"
| "rdata_wire (Srv priority weight port target) =
     u16_to_be priority @ u16_to_be weight @ u16_to_be port @ name_wire target"
| "rdata_wire (Caa flags tag val) = [flags] @ [of_nat (length tag)] @ tag @ val"
| "rdata_wire (Svcb priority target params) =
     u16_to_be priority @ name_wire target @ svcb_wire params"
| "rdata_wire (Unknown _ data) = data"

lemma enc_bytes_append: "enc_bytes ys (enc_bytes xs e) = enc_bytes (xs @ ys) e"
  by (simp add: enc_bytes_def)

lemma enc_bytes_Nil [simp]: "enc_bytes [] e = e"
  by (simp add: enc_bytes_def)

lemma enc_scalars_bytes:
  "enc_u8 b e = enc_bytes [b] e" "enc_u16 v e = enc_bytes (u16_to_be v) e"
  "enc_u32 w e = enc_bytes (u32_to_be w) e" "name_emit_raw n e = enc_bytes (name_wire n) e"
  by (simp_all add: enc_u8_def enc_u16_def enc_u32_def enc_bytes_def name_emit_raw_def)

lemma fold_enc_txt:
  "fold (\<lambda>s e. enc_bytes s (enc_u8 (of_nat (length s)) e)) ss e = enc_bytes (txt_wire ss) e"
  by (induction ss arbitrary: e) (auto simp: txt_wire_def enc_scalars_bytes enc_bytes_append)

lemma fold_enc_svcb:
  "fold (\<lambda>(key, val) e. enc_bytes val (enc_u16 (of_nat (length val)) (enc_u16 key e))) ps e =
     enc_bytes (svcb_wire ps) e"
  by (induction ps arbitrary: e) (auto simp: svcb_wire_def enc_scalars_bytes enc_bytes_append)

lemma rdata_emit_wire: "rdata_emit rd e = enc_bytes (rdata_wire rd) e"
  by (cases rd; simp only: rdata_emit.simps fold_enc_txt fold_enc_svcb;
    simp only: rdata_wire.simps enc_scalars_bytes enc_bytes_append append_assoc)

text \<open>Which record data a record of type \<open>rt\<close> can carry so that it is read back as it is.\<close>

abbreviation (input) structured_types :: "u16 set" where
  "structured_types \<equiv> {rtype_A, rtype_AAAA, rtype_NS, rtype_CNAME, rtype_PTR, rtype_SOA, rtype_MX,
     rtype_TXT, rtype_SRV, rtype_CAA, rtype_SVCB, rtype_HTTPS}"

fun rdata_carries :: "u16 \<Rightarrow> rdata \<Rightarrow> bool" where
  "rdata_carries rt (Unknown t data) \<longleftrightarrow> t = rt \<and> (data = [] \<or> rt \<notin> structured_types)"
| "rdata_carries rt (Svcb _ n ps) \<longleftrightarrow> (rt = rtype_SVCB \<or> rt = rtype_HTTPS) \<and> valid_name n \<and>
     list_all (\<lambda>(k, v). length v \<le> 65535) ps"
| "rdata_carries rt (A _) \<longleftrightarrow> rt = rtype_A"
| "rdata_carries rt (Aaaa _) \<longleftrightarrow> rt = rtype_AAAA"
| "rdata_carries rt (Ns n) \<longleftrightarrow> rt = rtype_NS \<and> valid_name n"
| "rdata_carries rt (Cname n) \<longleftrightarrow> rt = rtype_CNAME \<and> valid_name n"
| "rdata_carries rt (Ptr n) \<longleftrightarrow> rt = rtype_PTR \<and> valid_name n"
| "rdata_carries rt (Soa m r _ _ _ _ _) \<longleftrightarrow> rt = rtype_SOA \<and> valid_name m \<and> valid_name r"
| "rdata_carries rt (Mx _ n) \<longleftrightarrow> rt = rtype_MX \<and> valid_name n"
| "rdata_carries rt (Txt ss) \<longleftrightarrow> rt = rtype_TXT \<and> ss \<noteq> [] \<and> list_all (\<lambda>s. length s \<le> 255) ss"
| "rdata_carries rt (Srv _ _ _ n) \<longleftrightarrow> rt = rtype_SRV \<and> valid_name n"
| "rdata_carries rt (Caa _ tag _) \<longleftrightarrow> rt = rtype_CAA \<and> length tag \<le> 255"

definition rdata_ok :: "u16 \<Rightarrow> rdata \<Rightarrow> bool" where
  "rdata_ok rt rd \<longleftrightarrow> rdata_carries rt rd \<and> length (rdata_wire rd) \<le> 65535"

section \<open>Reading record data back\<close>

lemma txt_loop_at:
  assumes "bytes_at buf pos (txt_wire ss)" "list_all (\<lambda>s. length s \<le> 255) ss"
    "fin = pos + length (txt_wire ss)"
  shows "txt_loop fin acc \<lparr>dbuf = buf, dpos = pos\<rparr> = Inr (acc @ ss, \<lparr>dbuf = buf, dpos = fin\<rparr>)"
  using assms
proof (induction ss arbitrary: pos acc)
  case Nil
  then show ?case by (subst txt_loop.simps) (simp add: txt_wire_def)
next
  case (Cons s ss)
  have w: "txt_wire (s # ss) = [of_nat (length s)] @ s @ txt_wire ss" by (simp add: txt_wire_def)
  from Cons.prems(1) have b: "bytes_at buf pos [of_nat (length s)]" "bytes_at buf (pos + 1) s"
    "bytes_at buf (pos + 1 + length s) (txt_wire ss)" unfolding w bytes_at_append by simp_all
  have n: "unat (of_nat (length s) :: byte) = length s"
    using Cons.prems(2) by (simp add: unat_of_nat)
  have fin: "fin = pos + 1 + length s + length (txt_wire ss)" using Cons.prems(3) by (simp add: w)
  have "txt_loop fin (acc @ [s]) \<lparr>dbuf = buf, dpos = pos + 1 + length s\<rparr> =
      Inr ((acc @ [s]) @ ss, \<lparr>dbuf = buf, dpos = fin\<rparr>)"
    using Cons.IH [OF b(3) _ fin] Cons.prems(2) by simp
  with fin show ?case
    by (subst txt_loop.simps)
      (simp add: dec_u8_at [OF b(1)] dec_slice_at [OF b(2) refl, simplified] n)
qed

lemma svcb_loop_at:
  assumes "bytes_at buf pos (svcb_wire ps)" "list_all (\<lambda>(k, v). length v \<le> 65535) ps"
    "fin = pos + length (svcb_wire ps)"
  shows "svcb_loop fin acc \<lparr>dbuf = buf, dpos = pos\<rparr> = Inr (acc @ ps, \<lparr>dbuf = buf, dpos = fin\<rparr>)"
  using assms
proof (induction ps arbitrary: pos acc)
  case Nil
  then show ?case by (subst svcb_loop.simps) (simp add: svcb_wire_def)
next
  case (Cons p ps)
  obtain k v where p: "p = (k, v)" by (cases p)
  have w: "svcb_wire (p # ps) = u16_to_be k @ u16_to_be (of_nat (length v)) @ v @ svcb_wire ps"
    by (simp add: svcb_wire_def p)
  from Cons.prems(1) have b: "bytes_at buf pos (u16_to_be k)"
    "bytes_at buf (pos + 2) (u16_to_be (of_nat (length v)))" "bytes_at buf (pos + 2 + 2) v"
    "bytes_at buf (pos + 2 + 2 + length v) (svcb_wire ps)"
    unfolding w bytes_at_append length_u16_to_be by simp_all
  have n: "unat (of_nat (length v) :: u16) = length v"
    using Cons.prems(2) by (simp add: unat_of_nat p)
  have fin: "fin = pos + 2 + 2 + length v + length (svcb_wire ps)"
    using Cons.prems(3) by (simp add: w)
  have "svcb_loop fin (acc @ [(k, v)]) \<lparr>dbuf = buf, dpos = pos + 2 + 2 + length v\<rparr> =
      Inr ((acc @ [(k, v)]) @ ps, \<lparr>dbuf = buf, dpos = fin\<rparr>)"
    using Cons.IH [OF b(4) _ fin] Cons.prems(2) by simp
  with fin show ?case
    by (subst svcb_loop.simps)
      (simp add: dec_u16_at [OF b(1)] dec_u16_at [OF b(2), simplified]
        dec_slice_at [OF b(3) refl, simplified] n p)
qed


lemmas reads_scalar = dec_u8_at dec_u16_at dec_u32_at name_parse_raw

lemma caa_parse_at:
  assumes "bytes_at buf pos (rdata_wire (Caa flags tag v))" "length tag \<le> 255"
    "fin = pos + length (rdata_wire (Caa flags tag v))"
  shows "caa_parse fin \<lparr>dbuf = buf, dpos = pos\<rparr> =
    Inr (Caa flags tag v, \<lparr>dbuf = buf, dpos = fin\<rparr>)"
proof -
  have b: "bytes_at buf pos [flags]" "bytes_at buf (pos + 1) [of_nat (length tag)]"
    "bytes_at buf (pos + 1 + 1) tag" "bytes_at buf (pos + 1 + 1 + length tag) v"
    using assms(1) unfolding rdata_wire.simps bytes_at_append by simp_all
  have n: "unat (of_nat (length tag) :: byte) = length tag"
    using assms(2) by (simp add: unat_of_nat)
  show ?thesis unfolding caa_parse_def assms(3)
    by (simp add: pbind_def preturn_def n dec_u8_at [OF b(1)] dec_u8_at [OF b(2), simplified]
        dec_slice_at [OF b(3) refl, simplified] dec_slice_at [OF b(4) refl, simplified])
qed

text \<open>The branch of \<open>rdata_body\<close> for each type whose data mixes scalars and names.\<close>

lemmas rdata_body_branch =
  rdata_body_def [of rtype_NS, simplified] rdata_body_def [of rtype_CNAME, simplified]
  rdata_body_def [of rtype_PTR, simplified] rdata_body_def [of rtype_SOA, simplified]
  rdata_body_def [of rtype_MX, simplified] rdata_body_def [of rtype_SRV, simplified]
  rdata_body_def [of rtype_SVCB, simplified] rdata_body_def [of rtype_HTTPS, simplified]

lemma rdata_body_soa_at:
  assumes "bytes_at buf pos (rdata_wire (Soa m r s1 s2 s3 s4 s5))" "valid_name m" "valid_name r"
  shows "rdata_body rtype_SOA l fin \<lparr>dbuf = buf, dpos = pos\<rparr> = Inr (Soa m r s1 s2 s3 s4 s5,
    \<lparr>dbuf = buf, dpos = pos + length (rdata_wire (Soa m r s1 s2 s3 s4 s5))\<rparr>)"
  using assms unfolding rdata_wire.simps bytes_at_append length_u32_to_be rdata_body_branch
  by (elim conjE) ((rule reads_bind, rule name_parse_raw, assumption, assumption)+,
    (rule reads_bind, rule dec_u32_at, assumption)+, simp add: preturn_def)

lemma rdata_body_mx_at:
  assumes "bytes_at buf pos (rdata_wire (Mx p n))" "valid_name n"
  shows "rdata_body rtype_MX l fin \<lparr>dbuf = buf, dpos = pos\<rparr> = Inr (Mx p n,
    \<lparr>dbuf = buf, dpos = pos + length (rdata_wire (Mx p n))\<rparr>)"
  using assms unfolding rdata_wire.simps bytes_at_append length_u16_to_be rdata_body_branch
  by (elim conjE) (rule reads_bind, rule dec_u16_at, assumption,
    rule reads_bind, rule name_parse_raw, assumption, assumption, simp add: preturn_def)

lemma rdata_body_srv_at:
  assumes "bytes_at buf pos (rdata_wire (Srv a b c n))" "valid_name n"
  shows "rdata_body rtype_SRV l fin \<lparr>dbuf = buf, dpos = pos\<rparr> = Inr (Srv a b c n,
    \<lparr>dbuf = buf, dpos = pos + length (rdata_wire (Srv a b c n))\<rparr>)"
  using assms unfolding rdata_wire.simps bytes_at_append length_u16_to_be rdata_body_branch
  by (elim conjE) ((rule reads_bind, rule dec_u16_at, assumption)+,
    rule reads_bind, rule name_parse_raw, assumption, assumption, simp add: preturn_def)

lemma rdata_body_svcb_at:
  assumes "bytes_at buf pos (rdata_wire (Svcb p n ps))" "rdata_carries rt (Svcb p n ps)"
    "fin = pos + length (rdata_wire (Svcb p n ps))"
  shows "rdata_body rt l fin \<lparr>dbuf = buf, dpos = pos\<rparr> =
    Inr (Svcb p n ps, \<lparr>dbuf = buf, dpos = fin\<rparr>)"
proof -
  from assms(1) have b: "bytes_at buf pos (u16_to_be p)" "bytes_at buf (pos + 2) (name_wire n)"
    "bytes_at buf (pos + 2 + length (name_wire n)) (svcb_wire ps)"
    unfolding rdata_wire.simps bytes_at_append length_u16_to_be by simp_all
  from assms(2) have ok: "valid_name n" "list_all (\<lambda>(k, v). length v \<le> 65535) ps"
    "rt = rtype_SVCB \<or> rt = rtype_HTTPS" by simp_all
  have "svcb_loop fin [] \<lparr>dbuf = buf, dpos = pos + 2 + length (name_wire n)\<rparr> =
      Inr ([] @ ps, \<lparr>dbuf = buf, dpos = fin\<rparr>)"
    by (rule svcb_loop_at [OF b(3) ok(2)]) (simp add: assms(3))
  with ok(3) show ?thesis
    by (auto simp: rdata_body_branch pbind_def preturn_def dec_u16_at [OF b(1)]
        name_parse_raw [OF b(2) ok(1), simplified])
qed

lemma rdata_body_at:
  assumes "bytes_at buf pos (rdata_wire rd)" "rdata_ok rt rd" "rdata_wire rd \<noteq> []"
    "fin = pos + length (rdata_wire rd)"
  shows "rdata_body rt (of_nat (length (rdata_wire rd))) fin \<lparr>dbuf = buf, dpos = pos\<rparr> =
    Inr (rd, \<lparr>dbuf = buf, dpos = fin\<rparr>)"
proof -
  note defs = rdata_ok_def rdata_body_def pbind_def preturn_def
  note named = rdata_ok_def rdata_carries.simps rdata_body_soa_at rdata_body_mx_at
    rdata_body_srv_at rdata_body_svcb_at simp_thms
  show ?thesis
  proof (cases rd)
    case (Txt ss)
    with assms txt_loop_at [of buf pos ss fin "[]"] show ?thesis by (simp add: defs)
  next
    case (Caa f tag v)
    with assms caa_parse_at [of buf pos f tag v fin] show ?thesis by (simp add: defs)
  next
    case (Svcb p n ps)
    with assms rdata_body_svcb_at [of buf pos p n ps rt fin] show ?thesis
      by (simp only: rdata_ok_def simp_thms)
  next
    case (Soa m r s1 s2 s3 s4 s5)
    with assms show ?thesis by (simp only: named)
  next
    case (Mx p n)
    with assms show ?thesis by (simp only: named)
  next
    case (Srv p w q n)
    with assms show ?thesis by (simp only: named)
  next
    case (Unknown t data)
    with assms show ?thesis by (auto simp: defs dec_slice_at unat_of_nat)
  qed (use assms in \<open>simp_all add: defs dec_slice_at be_word_be_bytes name_parse_raw\<close>)
qed

lemma rdata_parse_at:
  assumes "bytes_at buf pos (rdata_wire rd)" "rdata_ok rt rd"
  shows "rdata_parse rt (of_nat (length (rdata_wire rd))) \<lparr>dbuf = buf, dpos = pos\<rparr> =
    Inr (rd, \<lparr>dbuf = buf, dpos = pos + length (rdata_wire rd)\<rparr>)"
proof -
  have len: "length (rdata_wire rd) < 65536" using assms(2) by (simp add: rdata_ok_def)
  then have n: "unat (of_nat (length (rdata_wire rd)) :: u16) = length (rdata_wire rd)"
    by (simp add: unat_of_nat)
  have fits: "pos + length (rdata_wire rd) \<le> length buf" using assms(1) by (simp add: bytes_at_def)
  show ?thesis
  proof (cases "rdata_wire rd = []")
    case True
    with assms(2) have "rd = Unknown rt []"
      by (cases rd) (auto simp: rdata_ok_def txt_wire_def be_bytes_def valid_name_def)
    with True fits show ?thesis by (simp add: rdata_parse_def)
  next
    case False
    then have "(of_nat (length (rdata_wire rd)) :: u16) \<noteq> 0" using n by (metis length_0_conv unat_0)
    with rdata_body_at [OF assms False refl] fits n show ?thesis by (simp add: rdata_parse_def Let_def)
  qed
qed

end
