(* ===== verification/Rdata_Sound.thy ===== *)
theory Rdata_Sound
  imports Wire_Rdata
begin

text \<open>
  What parsing record data guarantees about any input: the parser contract, that nothing behind the
  data is looked at, and that the value read is one a record of that type can carry, with a bound on
  its uncompressed size.
\<close>

section \<open>The loops\<close>

lemma dec_u8_step: "dec_u8 d = Inr (a, d') \<Longrightarrow> d' = d\<lparr>dpos := dpos d + 1\<rparr>"
  by (auto simp: dec_u8_def split: option.splits)

lemma dec_u16_step: "dec_u16 d = Inr (a, d') \<Longrightarrow> d' = d\<lparr>dpos := dpos d + 2\<rparr>"
  by (auto simp: dec_u16_def preturn_def elim!: pbind_eq_InrE dest!: dec_u8_step)

lemma dec_slice_step:
  "dec_slice n d = Inr (s, d') \<Longrightarrow>
     d' = d\<lparr>dpos := dpos d + n\<rparr> \<and> length s = n \<and> dpos d + n \<le> length (dbuf d)"
  by (auto simp: dec_slice_def subslice_def split: option.splits if_splits)

text \<open>
  The two loops have one shape: read an item that ends within the RDATA, append it, go on until the
  end of the RDATA is reached.
\<close>

locale item_loop =
  fixes loop :: "nat \<Rightarrow> 'a list \<Rightarrow> 'a list parser"
    and item :: "nat \<Rightarrow> 'a parser"
    and wire :: "'a \<Rightarrow> byte list"
    and wf :: "'a \<Rightarrow> bool"
  assumes unroll: "loop fin acc d =
      (if dpos d < fin then (case item fin d of Inl err \<Rightarrow> Inl err
                             | Inr (a, d1) \<Rightarrow> loop fin (acc @ [a]) d1)
       else Inr (acc, d))"
    and item_step: "item fin d = Inr (a, d1) \<Longrightarrow> dpos d < fin \<Longrightarrow>
      d1 = d\<lparr>dpos := dpos d + length (wire a)\<rparr> \<and> wf a \<and> wire a \<noteq> [] \<and> dpos d1 \<le> fin \<and>
      dpos d1 \<le> length (dbuf d)"
    and item_stable: "item fin d = Inr (a, d1) \<Longrightarrow>
      item fin (d\<lparr>dbuf := dbuf d @ x\<rparr>) = Inr (a, d1\<lparr>dbuf := dbuf d1 @ x\<rparr>)"
begin

lemma loop_sound:
  assumes "loop fin acc d = Inr (r, d')"
  shows "\<exists>as. r = acc @ as \<and> d' = d\<lparr>dpos := dpos d + length (concat (map wire as))\<rparr> \<and>
      list_all wf as \<and> (dpos d \<le> fin \<longrightarrow> dpos d' = fin) \<and>
      (dpos d \<le> length (dbuf d) \<longrightarrow> dpos d' \<le> length (dbuf d)) \<and>
      loop fin acc (d\<lparr>dbuf := dbuf d @ x\<rparr>) = Inr (r, d'\<lparr>dbuf := dbuf d' @ x\<rparr>)"
  using assms
proof (induction "fin - dpos d" arbitrary: acc d rule: less_induct)
  case less
  show ?case
  proof (cases "dpos d < fin")
    case False
    with less.prems have "r = acc" "d' = d" by (auto simp: unroll [of fin acc d])
    with False show ?thesis by (auto simp: unroll [of fin acc "d\<lparr>dbuf := dbuf d @ x\<rparr>"])
  next
    case True
    with less.prems obtain a d1 where 1: "item fin d = Inr (a, d1)"
      and rest: "loop fin (acc @ [a]) d1 = Inr (r, d')"
      by (auto simp: unroll [of fin acc d] split: sum.splits)
    note step = item_step [OF 1 True]
    then have "dpos d < dpos d1" by (cases "wire a") simp_all
    then have "fin - dpos d1 < fin - dpos d" using True by linarith
    from less.hyps [OF this rest] obtain as where as: "r = (acc @ [a]) @ as"
      "d' = d1\<lparr>dpos := dpos d1 + length (concat (map wire as))\<rparr>" "list_all wf as"
      "dpos d1 \<le> fin \<longrightarrow> dpos d' = fin" "dpos d1 \<le> length (dbuf d1) \<longrightarrow> dpos d' \<le> length (dbuf d1)"
      "loop fin (acc @ [a]) (d1\<lparr>dbuf := dbuf d1 @ x\<rparr>) = Inr (r, d'\<lparr>dbuf := dbuf d' @ x\<rparr>)" by blast
    have "loop fin acc (d\<lparr>dbuf := dbuf d @ x\<rparr>) = Inr (r, d'\<lparr>dbuf := dbuf d' @ x\<rparr>)"
      using True as(6) by (simp add: unroll [of fin acc] item_stable [OF 1])
    moreover have "d' = d\<lparr>dpos := dpos d + length (concat (map wire (a # as)))\<rparr>"
      using as(2) step by simp
    moreover have "dbuf d1 = dbuf d" using step by simp
    moreover have "dpos d1 \<le> fin" "dpos d1 \<le> length (dbuf d)" "wf a" using step by blast+
    moreover have "dpos d' = fin" "dpos d' \<le> length (dbuf d)" using as(4,5) calculation by auto
    ultimately show ?thesis using as(1,3) by (intro exI [of _ "a # as"]) simp
  qed
qed

lemma loop_parser: "stable_parser (loop fin acc) 0"
proof (unfold_locales)
  fix d r d' x
  assume "loop fin acc d = Inr (r, d')"
  note sound = loop_sound [OF this]
  show "dbuf d' = dbuf d" "dpos d + 0 \<le> dpos d'" using sound [of "[]"] by auto
  show "loop fin acc (d\<lparr>dbuf := dbuf d @ x\<rparr>) = Inr (r, d'\<lparr>dbuf := dbuf d' @ x\<rparr>)"
    using sound by blast
  show "dpos d' \<le> length (dbuf d)" if "dpos d \<le> length (dbuf d)" using sound that by blast
qed

end

definition txt_item :: "nat \<Rightarrow> byte list parser" where
  "txt_item fin = pbind dec_u8 (\<lambda>len d.
     if dpos d + unat len > fin then Inl BadCharString else dec_slice (unat len) d)"

definition svcb_item :: "nat \<Rightarrow> (u16 \<times> byte list) parser" where
  "svcb_item fin = pbind dec_u16 (\<lambda>key. pbind dec_u16 (\<lambda>vlen d.
     if dpos d + unat vlen > fin then Inl BadRdataLength
     else pbind (dec_slice (unat vlen)) (\<lambda>v. preturn (key, v)) d))"

lemma txt_item_step:
  assumes "txt_item fin d = Inr (s, d1)"
  shows "d1 = d\<lparr>dpos := dpos d + 1 + length s\<rparr> \<and> length s \<le> 255 \<and> dpos d1 \<le> fin \<and>
    dpos d1 \<le> length (dbuf d)"
proof -
  from assms obtain len d2 where 1: "dec_u8 d = Inr (len, d2)" "dpos d2 + unat len \<le> fin"
    "dec_slice (unat len) d2 = Inr (s, d1)"
    by (auto simp: txt_item_def elim!: pbind_eq_InrE split: if_splits)
  then show ?thesis using dec_u8_step [OF 1(1)] dec_slice_step [OF 1(3)] unat_byte_le [of len]
    by auto
qed

lemma svcb_item_step:
  assumes "svcb_item fin d = Inr ((k, v), d1)"
  shows "d1 = d\<lparr>dpos := dpos d + 4 + length v\<rparr> \<and> length v \<le> 65535 \<and> dpos d1 \<le> fin \<and>
    dpos d1 \<le> length (dbuf d)"
proof -
  from assms obtain d2 len d3 where 1: "dec_u16 d = Inr (k, d2)" "dec_u16 d2 = Inr (len, d3)"
    "dpos d3 + unat len \<le> fin" "dec_slice (unat len) d3 = Inr (v, d1)"
    by (auto simp: svcb_item_def preturn_def elim!: pbind_eq_InrE split: if_splits)
  then show ?thesis using dec_u16_step [OF 1(1)] dec_u16_step [OF 1(2)] dec_slice_step [OF 1(4)]
      unat_u16_le [of len] by auto
qed

text \<open>A test of the cursor that does not look at the buffer keeps a parser stable.\<close>

lemma stable_parser_guard:
  assumes "\<And>pos. stable_parser (p pos) w"
  shows "stable_parser (\<lambda>d. if c (dpos d) then Inl err else p (dpos d) d) w"
  using assms
  by unfold_locales
    (auto simp: stable_parser_def wire_parser_def stable_parser_axioms_def split: if_splits)

lemma txt_item_parser: "stable_parser (txt_item fin) 1"
proof -
  have "stable_parser (\<lambda>d. if dpos d + unat (len :: byte) > fin then Inl BadCharString
      else dec_slice (unat len) d) 0" for len
    by (rule stable_parser_guard [where p = "\<lambda>_. dec_slice (unat len)"])
      (rule stable_parser_sub [OF slice_parser.stable_parser_axioms])
  from stable_parser_pbind [OF u8_parser.stable_parser_axioms this] show ?thesis
    by (simp add: txt_item_def)
qed

lemma svcb_item_parser: "stable_parser (svcb_item fin) 4"
proof -
  have "stable_parser (\<lambda>d. if dpos d + unat (vlen :: u16) > fin then Inl BadRdataLength
      else pbind (dec_slice (unat vlen)) (\<lambda>v. preturn (key :: u16, v)) d) 0" for key vlen
    by (rule stable_parser_guard [where p = "\<lambda>_. pbind (dec_slice (unat vlen)) (\<lambda>v. preturn (key, v))"])
      (rule stable_parser_sub [OF stable_parser_map [OF slice_parser.stable_parser_axioms]])
  from stable_parser_pbind [OF u16_parser.stable_parser_axioms
      stable_parser_pbind [OF u16_parser.stable_parser_axioms this]] show ?thesis
    by (simp add: svcb_item_def)
qed

interpretation txt_items: item_loop txt_loop txt_item "\<lambda>s. of_nat (length s) # s"
  "\<lambda>s. length s \<le> 255"
proof
  show "txt_loop fin acc d = (if dpos d < fin then (case txt_item fin d of Inl err \<Rightarrow> Inl err
      | Inr (a, d1) \<Rightarrow> txt_loop fin (acc @ [a]) d1) else Inr (acc, d))" for fin acc d
    by (subst txt_loop.simps) (auto simp: txt_item_def pbind_def split: sum.splits)
next
  fix fin d s d1 x
  assume item: "txt_item fin d = Inr (s, d1)"
  from txt_item_step [OF item] show "d1 = d\<lparr>dpos := dpos d + length (of_nat (length s) # s)\<rparr> \<and>
      length s \<le> 255 \<and> of_nat (length s) # s \<noteq> [] \<and> dpos d1 \<le> fin \<and> dpos d1 \<le> length (dbuf d)" by auto
  from item show "txt_item fin (d\<lparr>dbuf := dbuf d @ x\<rparr>) = Inr (s, d1\<lparr>dbuf := dbuf d1 @ x\<rparr>)"
    by (rule stable_parserD [OF txt_item_parser])
qed

interpretation svcb_items: item_loop svcb_loop svcb_item
  "\<lambda>(k, v). u16_to_be k @ u16_to_be (of_nat (length v)) @ v" "\<lambda>(k, v). length v \<le> 65535"
proof
  show "svcb_loop fin acc d = (if dpos d < fin then (case svcb_item fin d of Inl err \<Rightarrow> Inl err
      | Inr (a, d1) \<Rightarrow> svcb_loop fin (acc @ [a]) d1) else Inr (acc, d))" for fin acc d
    by (subst svcb_loop.simps) (auto simp: svcb_item_def pbind_def preturn_def split: sum.splits)
next
  fix fin d p d1 x
  assume item: "svcb_item fin d = Inr (p, d1)"
  obtain k v where p: "p = (k, v)" by (cases p)
  let ?wire = "(\<lambda>(k, v). u16_to_be k @ u16_to_be (of_nat (length v)) @ v) p"
  from svcb_item_step [of fin d k v d1] item show "d1 = d\<lparr>dpos := dpos d + length ?wire\<rparr> \<and>
      (\<lambda>(k, v). length v \<le> 65535) p \<and> ?wire \<noteq> [] \<and> dpos d1 \<le> fin \<and> dpos d1 \<le> length (dbuf d)"
    by (auto simp: p u16_to_be_def)
  from item show "svcb_item fin (d\<lparr>dbuf := dbuf d @ x\<rparr>) = Inr (p, d1\<lparr>dbuf := dbuf d1 @ x\<rparr>)"
    by (rule stable_parserD [OF svcb_item_parser])
qed

section \<open>The parser contract\<close>

lemma stable_parser_at:
  "(\<And>pos. stable_parser (p pos) w) \<Longrightarrow> stable_parser (\<lambda>d. p (dpos d) d) w"
  using stable_parser_guard [of p w "\<lambda>_. False"] by simp

lemma stable_parser_bind0:
  "stable_parser p 0 \<Longrightarrow> (\<And>a. stable_parser (f a) 0) \<Longrightarrow> stable_parser (pbind p f) 0"
  using stable_parser_pbind [of p 0 f 0] by simp

lemmas stable_parsers0 = stable_parser_preturn txt_items.loop_parser svcb_items.loop_parser
  stable_parser_sub [OF u8_parser.stable_parser_axioms]
  stable_parser_sub [OF u16_parser.stable_parser_axioms]
  stable_parser_sub [OF u32_parser.stable_parser_axioms]
  stable_parser_sub [OF slice_parser.stable_parser_axioms]
  stable_parser_sub [OF name_parser.stable_parser_axioms]

lemma caa_parser: "stable_parser (caa_parse fin) 0"
proof -
  have v: "stable_parser (\<lambda>d. pbind (dec_slice (fin - dpos d)) (\<lambda>v. preturn (Caa flags tag v)) d) 0"
    for flags tag
    by (rule stable_parser_at [where p = "\<lambda>pos. pbind (dec_slice (fin - pos)) (\<lambda>v. preturn (Caa flags tag v))"])
      (intro stable_parser_bind0 stable_parsers0)
  have "stable_parser (\<lambda>d. if dpos d + unat (taglen :: byte) > fin then Inl BadRdataLength
      else pbind (dec_slice (unat taglen)) (\<lambda>tag d.
        pbind (dec_slice (fin - dpos d)) (\<lambda>v. preturn (Caa flags tag v)) d) d) 0" for flags taglen
    by (rule stable_parser_guard [where p = "\<lambda>_. pbind (dec_slice (unat taglen)) (\<lambda>tag d.
        pbind (dec_slice (fin - dpos d)) (\<lambda>v. preturn (Caa flags tag v)) d)"])
      (intro stable_parser_bind0 stable_parsers0 v)
  then show ?thesis unfolding caa_parse_def by (intro stable_parser_bind0 stable_parsers0)
qed

lemma rdata_body_parser: "stable_parser (rdata_body rt l fin) 0"
proof -
  have split: "(b \<Longrightarrow> stable_parser p w) \<Longrightarrow> (\<not> b \<Longrightarrow> stable_parser q w) \<Longrightarrow>
    stable_parser (if b then p else q) w" for b w and p q :: "rdata parser" by simp
  show ?thesis unfolding rdata_body_def
    by (intro split) (intro stable_parser_bind0 stable_parsers0 caa_parser)+
qed

interpretation rdata_parser: stable_parser "rdata_parse rt l" 0 for rt l
proof
  fix d rd d' x
  assume parse: "rdata_parse rt l d = Inr (rd, d')"
  note body = rdata_body_parser [of rt l "dpos d + unat l", THEN stable_parser.axioms(1),
      THEN wire_parser.keeps_buf]
  from parse body show "dbuf d' = dbuf d" "dpos d + 0 \<le> dpos d'"
    by (auto simp: rdata_parse_def Let_def split: if_splits sum.splits)
  from parse show "dpos d' \<le> length (dbuf d)" if "dpos d \<le> length (dbuf d)"
    using that by (auto simp: rdata_parse_def Let_def split: if_splits sum.splits)
  from parse show "rdata_parse rt l (d\<lparr>dbuf := dbuf d @ x\<rparr>) = Inr (rd, d'\<lparr>dbuf := dbuf d' @ x\<rparr>)"
    using stable_parserD [OF rdata_body_parser, of rt l "dpos d + unat l" d _ _ x]
    by (auto simp: rdata_parse_def Let_def split: if_splits sum.splits)
qed

lemma rdata_parse_end:
  "rdata_parse rt l d = Inr (rd, d') \<Longrightarrow> dpos d' = dpos d + unat l \<and> dpos d' \<le> length (dbuf d)"
  by (auto simp: rdata_parse_def Let_def split: if_splits sum.splits)

section \<open>What is read can be carried\<close>

lemma name_parse_size:
  assumes "name_parse d = Inr (n, d')"
  shows "valid_name n" "length (name_wire n) \<le> 255" "dpos d + 1 \<le> dpos d'"
proof -
  show v: "valid_name n" using assms by (rule name_parse_valid)
  then show "length (name_wire n) \<le> 255" by (auto elim!: valid_nameE)
  show "dpos d + 1 \<le> dpos d'" using assms by (rule name_parser.advances)
qed

lemma rdata_body_txt_carries:
  assumes "txt_loop fin [] d = Inr (ss, d')" "dpos d < fin"
  shows "rdata_carries rtype_TXT (Txt ss)" "length (rdata_wire (Txt ss)) = fin - dpos d"
  using txt_items.loop_sound [OF assms(1), of "[]"] assms(2) by (auto simp: txt_wire_def)

lemma rdata_body_caa_carries:
  assumes "caa_parse fin d = Inr (rd, d')" "dpos d' = fin"
  shows "rdata_carries rtype_CAA rd" "length (rdata_wire rd) = fin - dpos d"
proof -
  from assms obtain flags d1 taglen d2 tag d3 v where rd: "rd = Caa flags tag v"
    and s: "dec_u8 d = Inr (flags, d1)" "dec_u8 d1 = Inr (taglen, d2)"
      "dec_slice (unat taglen) d2 = Inr (tag, d3)" "dec_slice (fin - dpos d3) d3 = Inr (v, d')"
    by (auto simp: caa_parse_def preturn_def elim!: pbind_eq_InrE split: if_splits)
  note steps = dec_u8_step [OF s(1)] dec_u8_step [OF s(2)] dec_slice_step [OF s(3)]
    dec_slice_step [OF s(4)]
  show "rdata_carries rtype_CAA rd" using steps unat_byte_le [of taglen] by (simp add: rd)
  show "length (rdata_wire rd) = fin - dpos d" using steps assms(2) by (auto simp: rd)
qed

lemma rdata_body_svcb_carries:
  assumes "rdata_body rt l fin d = Inr (rd, d')" "dpos d' = fin" "rt = rtype_SVCB \<or> rt = rtype_HTTPS"
  shows "rdata_carries rt rd" "length (rdata_wire rd) \<le> fin - dpos d + 254"
proof -
  from assms obtain p d1 n d2 ps where rd: "rd = Svcb p n ps"
    and s: "dec_u16 d = Inr (p, d1)" "name_parse d1 = Inr (n, d2)"
      "svcb_loop fin [] d2 = Inr (ps, d')"
    by (auto simp: rdata_body_branch preturn_def elim!: pbind_eq_InrE)
  note n = name_parse_size [OF s(2)]
  from svcb_items.loop_sound [OF s(3), of "[]"]
  have ps: "dpos d' = dpos d2 + length (svcb_wire ps)"
    "list_all (\<lambda>(k, v). length v \<le> 65535) ps" by (auto simp: svcb_wire_def)
  show "rdata_carries rt rd" using n ps assms(3) by (simp add: rd)
  show "length (rdata_wire rd) \<le> fin - dpos d + 254"
    using n ps dec_u16_step [OF s(1)] assms(2) by (simp add: rd)
qed

lemma name_parse_sized:
  "name_parse d = Inr (n, d') \<Longrightarrow> valid_name n \<and> length (name_wire n) \<le> 255 \<and> dpos d + 1 \<le> dpos d'"
  by (simp only: name_parse_size simp_thms)

lemma rdata_body_names_carries:
  assumes "rdata_body rt l fin d = Inr (rd, d')" "dpos d' = fin"
    "rt \<in> {rtype_NS, rtype_CNAME, rtype_PTR, rtype_SOA, rtype_MX, rtype_SRV}"
  shows "rdata_carries rt rd" "dpos d + length (rdata_wire rd) \<le> fin + 508"
  using assms
  by (auto simp: rdata_body_branch preturn_def elim!: pbind_eq_InrE
      dest!: name_parse_sized u16_parser.advances u32_parser.advances)

lemma rdata_body_carries:
  assumes "rdata_body rt l fin d = Inr (rd, d')" "dpos d' = fin" "fin = dpos d + unat l" "l \<noteq> 0"
  shows "rdata_carries rt rd \<and> length (rdata_wire rd) \<le> unat l + 508"
proof -
  have pos: "dpos d < fin" "fin - dpos d = unat l" using assms(3,4) by (simp_all add: unat_gt_0)
  consider "rt \<in> {rtype_NS, rtype_CNAME, rtype_PTR, rtype_SOA, rtype_MX, rtype_SRV}"
    | "rt = rtype_TXT" | "rt = rtype_CAA" | "rt = rtype_SVCB \<or> rt = rtype_HTTPS"
    | "rt = rtype_A" | "rt = rtype_AAAA" | "rt \<notin> structured_types" by blast
  then show ?thesis
  proof cases
    case 1
    with rdata_body_names_carries [OF assms(1,2)] assms(3) show ?thesis by simp
  next
    case 2
    with assms(1) obtain ss where "rd = Txt ss" "txt_loop fin [] d = Inr (ss, d')"
      by (auto simp: rdata_body_def preturn_def elim!: pbind_eq_InrE)
    with rdata_body_txt_carries [of fin d ss d'] pos 2 show ?thesis by simp
  next
    case 3
    with assms(1) have "caa_parse fin d = Inr (rd, d')" by (simp add: rdata_body_def)
    with rdata_body_caa_carries [of fin d rd d'] pos 3 assms(2) show ?thesis by simp
  next
    case 4
    with rdata_body_svcb_carries [OF assms(1,2)] pos show ?thesis by simp
  next
    case 5
    with assms(1) show ?thesis
      by (auto simp: rdata_body_def preturn_def be_bytes_def elim!: pbind_eq_InrE)
  next
    case 6
    with assms(1) show ?thesis
      by (auto simp: rdata_body_def preturn_def be_bytes_def elim!: pbind_eq_InrE)
  next
    case 7
    with assms(1) show ?thesis
      by (auto simp: rdata_body_def preturn_def elim!: pbind_eq_InrE dest!: dec_slice_step)
  qed
qed

lemma rdata_parse_carries:
  assumes "rdata_parse rt l d = Inr (rd, d')"
  shows "rdata_carries rt rd \<and> length (rdata_wire rd) \<le> unat l + 508"
  using assms rdata_body_carries [of rt l "dpos d + unat l" d rd d']
  by (auto simp: rdata_parse_def Let_def split: if_splits sum.splits)

end
