(* ===== verification/Wire_Message.thy ===== *)
theory Wire_Message
  imports Rdata_Sound
begin

text \<open>
  Whole messages: \<open>wire/question.rs\<close>, \<open>wire/record.rs\<close> and \<open>wire/message.rs\<close>. The question and the
  record are two more instances of the codec interface, and the message theorems follow from the
  lemmas proved once for that interface.
\<close>

section \<open>The code\<close>

record question =
  qname :: name
  qtype :: u16
  qclass :: u16

definition question_new :: "name \<Rightarrow> u16 \<Rightarrow> question" where
  "question_new n t = \<lparr>qname = n, qtype = t, qclass = class_IN\<rparr>"

definition question_parse :: "question parser" where
  "question_parse = pbind name_parse (\<lambda>n. pbind dec_u16 (\<lambda>t. pbind dec_u16 (\<lambda>c.
     preturn \<lparr>qname = n, qtype = t, qclass = c\<rparr>)))"

definition question_emit :: "question \<Rightarrow> encoder \<Rightarrow> encoder option" where
  "question_emit q e = do {
     e \<leftarrow> name_emit (qname q) e;
     Some (enc_u16 (qclass q) (enc_u16 (qtype q) e)) }"

record rr =
  rr_name :: name
  rr_type :: u16
  rr_class :: u16
  rr_ttl :: u32
  rr_data :: rdata

definition rr_parse :: "rr parser" where
  "rr_parse = pbind name_parse (\<lambda>n. pbind dec_u16 (\<lambda>t. pbind dec_u16 (\<lambda>c. pbind dec_u32 (\<lambda>ttl.
     pbind dec_u16 (\<lambda>rdlength. pbind (rdata_parse t rdlength) (\<lambda>rd.
       preturn \<lparr>rr_name = n, rr_type = t, rr_class = c, rr_ttl = ttl, rr_data = rd\<rparr>))))))"

definition rr_emit :: "rr \<Rightarrow> encoder \<Rightarrow> encoder option" where
  "rr_emit r e = do {
     e \<leftarrow> name_emit (rr_name r) e;
     let e = enc_u32 (rr_ttl r) (enc_u16 (rr_class r) (enc_u16 (rr_type r) e));
     let (at, e) = enc_reserve_u16 e;
     enc_patch_u16_len at (rdata_emit (rr_data r) e) }"

record message =
  msg_header :: header
  questions :: "question list"
  answers :: "rr list"
  authority :: "rr list"
  additional :: "rr list"

definition encode_query :: "name \<Rightarrow> u16 \<Rightarrow> byte list option" where
  "encode_query n t =
     (let h = \<lparr>hid = 0, hflags = 0x0100, qdcount = 1, ancount = 0, nscount = 0, arcount = 0\<rparr>
      in map_option ebuf (question_emit (question_new n t) (header_emit h enc_uncompressed)))"

definition parse_records :: "u16 \<Rightarrow> rr list parser" where
  "parse_records count = parse_n rr_parse (unat count)"

definition message_parse :: "byte list \<Rightarrow> message wire_result" where
  "message_parse buf = map_sum id fst
     (pbind header_parse (\<lambda>h.
      pbind (parse_n question_parse (unat (qdcount h))) (\<lambda>qs.
      pbind (parse_records (ancount h)) (\<lambda>an.
      pbind (parse_records (nscount h)) (\<lambda>ns.
      pbind (parse_records (arcount h)) (\<lambda>ar.
        preturn \<lparr>msg_header = h, questions = qs, answers = an, authority = ns, additional = ar\<rparr>)))))
      (dec_new buf))"

definition encode_with :: "bool \<Rightarrow> message \<Rightarrow> byte list option" where
  "encode_with compress m =
     (let e = (if compress then enc_new else enc_uncompressed);
          h = (msg_header m)\<lparr>qdcount := of_nat (length (questions m)),
                ancount := of_nat (length (answers m)),
                nscount := of_nat (length (authority m)),
                arcount := of_nat (length (additional m))\<rparr>
      in do {
        e \<leftarrow> emit_all question_emit (questions m) (header_emit h e);
        e \<leftarrow> emit_all rr_emit (answers m) e;
        e \<leftarrow> emit_all rr_emit (authority m) e;
        e \<leftarrow> emit_all rr_emit (additional m) e;
        Some (ebuf e) })"

definition message_encode :: "message \<Rightarrow> byte list option" where
  "message_encode = encode_with True"

definition encode_uncompressed :: "message \<Rightarrow> byte list option" where
  "encode_uncompressed = encode_with False"

definition first_question :: "message \<Rightarrow> question option" where
  "first_question m = (case questions m of [] \<Rightarrow> None | q # _ \<Rightarrow> Some q)"

section \<open>Questions and records are codecs\<close>

definition question_ok :: "question \<Rightarrow> bool" where
  "question_ok q \<longleftrightarrow> valid_name (qname q)"

text \<open>The same question or record up to the case of its owner name.\<close>

definition question_eq :: "question \<Rightarrow> question \<Rightarrow> bool" where
  "question_eq p q \<longleftrightarrow> eq_ignore_ascii_case (qname p) (qname q) \<and> q = p\<lparr>qname := qname q\<rparr>"

definition rr_ok :: "rr \<Rightarrow> bool" where
  "rr_ok r \<longleftrightarrow> valid_name (rr_name r) \<and> rdata_ok (rr_type r) (rr_data r)"

definition rr_same :: "rr \<Rightarrow> rr \<Rightarrow> bool" where
  "rr_same r s \<longleftrightarrow> eq_ignore_ascii_case (rr_name r) (rr_name s) \<and>
     s = r\<lparr>rr_name := rr_name s\<rparr>"

definition rr_tail :: "rr \<Rightarrow> byte list" where
  "rr_tail r = u16_to_be (rr_type r) @ u16_to_be (rr_class r) @ u32_to_be (rr_ttl r) @
     u16_to_be (of_nat (length (rdata_wire (rr_data r)))) @ rdata_wire (rr_data r)"

text \<open>Reserving the length field, writing a body and patching the length writes the length first.\<close>

lemma reserve_patch:
  assumes "enc_reserve_u16 e = (at, e1)"
  shows "enc_patch_u16_len at (enc_bytes w e1) =
    Some (enc_bytes (u16_to_be (of_nat (length w)) @ w) e)"
  using assms by (auto simp: enc_reserve_u16_def enc_patch_u16_len_def enc_patch_u16_def
      enc_bytes_def list_update_append u16_to_be_def)

lemma rr_emit_wire: "rr_emit r e = map_option (enc_bytes (rr_tail r)) (name_emit (rr_name r) e)"
  by (cases "name_emit (rr_name r) e")
    (auto simp: rr_emit_def rdata_emit_wire reserve_patch Let_def rr_tail_def enc_scalars_bytes
      enc_bytes_append split: prod.split)

lemma question_emit_wire:
  "question_emit q e =
     map_option (enc_bytes (u16_to_be (qtype q) @ u16_to_be (qclass q))) (name_emit (qname q) e)"
  by (cases "name_emit (qname q) e")
    (simp_all add: question_emit_def enc_u16_def enc_bytes_def)


text \<open>A name followed by octets that do not depend on the table: the shape of both emitters.\<close>

lemma name_then_tail:
  assumes codec: "wire_codec einv name_emit name_parse valid_name eqv"
    and einv: "\<And>e bs. einv e \<Longrightarrow> einv (enc_bytes bs e)"
    and emit: "emit = map_option (enc_bytes tail) (name_emit n e)"
    and "valid_name n" "einv e"
    and parse: "parse = pbind name_parse p"
    and tail: "\<And>n' buf pos. bytes_at buf pos tail \<Longrightarrow> p n' \<lparr>dbuf = buf, dpos = pos\<rparr> =
      Inr (f n', \<lparr>dbuf = buf, dpos = pos + length tail\<rparr>)"
  shows "\<exists>e' bs n'. emit = Some e' \<and> ebuf e' = ebuf e @ bs \<and> einv e' \<and> eqv n n' \<and>
    (\<forall>rest. parse \<lparr>dbuf = ebuf e' @ rest, dpos = length (ebuf e)\<rparr> =
       Inr (f n', \<lparr>dbuf = ebuf e' @ rest, dpos = length (ebuf e')\<rparr>))"
proof -
  from wire_codec.emit_parse [OF codec assms(4,5)]
  obtain e1 bs n' where 1: "name_emit n e = Some e1" "ebuf e1 = ebuf e @ bs" "einv e1" "eqv n n'"
    "\<And>rest. name_parse \<lparr>dbuf = ebuf e1 @ rest, dpos = length (ebuf e)\<rparr> =
       Inr (n', \<lparr>dbuf = ebuf e1 @ rest, dpos = length (ebuf e1)\<rparr>)" by blast
  have "parse \<lparr>dbuf = (ebuf e1 @ tail) @ rest, dpos = length (ebuf e)\<rparr> =
      Inr (f n', \<lparr>dbuf = (ebuf e1 @ tail) @ rest, dpos = length (ebuf e1) + length tail\<rparr>)" for rest
    using tail [of "ebuf e1 @ tail @ rest" "length (ebuf e1)" n'] 1(5) [of "tail @ rest"]
    by (simp add: parse pbind_def)
  with 1 einv show ?thesis
    by (intro exI [of _ "enc_bytes tail e1"] exI [of _ "bs @ tail"] exI [of _ n'])
      (simp add: emit)
qed

text \<open>Any name codec whose invariant survives appending gives a question codec and a record codec.\<close>

lemma question_codecI:
  assumes codec: "wire_codec einv name_emit name_parse valid_name eqv"
    and einv: "\<And>e bs. einv e \<Longrightarrow> einv (enc_bytes bs e)"
  shows "wire_codec einv question_emit question_parse question_ok
    (\<lambda>p q. eqv (qname p) (qname q) \<and> q = p\<lparr>qname := qname q\<rparr>)"
proof
  fix q e
  assume "question_ok q" "einv e"
  then have v: "valid_name (qname q)" "einv e" by (simp_all add: question_ok_def)
  let ?tail = "u16_to_be (qtype q) @ u16_to_be (qclass q)"
  have tail: "pbind dec_u16 (\<lambda>t. pbind dec_u16 (\<lambda>c. preturn \<lparr>qname = n', qtype = t, qclass = c\<rparr>))
      \<lparr>dbuf = buf, dpos = pos\<rparr> = Inr (q\<lparr>qname := n'\<rparr>, \<lparr>dbuf = buf, dpos = pos + length ?tail\<rparr>)"
    if "bytes_at buf pos ?tail" for n' buf pos
    using that unfolding bytes_at_append length_u16_to_be
    by (elim conjE) ((rule reads_bind, rule dec_u16_at, assumption)+, simp add: preturn_def)
  from name_then_tail [OF codec einv question_emit_wire v question_parse_def tail]
  show "\<exists>e' bs q'. question_emit q e = Some e' \<and> ebuf e' = ebuf e @ bs \<and> einv e' \<and>
      (eqv (qname q) (qname q') \<and> q' = q\<lparr>qname := qname q'\<rparr>) \<and>
      (\<forall>rest. question_parse \<lparr>dbuf = ebuf e' @ rest, dpos = length (ebuf e)\<rparr> =
         Inr (q', \<lparr>dbuf = ebuf e' @ rest, dpos = length (ebuf e')\<rparr>))"
    by fastforce
qed

lemma rr_tail_at:
  assumes "bytes_at buf pos (rr_tail r)" "rdata_ok (rr_type r) (rr_data r)"
  shows "pbind dec_u16 (\<lambda>t. pbind dec_u16 (\<lambda>c. pbind dec_u32 (\<lambda>ttl. pbind dec_u16 (\<lambda>rdlength.
      pbind (rdata_parse t rdlength) (\<lambda>rd. preturn
        \<lparr>rr_name = n', rr_type = t, rr_class = c, rr_ttl = ttl, rr_data = rd\<rparr>)))))
      \<lparr>dbuf = buf, dpos = pos\<rparr> =
    Inr (r\<lparr>rr_name := n'\<rparr>, \<lparr>dbuf = buf, dpos = pos + length (rr_tail r)\<rparr>)"
  using assms unfolding rr_tail_def bytes_at_append length_u16_to_be length_u32_to_be
  by (elim conjE) (rule reads_bind, rule dec_u16_at, assumption, rule reads_bind, rule dec_u16_at,
    assumption, rule reads_bind, rule dec_u32_at, assumption, rule reads_bind, rule dec_u16_at,
    assumption, rule reads_bind, rule rdata_parse_at, assumption, assumption, simp add: preturn_def)

lemma rr_codecI:
  assumes codec: "wire_codec einv name_emit name_parse valid_name eqv"
    and einv: "\<And>e bs. einv e \<Longrightarrow> einv (enc_bytes bs e)"
  shows "wire_codec einv rr_emit rr_parse rr_ok
    (\<lambda>r s. eqv (rr_name r) (rr_name s) \<and> s = r\<lparr>rr_name := rr_name s\<rparr>)"
proof
  fix r e
  assume "rr_ok r" "einv e"
  then have v: "valid_name (rr_name r)" "einv e" and ok: "rdata_ok (rr_type r) (rr_data r)"
    by (simp_all add: rr_ok_def)
  from name_then_tail [OF codec einv rr_emit_wire v rr_parse_def rr_tail_at [OF _ ok]]
  show "\<exists>e' bs r'. rr_emit r e = Some e' \<and> ebuf e' = ebuf e @ bs \<and> einv e' \<and>
      (eqv (rr_name r) (rr_name r') \<and> r' = r\<lparr>rr_name := rr_name r'\<rparr>) \<and>
      (\<forall>rest. rr_parse \<lparr>dbuf = ebuf e' @ rest, dpos = length (ebuf e)\<rparr> =
         Inr (r', \<lparr>dbuf = ebuf e' @ rest, dpos = length (ebuf e')\<rparr>))"
    by fastforce
qed

interpretation question_codec: wire_codec enc_inv question_emit question_parse question_ok question_eq
  using question_codecI [OF name_codec.wire_codec_axioms] unfolding question_eq_def [abs_def] by simp

interpretation rr_codec: wire_codec enc_inv rr_emit rr_parse rr_ok rr_same
  using rr_codecI [OF name_codec.wire_codec_axioms] unfolding rr_same_def [abs_def] by simp

lemma same_name_same:
  "qname p = qname q \<and> q = p\<lparr>qname := qname q\<rparr> \<Longrightarrow> p = q"
  "rr_name r = rr_name s \<and> s = r\<lparr>rr_name := rr_name s\<rparr> \<Longrightarrow> r = s"
  by (cases p; cases q; simp) (cases r; cases s; simp)

interpretation question_exact: wire_codec "\<lambda>e. \<not> ecompress e" question_emit question_parse
  question_ok "(=)"
  by (rule wire_codec_weaken [OF question_codecI [OF name_exact.wire_codec_axioms]])
    (simp, erule same_name_same)

interpretation rr_exact: wire_codec "\<lambda>e. \<not> ecompress e" rr_emit rr_parse rr_ok "(=)"
  by (rule wire_codec_weaken [OF rr_codecI [OF name_exact.wire_codec_axioms]])
    (simp, erule same_name_same)

end
