(* ===== verification/Message_Facts.thy ===== *)
theory Message_Facts
  imports Wire_Message
begin

text \<open>
  The theorems about whole messages: encoding never panics and is read back, parsing is bounded by
  the datagram and ignores what follows the last record, and whatever was parsed can be encoded
  again.
\<close>

section \<open>Well-formed messages\<close>

definition message_ok :: "message \<Rightarrow> bool" where
  "message_ok m \<longleftrightarrow> list_all question_ok (questions m) \<and> list_all rr_ok (answers m) \<and>
     list_all rr_ok (authority m) \<and> list_all rr_ok (additional m) \<and>
     length (questions m) \<le> 65535 \<and> length (answers m) \<le> 65535 \<and>
     length (authority m) \<le> 65535 \<and> length (additional m) \<le> 65535"

text \<open>The header as it is written: the counts are those of the sections.\<close>

definition counted_header :: "message \<Rightarrow> header" where
  "counted_header m = (msg_header m)\<lparr>qdcount := of_nat (length (questions m)),
     ancount := of_nat (length (answers m)), nscount := of_nat (length (authority m)),
     arcount := of_nat (length (additional m))\<rparr>"

text \<open>The same message up to the case of the owner names, with the counts set.\<close>

definition message_same :: "message \<Rightarrow> message \<Rightarrow> bool" where
  "message_same m m' \<longleftrightarrow> msg_header m' = counted_header m \<and>
     list_all2 question_eq (questions m) (questions m') \<and> list_all2 rr_same (answers m) (answers m') \<and>
     list_all2 rr_same (authority m) (authority m') \<and> list_all2 rr_same (additional m) (additional m')"

section \<open>Encoding and reading back\<close>

lemma unat_count: "n \<le> 65535 \<Longrightarrow> unat (of_nat n :: u16) = n"
  by (simp add: unat_of_nat)

lemma message_parse_fields:
  assumes "header_parse (dec_new buf) = Inr (h, d1)"
    "parse_n question_parse (unat (qdcount h)) d1 = Inr (qs, d2)"
    "parse_n rr_parse (unat (ancount h)) d2 = Inr (an, d3)"
    "parse_n rr_parse (unat (nscount h)) d3 = Inr (ns, d4)"
    "parse_n rr_parse (unat (arcount h)) d4 = Inr (ar, d5)"
  shows "message_parse buf = Inr \<lparr>msg_header = h, questions = qs, answers = an, authority = ns,
    additional = ar\<rparr>"
  using assms by (simp add: message_parse_def parse_records_def pbind_def preturn_def)

lemma message_parseE:
  assumes "message_parse buf = Inr m"
  obtains d1 d2 d3 d4 d5 where "header_parse (dec_new buf) = Inr (msg_header m, d1)"
    "parse_n question_parse (unat (qdcount (msg_header m))) d1 = Inr (questions m, d2)"
    "parse_n rr_parse (unat (ancount (msg_header m))) d2 = Inr (answers m, d3)"
    "parse_n rr_parse (unat (nscount (msg_header m))) d3 = Inr (authority m, d4)"
    "parse_n rr_parse (unat (arcount (msg_header m))) d4 = Inr (additional m, d5)"
  using assms by (auto simp: message_parse_def parse_records_def preturn_def map_sum_def
      elim!: pbind_eq_InrE split: sum.splits)

text \<open>The four sections, written behind any encoder state and read back from there.\<close>

definition emit_sections :: "message \<Rightarrow> encoder \<Rightarrow> encoder option" where
  "emit_sections m e = do {
     e \<leftarrow> emit_all question_emit (questions m) e;
     e \<leftarrow> emit_all rr_emit (answers m) e;
     e \<leftarrow> emit_all rr_emit (authority m) e;
     emit_all rr_emit (additional m) e }"

lemma encode_with_sections:
  "encode_with c m = map_option ebuf
     (emit_sections m (header_emit (counted_header m) (if c then enc_new else enc_uncompressed)))"
  by (simp add: encode_with_def emit_sections_def counted_header_def Let_def map_conv_bind_option o_def)

lemma sections_codec:
  assumes q: "wire_codec einv question_emit question_parse question_ok qeqv"
    and r: "wire_codec einv rr_emit rr_parse rr_ok reqv"
    and inv: "einv e0" and ok: "message_ok m"
  shows "\<exists>e bs qs an ns ar. emit_sections m e0 = Some e \<and> ebuf e = ebuf e0 @ bs \<and>
    list_all2 qeqv (questions m) qs \<and> list_all2 reqv (answers m) an \<and>
    list_all2 reqv (authority m) ns \<and> list_all2 reqv (additional m) ar \<and>
    (\<forall>rest. \<exists>d2 d3 d4.
      parse_n question_parse (length (questions m)) \<lparr>dbuf = ebuf e @ rest, dpos = length (ebuf e0)\<rparr> = Inr (qs, d2) \<and>
      parse_n rr_parse (length (answers m)) d2 = Inr (an, d3) \<and>
      parse_n rr_parse (length (authority m)) d3 = Inr (ns, d4) \<and>
      parse_n rr_parse (length (additional m)) d4 = Inr (ar, \<lparr>dbuf = ebuf e @ rest, dpos = length (ebuf e)\<rparr>))"
proof -
  note body = wire_codec_pair [OF wire_codec_section [OF q, of "length (questions m)"]
      wire_codec_pair [OF wire_codec_section [OF r, of "length (answers m)"]
        wire_codec_pair [OF wire_codec_section [OF r, of "length (authority m)"]
          wire_codec_section [OF r, of "length (additional m)"]]]]
  from wire_codec.emit_parse [OF body _ inv,
      of "(questions m, answers m, authority m, additional m)"] ok
  obtain e bs qs an ns ar where emit: "emit_sections m e0 = Some e" and buf: "ebuf e = ebuf e0 @ bs"
    and same: "list_all2 qeqv (questions m) qs" "list_all2 reqv (answers m) an"
      "list_all2 reqv (authority m) ns" "list_all2 reqv (additional m) ar"
    and parse: "\<And>rest. pbind (parse_n question_parse (length (questions m))) (\<lambda>a.
      pbind (pbind (parse_n rr_parse (length (answers m))) (\<lambda>a.
        pbind (pbind (parse_n rr_parse (length (authority m))) (\<lambda>a.
          pbind (parse_n rr_parse (length (additional m))) (\<lambda>b. preturn (a, b))))
        (\<lambda>b. preturn (a, b)))) (\<lambda>b. preturn (a, b)))
        \<lparr>dbuf = ebuf e @ rest, dpos = length (ebuf e0)\<rparr> =
      Inr ((qs, an, ns, ar), \<lparr>dbuf = ebuf e @ rest, dpos = length (ebuf e)\<rparr>)"
    by (auto simp: message_ok_def emit_sections_def)
  have "\<exists>d2 d3 d4.
      parse_n question_parse (length (questions m)) \<lparr>dbuf = ebuf e @ rest, dpos = length (ebuf e0)\<rparr> = Inr (qs, d2) \<and>
      parse_n rr_parse (length (answers m)) d2 = Inr (an, d3) \<and>
      parse_n rr_parse (length (authority m)) d3 = Inr (ns, d4) \<and>
      parse_n rr_parse (length (additional m)) d4 = Inr (ar, \<lparr>dbuf = ebuf e @ rest, dpos = length (ebuf e)\<rparr>)" for rest
    using parse [of rest] by (auto simp: preturn_def elim!: pbind_eq_InrE)
  with emit buf same show ?thesis by blast
qed

lemma encode_with_codec:
  assumes q: "wire_codec einv question_emit question_parse question_ok qeqv"
    and r: "wire_codec einv rr_emit rr_parse rr_ok reqv"
    and inv: "einv (header_emit (counted_header m) (if c then enc_new else enc_uncompressed))"
    and ok: "message_ok m"
  shows "\<exists>buf m'. encode_with c m = Some buf \<and> (\<forall>rest. message_parse (buf @ rest) = Inr m') \<and>
    msg_header m' = counted_header m \<and> list_all2 qeqv (questions m) (questions m') \<and>
    list_all2 reqv (answers m) (answers m') \<and> list_all2 reqv (authority m) (authority m') \<and>
    list_all2 reqv (additional m) (additional m')"
proof -
  let ?h = "counted_header m"
  let ?e0 = "header_emit ?h (if c then enc_new else enc_uncompressed)"
  have counts: "unat (qdcount ?h) = length (questions m)" "unat (ancount ?h) = length (answers m)"
    "unat (nscount ?h) = length (authority m)" "unat (arcount ?h) = length (additional m)"
    using ok by (simp_all add: counted_header_def message_ok_def unat_count)
  from sections_codec [OF q r inv ok] obtain e bs qs an ns ar where
    emit: "emit_sections m ?e0 = Some e" and buf: "ebuf e = ebuf ?e0 @ bs"
    and same: "list_all2 qeqv (questions m) qs" "list_all2 reqv (answers m) an"
      "list_all2 reqv (authority m) ns" "list_all2 reqv (additional m) ar"
    and parse: "\<And>rest. \<exists>d2 d3 d4.
      parse_n question_parse (length (questions m)) \<lparr>dbuf = ebuf e @ rest, dpos = length (ebuf ?e0)\<rparr> = Inr (qs, d2) \<and>
      parse_n rr_parse (length (answers m)) d2 = Inr (an, d3) \<and>
      parse_n rr_parse (length (authority m)) d3 = Inr (ns, d4) \<and>
      parse_n rr_parse (length (additional m)) d4 = Inr (ar, \<lparr>dbuf = ebuf e @ rest, dpos = length (ebuf e)\<rparr>)"
    by blast
  let ?m' = "\<lparr>msg_header = ?h, questions = qs, answers = an, authority = ns, additional = ar\<rparr>"
  have "message_parse (ebuf e @ rest) = Inr ?m'" for rest
  proof -
    have e0: "ebuf ?e0 = header_wire ?h" by (simp add: header_emit_wire enc_new_def enc_uncompressed_def)
    have "header_parse (dec_new (ebuf e @ rest)) = Inr (?h, \<lparr>dbuf = ebuf e @ rest, dpos = 0 + 12\<rparr>)"
      unfolding dec_new_def using bytes_at_here [of "[]" "header_wire ?h" "bs @ rest"]
      by (intro header_parse_at) (simp add: buf e0)
    with parse [of rest] show ?thesis
      by (auto simp: e0 counts intro!: message_parse_fields)
  qed
  with emit same show ?thesis
    by (intro exI [of _ "ebuf e"] exI [of _ ?m']) (simp add: encode_with_sections)
qed

lemma enc_inv_header: "enc_inv e \<Longrightarrow> enc_inv (header_emit h e)"
  by (simp add: header_emit_wire)

lemma message_sameI:
  assumes "message_ok m"
  shows "\<exists>buf m'. encode_with c m = Some buf \<and> (\<forall>rest. message_parse (buf @ rest) = Inr m') \<and>
    message_same m m'"
  using encode_with_codec [OF question_codec.wire_codec_axioms rr_codec.wire_codec_axioms _ assms,
      of c] by (simp add: message_same_def enc_inv_header)

text \<open>
  C5. Encoding a well-formed message never panics, with or without name compression, and parsing
  the result gives the message back with its section counts in the header: same questions and
  records in the same order, record data octet for octet, owner names up to letter case. Octets
  behind the message do not change the result.
\<close>

theorem message_round_trip:
  assumes "message_ok m"
  shows "\<exists>buf m'. encode_with c m = Some buf \<and> (\<forall>rest. message_parse (buf @ rest) = Inr m') \<and>
    message_same m m'"
  using assms by (rule message_sameI)

text \<open>
  Without compression the message is given back exactly, letter case included.
\<close>

theorem encode_uncompressed_exact:
  assumes "message_ok m"
  shows "\<exists>buf. encode_uncompressed m = Some buf \<and>
    message_parse buf = Inr (m\<lparr>msg_header := counted_header m\<rparr>)"
proof -
  have "\<not> ecompress (header_emit (counted_header m) (if False then enc_new else enc_uncompressed))"
    by (simp add: header_emit_wire enc_uncompressed_def)
  from encode_with_codec [OF question_exact.wire_codec_axioms rr_exact.wire_codec_axioms this assms]
  obtain buf m' where "encode_with False m = Some buf" "\<forall>rest. message_parse (buf @ rest) = Inr m'"
    "m' = m\<lparr>msg_header := counted_header m\<rparr>"
    by (auto simp: list_all2_eq [symmetric])
  then show ?thesis by (auto simp: encode_uncompressed_def dest: spec [of _ "[]"])
qed


section \<open>Parsing any datagram\<close>

interpretation question_parser: stable_parser question_parse 5
proof -
  note n = name_parser.stable_parser_axioms and u = u16_parser.stable_parser_axioms
  have "stable_parser question_parse (1 + (2 + 2))"
    unfolding question_parse_def by (intro stable_parser_pbind stable_parser_map n u)
  then show "stable_parser question_parse 5" by simp
qed

interpretation rr_parser: stable_parser rr_parse 11
proof -
  note n = name_parser.stable_parser_axioms and u = u16_parser.stable_parser_axioms
    and w = u32_parser.stable_parser_axioms and r = rdata_parser.stable_parser_axioms
  have "stable_parser rr_parse (1 + (2 + (2 + (4 + (2 + 0)))))"
    unfolding rr_parse_def by (intro stable_parser_pbind stable_parser_map n u w r)
  then show "stable_parser rr_parse 11" by simp
qed

text \<open>What every entry of a parsed section satisfies, when each entry read does.\<close>

lemma parse_n_all:
  assumes "wire_parser p w" "parse_n p n d = Inr (as, d')"
    "\<And>d a d'. p d = Inr (a, d') \<Longrightarrow> dbuf d = buf \<Longrightarrow> P a" "dbuf d = buf"
  shows "list_all P as"
  using assms(2,4)
proof (induction n arbitrary: d as)
  case 0
  then show ?case by (simp add: preturn_def)
next
  case (Suc n)
  from Suc.prems(1) obtain a d1 as' where a: "p d = Inr (a, d1)" "parse_n p n d1 = Inr (as', d')"
    and as: "as = a # as'" by (auto simp: preturn_def elim!: pbind_eq_InrE)
  moreover from wire_parser.keeps_buf [OF assms(1) a(1)] have "dbuf d1 = buf"
    using Suc.prems(2) by simp
  ultimately show ?case using Suc.IH [OF a(2)] assms(3) [OF a(1) Suc.prems(2)] by simp
qed

lemma question_parse_ok: "question_parse d = Inr (q, d') \<Longrightarrow> question_ok q"
  by (auto simp: question_parse_def question_ok_def preturn_def name_parse_valid elim!: pbind_eq_InrE)

lemma rr_parse_ok:
  assumes "rr_parse d = Inr (r, d')" "length (dbuf d) \<le> 65027"
  shows "rr_ok r"
proof -
  from assms(1) obtain d1 c d2 d3 d4 rdlength d5 d6 where
    "name_parse d = Inr (rr_name r, d1)" "dec_u16 d1 = Inr (rr_type r, d2)" "dec_u16 d2 = Inr (c, d3)"
    "dec_u32 d3 = Inr (rr_ttl r, d4)" "dec_u16 d4 = Inr (rdlength, d5)"
    and rd: "rdata_parse (rr_type r) rdlength d5 = Inr (rr_data r, d6)"
    by (auto simp: rr_parse_def preturn_def elim!: pbind_eq_InrE)
  then have "dbuf d5 = dbuf d" "valid_name (rr_name r)"
    using name_parse_valid by (simp_all only: name_parser.keeps_buf u16_parser.keeps_buf u32_parser.keeps_buf)
  moreover have "unat rdlength \<le> length (dbuf d5)" using rdata_parse_end [OF rd] by simp
  ultimately show ?thesis using rdata_parse_carries [OF rd] assms(2)
    by (simp add: rr_ok_def rdata_ok_def)
qed

lemma message_parse_counts:
  assumes "message_parse buf = Inr m"
  shows "unat (qdcount (msg_header m)) = length (questions m)"
    "unat (ancount (msg_header m)) = length (answers m)"
    "unat (nscount (msg_header m)) = length (authority m)"
    "unat (arcount (msg_header m)) = length (additional m)"
    "12 + 5 * length (questions m) +
       11 * (length (answers m) + length (authority m) + length (additional m)) \<le> length buf"
    "list_all question_ok (questions m)"
    "length buf \<le> 65027 \<Longrightarrow> list_all rr_ok (answers m) \<and> list_all rr_ok (authority m) \<and>
       list_all rr_ok (additional m)"
proof -
  from assms obtain d1 d2 d3 d4 d5 where
    h: "header_parse (dec_new buf) = Inr (msg_header m, d1)" and
    q: "parse_n question_parse (unat (qdcount (msg_header m))) d1 = Inr (questions m, d2)" and
    an: "parse_n rr_parse (unat (ancount (msg_header m))) d2 = Inr (answers m, d3)" and
    ns: "parse_n rr_parse (unat (nscount (msg_header m))) d3 = Inr (authority m, d4)" and
    ar: "parse_n rr_parse (unat (arcount (msg_header m))) d4 = Inr (additional m, d5)"
    by (rule message_parseE)
  have d1: "dbuf d1 = buf" "12 \<le> dpos d1" "dpos d1 \<le> length buf"
    using header_parser.keeps_buf [OF h] header_parser.advances [OF h] header_parser.in_bounds [OF h]
    by (simp_all add: dec_new_def)
  note keeps = question_parser.parse_n_keeps [OF q] rr_parser.parse_n_keeps [OF an]
    rr_parser.parse_n_keeps [OF ns] rr_parser.parse_n_keeps [OF ar]
  then show "unat (qdcount (msg_header m)) = length (questions m)"
    "unat (ancount (msg_header m)) = length (answers m)"
    "unat (nscount (msg_header m)) = length (authority m)"
    "unat (arcount (msg_header m)) = length (additional m)" by simp_all
  show "12 + 5 * length (questions m) +
      11 * (length (answers m) + length (authority m) + length (additional m)) \<le> length buf"
    using keeps d1 by simp
  show "list_all question_ok (questions m)"
    using parse_n_all [OF question_parser.wire_parser_axioms q, of buf question_ok]
      question_parse_ok d1 by blast
  show "list_all rr_ok (answers m) \<and> list_all rr_ok (authority m) \<and> list_all rr_ok (additional m)"
    if "length buf \<le> 65027"
  proof -
    have ok: "rr_parse d = Inr (r, d') \<Longrightarrow> dbuf d = buf \<Longrightarrow> rr_ok r" for d r d'
      using rr_parse_ok that by blast
    show ?thesis using parse_n_all [OF rr_parser.wire_parser_axioms an ok]
        parse_n_all [OF rr_parser.wire_parser_axioms ns ok]
        parse_n_all [OF rr_parser.wire_parser_axioms ar ok] keeps d1 by simp
  qed
qed


text \<open>
  C40. Parsing is bounded by the datagram: in a message that parses, the header counts are the
  lengths of the sections, and the sections fit the octets received at 5 octets a question and 11
  octets a record, so that hostile counts never make the parser produce more entries than the
  datagram can hold. Every question name is a valid name.
\<close>

theorem message_parse_bounds:
  assumes "message_parse buf = Inr m"
  shows "unat (qdcount (msg_header m)) = length (questions m) \<and>
    unat (ancount (msg_header m)) = length (answers m) \<and>
    unat (nscount (msg_header m)) = length (authority m) \<and>
    unat (arcount (msg_header m)) = length (additional m) \<and>
    12 + 5 * length (questions m) +
      11 * (length (answers m) + length (authority m) + length (additional m)) \<le> length buf \<and>
    list_all question_ok (questions m)"
  using message_parse_counts [OF assms] by blast

text \<open>
  Octets behind the last record are ignored.
\<close>

theorem message_parse_trailing:
  assumes "message_parse buf = Inr m"
  shows "message_parse (buf @ x) = Inr m"
proof -
  from assms obtain d1 d2 d3 d4 d5 where h: "header_parse (dec_new buf) = Inr (msg_header m, d1)"
    and s: "parse_n question_parse (unat (qdcount (msg_header m))) d1 = Inr (questions m, d2)"
      "parse_n rr_parse (unat (ancount (msg_header m))) d2 = Inr (answers m, d3)"
      "parse_n rr_parse (unat (nscount (msg_header m))) d3 = Inr (authority m, d4)"
      "parse_n rr_parse (unat (arcount (msg_header m))) d4 = Inr (additional m, d5)"
    by (rule message_parseE)
  have "header_parse (dec_new (buf @ x)) = Inr (msg_header m, d1\<lparr>dbuf := dbuf d1 @ x\<rparr>)"
    using header_parser.stable [OF h, of x] by (simp add: dec_new_def)
  from message_parse_fields [OF this question_parser.parse_n_stable [OF s(1)]
      rr_parser.parse_n_stable [OF s(2)] rr_parser.parse_n_stable [OF s(3)]
      rr_parser.parse_n_stable [OF s(4)]]
  show ?thesis by simp
qed

text \<open>
  C12. What the server parsed it can send on: a message parsed from a datagram of at most 65027
  octets encodes without a panic, compressed or not, and parsing the encoding gives the same message
  up to the case of owner names. (Beyond that size an expanded name could push one RDLENGTH over
  65535.)
\<close>

theorem message_reencode:
  assumes "message_parse buf = Inr m" "length buf \<le> 65027"
  shows "\<exists>out m'. encode_with c m = Some out \<and> message_parse out = Inr m' \<and> message_same m m' \<and>
    msg_header m' = msg_header m"
proof -
  note c = message_parse_counts [OF assms(1)]
  have "message_ok m" using c assms(2) unat_u16_le unfolding message_ok_def by metis
  from message_sameI [OF this, of c] obtain out m' where out: "encode_with c m = Some out"
    "\<And>rest. message_parse (out @ rest) = Inr m'" and same: "message_same m m'" by auto
  have "counted_header m = msg_header m"
    unfolding counted_header_def by (simp flip: c(1-4))
  with same out(1) out(2) [of "[]"] show ?thesis by (auto simp: message_same_def)
qed

text \<open>A query for \<open>a.B. IN A\<close>, and a reply with one address and a CNAME, as concrete inputs.\<close>

definition sample_name :: name where
  "sample_name = Name [1, 97, 1, 66, 0]"

definition sample_reply :: message where
  "sample_reply = \<lparr>msg_header = \<lparr>hid = 7, hflags = 0x8180, qdcount = 0, ancount = 0, nscount = 0, arcount = 0\<rparr>,
     questions = [\<lparr>qname = sample_name, qtype = rtype_A, qclass = class_IN\<rparr>],
     answers = [\<lparr>rr_name = sample_name, rr_type = rtype_CNAME, rr_class = class_IN, rr_ttl = 60,
                   rr_data = Cname (Name [1, 98, 0])\<rparr>,
                \<lparr>rr_name = Name [1, 98, 0], rr_type = rtype_A, rr_class = class_IN, rr_ttl = 60,
                   rr_data = A 0x7F000001\<rparr>],
     authority = [], additional = []\<rparr>"

definition sample_query :: "byte list" where
  "sample_query = [0, 7, 1, 0, 0, 1, 0, 0, 0, 0, 0, 0, 1, 97, 1, 66, 0, 0, 1, 0, 1]"

lemmas parse_eval = pbind_def preturn_def name_parse_def name_parse_loop.simps dec_seek_def dec_u16_def
  dec_u8_def index_def subslice_def u16_from_be_def dec_new_def header_parse_def question_parse_def
  parse_records_def message_parse_def

lemma sample_reply_ok: "message_ok sample_reply"
  by (simp add: message_ok_def sample_reply_def question_ok_def rr_ok_def rdata_ok_def, code_simp)

lemma sample_query_parses: "message_parse sample_query = Inr
  \<lparr>msg_header = \<lparr>hid = 7, hflags = 0x0100, qdcount = 1, ancount = 0, nscount = 0, arcount = 0\<rparr>,
    questions = [\<lparr>qname = sample_name, qtype = rtype_A, qclass = class_IN\<rparr>],
    answers = [], authority = [], additional = []\<rparr>"
  by (simp add: parse_eval sample_query_def sample_name_def)

theorem message_round_trip_witness:
  "message_ok sample_reply \<and> (\<exists>buf m'. encode_with True sample_reply = Some buf \<and>
    (\<forall>rest. message_parse (buf @ rest) = Inr m') \<and> message_same sample_reply m')"
  using message_round_trip [OF sample_reply_ok, of True] sample_reply_ok by blast

theorem encode_uncompressed_exact_witness:
  "message_ok sample_reply \<and> (\<exists>buf. encode_uncompressed sample_reply = Some buf \<and>
    message_parse buf = Inr (sample_reply\<lparr>msg_header := counted_header sample_reply\<rparr>))"
  using encode_uncompressed_exact [OF sample_reply_ok] sample_reply_ok by blast

theorem message_parse_bounds_witness:
  "\<exists>m. message_parse sample_query = Inr m \<and> length (questions m) = 1 \<and>
     12 + 5 * length (questions m) \<le> length sample_query"
  using message_parse_bounds [OF sample_query_parses] sample_query_parses by simp

theorem message_parse_trailing_witness:
  "\<exists>m. message_parse sample_query = Inr m \<and> message_parse (sample_query @ [1, 2, 3]) = Inr m"
  using message_parse_trailing [OF sample_query_parses, of "[1, 2, 3]"] sample_query_parses by blast

theorem message_reencode_witness:
  "\<exists>m out m'. message_parse sample_query = Inr m \<and> length sample_query \<le> 65027 \<and>
     encode_with True m = Some out \<and> message_parse out = Inr m' \<and> message_same m m'"
  using message_reencode [OF sample_query_parses, of True] sample_query_parses
  by (auto simp: sample_query_def)

end
