(* ===== verification/Wire_Edns.thy ===== *)
theory Wire_Edns
  imports Message_Facts
begin

unbundle bit_operations_syntax

text \<open>
  EDNS(0), \<open>wire/edns.rs\<close> and \<open>Message::edns\<close>: the OPT record read as a typed value. The option list
  is laid out as the parameters of an SVCB record are, so \<open>svcb_wire\<close> describes it.
\<close>

section \<open>The code\<close>

abbreviation (input) DO_BIT :: u16 where "DO_BIT \<equiv> 0x8000"

record edns =
  udp_payload :: u16
  ext_rcode :: byte
  edns_version :: byte
  edns_flags :: u16
  edns_options :: "(u16 \<times> byte list) list"

definition edns_default :: edns where
  "edns_default = \<lparr>udp_payload = 1232, ext_rcode = 0, edns_version = 0, edns_flags = 0,
     edns_options = []\<rparr>"

definition dnssec_ok :: "edns \<Rightarrow> bool" where
  "dnssec_ok ed \<longleftrightarrow> edns_flags ed AND DO_BIT \<noteq> 0"

definition set_dnssec_ok :: "bool \<Rightarrow> edns \<Rightarrow> edns" where
  "set_dnssec_ok on ed =
     (if on then ed\<lparr>edns_flags := edns_flags ed OR DO_BIT\<rparr>
      else ed\<lparr>edns_flags := edns_flags ed AND NOT DO_BIT\<rparr>)"

text \<open>The option loop of \<open>Edns::from_record\<close>.\<close>

function edns_opts :: "byte list \<Rightarrow> nat \<Rightarrow> (u16 \<times> byte list) list \<Rightarrow> (u16 \<times> byte list) list wire_result"
  where
  "edns_opts data i options =
     (if i + 4 \<le> length data then
        let code = u16_from_be (data ! i) (data ! (i + 1));
            len = unat (u16_from_be (data ! (i + 2)) (data ! (i + 3)));
            i = i + 4
        in if i + len > length data then Inl BadOpt
           else edns_opts data (i + len) (options @ [(code, take len (drop i data))])
      else if i \<noteq> length data then Inl BadOpt
      else Inr options)"
  by pat_completeness auto
termination
  by (relation "measure (\<lambda>(data, i, options). length data - i)") auto

declare edns_opts.simps [simp del]

definition from_record :: "rr \<Rightarrow> edns option wire_result" where
  "from_record rec =
     (if rr_type rec \<noteq> rtype_OPT then Inr None
      else let ttl = rr_ttl rec in
        map_sum id (\<lambda>options. Some
          \<lparr>udp_payload = rr_class rec, ext_rcode = ucast (drop_bit 24 ttl),
            edns_version = ucast (drop_bit 16 ttl), edns_flags = ucast ttl, edns_options = options\<rparr>)
          (case rr_data rec of Unknown _ data \<Rightarrow> edns_opts data 0 [] | _ \<Rightarrow> Inr []))"

definition to_record :: "edns \<Rightarrow> rr" where
  "to_record ed =
     (let data = fold (\<lambda>(code, val) data.
                         data @ u16_to_be code @ u16_to_be (of_nat (length val)) @ val)
                   (edns_options ed) [];
          ttl = push_bit 24 (ucast (ext_rcode ed)) OR push_bit 16 (ucast (edns_version ed)) OR
                ucast (edns_flags ed)
      in \<lparr>rr_name = name_root, rr_type = rtype_OPT, rr_class = max (udp_payload ed) 512,
           rr_ttl = ttl, rr_data = Unknown rtype_OPT data\<rparr>)"

definition is_opt :: "rr \<Rightarrow> bool" where
  "is_opt rec \<longleftrightarrow> rr_type rec = rtype_OPT"

text \<open>\<open>Message::edns\<close>: the first OPT record of the additional section.\<close>

fun edns_of :: "rr list \<Rightarrow> edns option wire_result" where
  "edns_of [] = Inr None"
| "edns_of (rec # recs) =
     (case from_record rec of
        Inl err \<Rightarrow> Inl err
      | Inr (Some ed) \<Rightarrow> Inr (Some ed)
      | Inr None \<Rightarrow> edns_of recs)"

definition message_edns :: "message \<Rightarrow> edns option wire_result" where
  "message_edns m = edns_of (additional m)"

section \<open>Options\<close>

lemma fold_options: "fold (\<lambda>(code, val) data.
    data @ u16_to_be code @ u16_to_be (of_nat (length val)) @ val) ps acc = acc @ svcb_wire ps"
  by (induction ps arbitrary: acc) (auto simp: svcb_wire_def)

lemma edns_opts_wire:
  assumes "data = pre @ svcb_wire ps" "list_all (\<lambda>(k, v). length v \<le> 65535) ps"
  shows "edns_opts data (length pre) acc = Inr (acc @ ps)"
  using assms
proof (induction ps arbitrary: pre acc)
  case Nil
  then show ?case by (subst edns_opts.simps) (simp add: svcb_wire_def)
next
  case (Cons p ps)
  obtain k v where p: "p = (k, v)" by (cases p)
  let ?hd = "u16_to_be k @ u16_to_be (of_nat (length v)) @ v"
  have data: "data = (pre @ ?hd) @ svcb_wire ps" using Cons.prems(1) by (simp add: svcb_wire_def p)
  have n: "unat (of_nat (length v) :: u16) = length v" using Cons.prems(2) by (simp add: p unat_count)
  have len: "length (pre @ ?hd) = length pre + 4 + length v" by simp
  have "edns_opts data (length pre + 4 + length v) (acc @ [(k, v)]) = Inr ((acc @ [(k, v)]) @ ps)"
    using Cons.IH [OF data, of "acc @ [(k, v)]"] Cons.prems(2) unfolding len by simp
  then show ?case
    by (subst edns_opts.simps)
      (simp add: data p u16_to_be_def nth_append be_simps n Let_def)
qed

lemma edns_opts_sound:
  assumes "edns_opts data i acc = Inr ps" "i \<le> length data"
  shows "\<exists>qs. ps = acc @ qs \<and> drop i data = svcb_wire qs \<and> list_all (\<lambda>(k, v). length v \<le> 65535) qs"
  using assms
proof (induction data i acc rule: edns_opts.induct)
  case (1 data i acc)
  show ?case
  proof (cases "i + 4 \<le> length data")
    case False
    with 1 show ?thesis
      by (subst (asm) edns_opts.simps) (auto simp: svcb_wire_def split: if_splits)
  next
    case True
    let ?code = "u16_from_be (data ! i) (data ! (i + 1))"
    let ?vl = "u16_from_be (data ! (i + 2)) (data ! (i + 3))"
    let ?v = "take (unat ?vl) (drop (i + 4) data)"
    from True 1(2) have fits: "i + 4 + unat ?vl \<le> length data"
      and rest: "edns_opts data (i + 4 + unat ?vl) (acc @ [(?code, ?v)]) = Inr ps"
      by (subst (asm) edns_opts.simps, auto simp: Let_def split: if_splits)+
    from fits have lv: "length ?v = unat ?vl" by simp
    from 1(1) [OF True refl refl refl _ rest] fits obtain qs where qs: "ps = (acc @ [(?code, ?v)]) @ qs"
      "drop (i + 4 + unat ?vl) data = svcb_wire qs" "list_all (\<lambda>(k, v). length v \<le> 65535) qs"
      by auto
    have "drop i data = u16_to_be ?code @ u16_to_be ?vl @ drop (i + 4) data"
      using True by (simp add: u16_to_from_be Cons_nth_drop_Suc numeral_eq_Suc)
    also have "drop (i + 4) data = ?v @ svcb_wire qs"
      by (metis append_take_drop_id drop_drop add.commute qs(2))
    also have "u16_to_be ?code @ u16_to_be ?vl @ ?v @ svcb_wire qs = svcb_wire ((?code, ?v) # qs)"
      unfolding svcb_wire_def list.map concat.simps prod.case lv by simp
    finally have "drop i data = svcb_wire ((?code, ?v) # qs)" .
    with qs lv unat_u16_le [of ?vl] show ?thesis
      by (intro exI [of _ "(?code, ?v) # qs"]) simp
  qed
qed

section \<open>The OPT record\<close>

lemma edns_ttl:
  fixes x v :: byte and f :: u16
  defines "ttl \<equiv> push_bit 24 (ucast x) OR push_bit 16 (ucast v) OR ucast f :: u32"
  shows "ucast (drop_bit 24 ttl) = x" "ucast (drop_bit 16 ttl) = v" "ucast ttl = f"
  unfolding ttl_def by (rule bit_word_eqI; auto simp: bit_simps dest: bit_imp_le_length)+

definition edns_fits :: "edns \<Rightarrow> bool" where
  "edns_fits ed \<longleftrightarrow> 512 \<le> udp_payload ed \<and> list_all (\<lambda>(k, v). length v \<le> 65535) (edns_options ed)"

lemma from_to_record: "edns_fits ed \<Longrightarrow> from_record (to_record ed) = Inr (Some ed)"
  using edns_opts_wire [of "svcb_wire (edns_options ed)" "[]" "edns_options ed" "[]"]
  by (simp add: from_record_def to_record_def fold_options edns_fits_def Let_def edns_ttl max_absorb1
      del: drop_bit_or)

lemma opt_ttl_unique:
  "push_bit 24 (ucast (ucast (drop_bit 24 ttl) :: byte)) OR
     push_bit 16 (ucast (ucast (drop_bit 16 ttl) :: byte)) OR ucast (ucast ttl :: u16) = (ttl :: u32)"
proof (rule bit_word_eqI)
  fix n :: nat
  consider "n < 16" | "16 \<le> n" "n < 24" | "24 \<le> n" by linarith
  then show "bit (push_bit 24 (ucast (ucast (drop_bit 24 ttl) :: byte) :: u32) OR
      push_bit 16 (ucast (ucast (drop_bit 16 ttl) :: byte)) OR ucast (ucast ttl :: u16)) n = bit ttl n"
    if "n < LENGTH(32)" using that by cases (auto simp: bit_simps)
qed

lemma to_record_ok:
  "edns_fits ed \<Longrightarrow> length (svcb_wire (edns_options ed)) \<le> 65535 \<Longrightarrow> rr_ok (to_record ed)"
  by (simp add: rr_ok_def rdata_ok_def to_record_def fold_options Let_def)

lemma from_record_same: "rr_same r s \<Longrightarrow> from_record s = from_record r"
  unfolding rr_same_def from_record_def by (cases r; cases s) simp

lemma edns_of_same: "list_all2 rr_same rs ss \<Longrightarrow> edns_of ss = edns_of rs"
  by (induction rule: list_all2_induct) (auto simp: from_record_same split: sum.split option.split)

lemma edns_of_append: "list_all (\<lambda>r. \<not> is_opt r) rs \<Longrightarrow> edns_of (rs @ ss) = edns_of ss"
  by (induction rs) (simp_all add: is_opt_def from_record_def)

lemma dnssec_ok_set [simp]: "dnssec_ok (set_dnssec_ok on ed) = on"
proof -
  have "(w AND DO_BIT \<noteq> 0) = bit w 15" for w :: u16
    using and_exp_eq_0_iff_not_bit [of w 15] by simp
  then show ?thesis by (simp add: dnssec_ok_def set_dnssec_ok_def bit_simps)
qed

text \<open>
  C28. EDNS survives the wire: take an EDNS value with a payload size of at least 512 (smaller ones are
  raised to 512 when the record is built) and options of at most 65535 octets in all, and a well-formed
  message with room for one more additional record and no OPT record yet. The OPT record built from
  the value and appended to the additional section is found again, as the same value, in the message
  parsed from the encoding.
\<close>

theorem edns_survives:
  assumes "message_ok m" "length (additional m) < 65535" "list_all (\<lambda>r. \<not> is_opt r) (additional m)"
    and ed: "edns_fits ed" "length (svcb_wire (edns_options ed)) \<le> 65535"
  shows "\<exists>buf m'. encode_with c (m\<lparr>additional := additional m @ [to_record ed]\<rparr>) = Some buf \<and>
    message_parse buf = Inr m' \<and> message_edns m' = Inr (Some ed)"
proof -
  let ?m = "m\<lparr>additional := additional m @ [to_record ed]\<rparr>"
  have "message_ok ?m" using assms(1,2) to_record_ok [OF ed] by (simp add: message_ok_def)
  from message_sameI [OF this, of c] obtain buf m' where out: "encode_with c ?m = Some buf"
    "\<And>rest. message_parse (buf @ rest) = Inr m'" and same: "message_same ?m m'" by auto
  from same have "message_edns m' = edns_of (additional m @ [to_record ed])"
    by (simp add: message_edns_def message_same_def edns_of_same)
  with assms(3) ed(1) have "message_edns m' = Inr (Some ed)"
    by (simp add: edns_of_append from_to_record)
  with out(1) out(2) [of "[]"] show ?thesis by auto
qed

theorem edns_survives_witness:
  "\<exists>buf m'. encode_with True (sample_reply\<lparr>additional := [to_record (set_dnssec_ok True edns_default)]\<rparr>) =
     Some buf \<and> message_parse buf = Inr m' \<and>
     message_edns m' = Inr (Some (set_dnssec_ok True edns_default))"
  using edns_survives [OF sample_reply_ok, of "set_dnssec_ok True edns_default" True]
  by (simp add: edns_fits_def edns_default_def set_dnssec_ok_def svcb_wire_def sample_reply_def)

text \<open>
  Reading an OPT record loses nothing: when the option list is accepted and the advertised
  payload size is at least 512, building a record from the value read gives the record back, but
  for its owner name, which becomes the root.
\<close>

theorem opt_reencode:
  assumes "from_record r = Inr (Some ed)" "rr_data r = Unknown rtype_OPT data" "512 \<le> rr_class r"
  shows "to_record ed = r\<lparr>rr_name := name_root\<rparr>"
proof -
  from assms have t: "rr_type r = rtype_OPT" by (auto simp: from_record_def split: if_splits)
  with assms obtain ps where ps: "edns_opts data 0 [] = Inr ps"
    and ed: "ed = \<lparr>udp_payload = rr_class r, ext_rcode = ucast (drop_bit 24 (rr_ttl r)),
        edns_version = ucast (drop_bit 16 (rr_ttl r)), edns_flags = ucast (rr_ttl r), edns_options = ps\<rparr>"
    by (cases "edns_opts data 0 []") (auto simp: from_record_def Let_def)
  from edns_opts_sound [OF ps] have "data = svcb_wire ps" by auto
  then show ?thesis using assms t
    by (cases r) (simp add: ed to_record_def fold_options opt_ttl_unique max_absorb1 Let_def)
qed

theorem opt_reencode_witness:
  "to_record \<lparr>udp_payload = 1232, ext_rcode = 0, edns_version = 0, edns_flags = 0x8000,
      edns_options = [(10, [1, 2])]\<rparr> =
    \<lparr>rr_name = name_root, rr_type = rtype_OPT, rr_class = 1232, rr_ttl = 0x8000,
      rr_data = Unknown rtype_OPT [0, 10, 0, 2, 1, 2]\<rparr>"
  using opt_reencode [of "\<lparr>rr_name = sample_name, rr_type = rtype_OPT, rr_class = 1232,
      rr_ttl = 0x8000, rr_data = Unknown rtype_OPT [0, 10, 0, 2, 1, 2]\<rparr>"
    "\<lparr>udp_payload = 1232, ext_rcode = 0, edns_version = 0, edns_flags = 0x8000,
      edns_options = [(10, [1, 2])]\<rparr>" "[0, 10, 0, 2, 1, 2]"]
  by (simp add: from_record_def edns_opts.simps u16_from_be_def)

end
