(* ===== verification/Name_Present.thy ===== *)
theory Name_Present
  imports Wire_Edns
begin

text \<open>
  Names in presentation format, \<open>Name::to_ascii\<close> and \<open>Name::from_ascii\<close> of \<open>wire/name.rs\<close>. A string
  is its UTF-8 octets here, which is what \<open>from_ascii\<close> works on; \<open>to_ascii\<close> only produces ASCII.
\<close>

section \<open>The code\<close>

abbreviation (input) DOT :: byte where "DOT \<equiv> 46"
abbreviation (input) BACKSLASH :: byte where "BACKSLASH \<equiv> 92"

definition is_ascii_digit :: "byte \<Rightarrow> bool" where
  "is_ascii_digit b \<longleftrightarrow> 48 \<le> b \<and> b \<le> 57"

text \<open>\<open>format!("{b:03}")\<close>\<close>

definition dec3 :: "byte \<Rightarrow> byte list" where
  "dec3 b = [of_nat (48 + unat b div 100), of_nat (48 + unat b div 10 mod 10), of_nat (48 + unat b mod 10)]"

definition escape_octet :: "byte \<Rightarrow> byte list" where
  "escape_octet b =
     (if b = DOT \<or> b = BACKSLASH then [BACKSLASH, b]
      else if 0x21 \<le> b \<and> b \<le> 0x7E then [b]
      else BACKSLASH # dec3 b)"

function to_ascii_loop :: "byte list \<Rightarrow> nat \<Rightarrow> byte list \<Rightarrow> byte list option" where
  "to_ascii_loop w i s =
     (if i < length w then
        (if w ! i = 0 then Some s
         else let ll = unat (w ! i) in
           (case subslice w (i + 1) (i + 1 + ll) of
              None \<Rightarrow> None
            | Some l \<Rightarrow> to_ascii_loop w (i + (1 + ll)) (s @ concat (map escape_octet l) @ [DOT])))
      else None)"
  by pat_completeness auto
termination
  by (relation "measure (\<lambda>(w, i, s). length w - i)") auto

definition to_ascii :: "name \<Rightarrow> byte list option" where
  "to_ascii n = (if is_root n then Some [DOT] else to_ascii_loop (name_wire n) 0 [])"

text \<open>The closure \<open>flush\<close>: the pending label is appended to the wire form and cleared.\<close>

definition flush_label :: "byte list \<Rightarrow> byte list \<Rightarrow> (byte list \<times> byte list) wire_result" where
  "flush_label label wire =
     (if label = [] then Inr (label, wire)
      else if length label > MAX_LABEL then Inl (LabelTooLong (of_nat (length label)))
      else if length wire + 1 + length label + 1 > MAX_NAME_WIRE then Inl NameTooLong
      else Inr ([], wire @ of_nat (length label) # label))"

function from_ascii_loop :: "byte list \<Rightarrow> nat \<Rightarrow> byte list \<Rightarrow> byte list \<Rightarrow> (byte list \<times> byte list) wire_result"
  where
  "from_ascii_loop bytes i label wire =
     (if i < length bytes then
        let c = bytes ! i in
        if c = DOT then
          (case flush_label label wire of
             Inl err \<Rightarrow> Inl err
           | Inr (label, wire) \<Rightarrow> from_ascii_loop bytes (i + 1) label wire)
        else if c = BACKSLASH then
          if i + 1 \<ge> length bytes then Inl BadName
          else let n = bytes ! (i + 1) in
            if is_ascii_digit n then
              if i + 3 \<ge> length bytes \<or> \<not> is_ascii_digit (bytes ! (i + 2)) \<or>
                 \<not> is_ascii_digit (bytes ! (i + 3))
              then Inl BadName
              else let v = unat (n - 48) * 100 + unat (bytes ! (i + 2) - 48) * 10 +
                           unat (bytes ! (i + 3) - 48)
                in if v > 255 then Inl BadName
                   else from_ascii_loop bytes (i + 4) (label @ [of_nat v]) wire
            else from_ascii_loop bytes (i + 2) (label @ [n]) wire
        else from_ascii_loop bytes (i + 1) (label @ [c]) wire
      else Inr (label, wire))"
  by pat_completeness auto
termination
  by (relation "measure (\<lambda>(bytes, i, label, wire). length bytes - i)") auto

definition from_ascii :: "byte list \<Rightarrow> name wire_result" where
  "from_ascii s =
     (if s = [] \<or> s = [DOT] then Inr name_root
      else case from_ascii_loop s 0 [] [] of
             Inl err \<Rightarrow> Inl err
           | Inr (label, wire) \<Rightarrow>
             (case flush_label label wire of
                Inl err \<Rightarrow> Inl err
              | Inr (_, wire) \<Rightarrow> Inr (Name (wire @ [0]))))"

declare to_ascii_loop.simps [simp del] from_ascii_loop.simps [simp del]

section \<open>What is printed\<close>

definition label_text :: "byte list \<Rightarrow> byte list" where
  "label_text l = concat (map escape_octet l) @ [DOT]"

lemma to_ascii_loop_wire:
  "drop i w = wire_of ls \<Longrightarrow> list_all label_ok ls \<Longrightarrow>
     to_ascii_loop w i s = Some (s @ concat (map label_text ls))"
proof (induction ls arbitrary: i s)
  case Nil
  with wire_stop [OF Nil(1)] show ?case by (subst to_ascii_loop.simps) simp
next
  case (Cons l ls)
  then have "label_ok l" by simp
  note step = wire_step [OF Cons.prems(1) this]
  from Cons.IH [OF step(6)] Cons.prems(2) step(1-5) show ?case
    by (subst to_ascii_loop.simps) (simp add: label_text_def [abs_def])
qed

lemma to_ascii_wire_of:
  assumes "list_all label_ok ls"
  shows "to_ascii (Name (wire_of ls)) = Some (if ls = [] then [DOT] else concat (map label_text ls))"
proof (cases ls)
  case (Cons l ls')
  then show ?thesis using to_ascii_loop_wire [of 0 "wire_of ls" ls "[]"] assms
    by (auto simp: to_ascii_def is_root_def label_ok_def)
qed (simp add: to_ascii_def is_root_def)

lemma to_ascii_valid: "valid_name n \<Longrightarrow> \<exists>s. to_ascii n = Some s"
  by (metis valid_nameE to_ascii_wire_of)

section \<open>Reading it back\<close>

lemma dec3_digit:
  assumes "d \<le> 9"
  shows "is_ascii_digit (of_nat (48 + d))" "unat (of_nat (48 + d) - 48 :: byte) = d"
proof -
  have "unat (of_nat (48 + d) :: byte) = 48 + d" using assms by (simp add: unat_of_nat del: of_nat_add)
  then show "is_ascii_digit (of_nat (48 + d))"
    using assms by (simp add: is_ascii_digit_def word_le_nat_alt del: of_nat_add)
  show "unat (of_nat (48 + d) - 48 :: byte) = d" using assms by (simp add: unat_of_nat)
qed

lemma dec3_value: "x div 100 * 100 + x div 10 mod 10 * 10 + x mod 10 = (x :: nat)"
proof -
  have "x div 100 = x div 10 div 10" by (simp flip: div_mult2_eq)
  then show ?thesis using div_mult_mod_eq [of x 10] div_mult_mod_eq [of "x div 10" 10] by linarith
qed

lemma dec3_eq:
  obtains x y z where "dec3 b = [x, y, z]" "is_ascii_digit x" "is_ascii_digit y" "is_ascii_digit z"
    "unat (x - 48) * 100 + unat (y - 48) * 10 + unat (z - 48) = unat b"
proof (rule that [OF dec3_def])
  have d: "unat b div 100 \<le> 9" "unat b div 10 mod 10 \<le> 9" "unat b mod 10 \<le> 9"
    using unat_byte_le [of b] by simp_all
  show "is_ascii_digit (of_nat (48 + unat b div 100))"
    "is_ascii_digit (of_nat (48 + unat b div 10 mod 10))" "is_ascii_digit (of_nat (48 + unat b mod 10))"
    by (rule dec3_digit(1), rule d)+
  show "unat (of_nat (48 + unat b div 100) - 48 :: byte) * 100 +
      unat (of_nat (48 + unat b div 10 mod 10) - 48 :: byte) * 10 +
      unat (of_nat (48 + unat b mod 10) - 48 :: byte) = unat b"
    unfolding dec3_digit(2) [OF d(1)] dec3_digit(2) [OF d(2)] dec3_digit(2) [OF d(3)]
    by (rule dec3_value)
qed

lemma from_ascii_loop_octet:
  assumes "bytes_at s i (escape_octet b)"
  shows "from_ascii_loop s i label wire =
    from_ascii_loop s (i + length (escape_octet b)) (label @ [b]) wire"
proof -
  consider "b = DOT \<or> b = BACKSLASH" | "b \<noteq> DOT" "b \<noteq> BACKSLASH" "0x21 \<le> b" "b \<le> 0x7E"
    | "b \<noteq> DOT" "b \<noteq> BACKSLASH" "\<not> (0x21 \<le> b \<and> b \<le> 0x7E)" by blast
  then show ?thesis
  proof cases
    case 1
    then have "s ! i = BACKSLASH" "s ! (i + 1) = b" "i + 1 < length s" "\<not> is_ascii_digit b"
      "length (escape_octet b) = 2"
      using assms by (auto simp: escape_octet_def bytes_at_Cons is_ascii_digit_def)
    then show ?thesis by (subst from_ascii_loop.simps) (simp add: Let_def)
  next
    case 2
    then have "s ! i = b" "i < length s" "length (escape_octet b) = 1"
      using assms by (auto simp: escape_octet_def bytes_at_Cons)
    with 2 show ?thesis by (subst from_ascii_loop.simps) (simp add: Let_def)
  next
    case 3
    obtain x y z where d: "dec3 b = [x, y, z]" "is_ascii_digit x" "is_ascii_digit y"
      "is_ascii_digit z" "unat (x - 48) * 100 + unat (y - 48) * 10 + unat (z - 48) = unat b"
      by (rule dec3_eq)
    have e: "escape_octet b = [BACKSLASH, x, y, z]" using 3 by (auto simp: escape_octet_def d(1))
    have at: "s ! i = BACKSLASH" "s ! (i + 1) = x" "s ! (i + 2) = y" "s ! (i + 3) = z"
      "i + 3 < length s"
      using assms by (auto simp: e bytes_at_Cons numeral_eq_Suc)
    have "length (escape_octet b) = 4" by (simp add: e)
    then show ?thesis using at d(2-5) unat_byte_le [of b]
      by (subst from_ascii_loop.simps) (simp add: Let_def)
  qed
qed

lemma from_ascii_loop_label:
  "bytes_at s i (concat (map escape_octet l)) \<Longrightarrow>
     from_ascii_loop s i label wire =
     from_ascii_loop s (i + length (concat (map escape_octet l))) (label @ l) wire"
proof (induction l arbitrary: i label)
  case (Cons b l)
  then have b: "bytes_at s i (escape_octet b)"
    and l: "bytes_at s (i + length (escape_octet b)) (concat (map escape_octet l))" by simp_all
  show ?case unfolding from_ascii_loop_octet [OF b] Cons.IH [OF l] by (simp add: add.assoc)
qed simp


text \<open>A whole name: the loop collects the labels already flushed in \<open>pre\<close>.\<close>

definition flushed :: "byte list list \<Rightarrow> byte list" where
  "flushed ls = concat (map (\<lambda>l. of_nat (length l) # l) ls)"

lemma wire_of_flushed: "wire_of ls = flushed ls @ [0]"
  by (induction ls) (simp_all add: flushed_def)

lemma flushed_snoc: "flushed (ls @ [l]) = flushed ls @ of_nat (length l) # l"
  by (simp add: flushed_def)

lemma flush_label_ok:
  assumes "label_ok l" "length (wire_of (pre @ [l])) \<le> MAX_NAME_WIRE"
  shows "flush_label l (flushed pre) = Inr ([], flushed (pre @ [l]))"
  using assms by (auto simp: flush_label_def wire_of_flushed flushed_snoc label_ok_def)

lemma length_wire_of_append: "length (wire_of xs) \<le> length (wire_of (xs @ ys))"
  by (simp add: wire_of_flushed flushed_def)

lemma from_ascii_loop_labels:
  assumes "bytes_at s i (concat (map label_text ls))" "length s = i + length (concat (map label_text ls))"
    "list_all label_ok ls" "length (wire_of (pre @ ls)) \<le> MAX_NAME_WIRE"
  shows "from_ascii_loop s i [] (flushed pre) = Inr ([], flushed (pre @ ls))"
  using assms
proof (induction ls arbitrary: i pre)
  case Nil
  then show ?case by (subst from_ascii_loop.simps) simp
next
  case (Cons l ls)
  let ?i = "i + length (concat (map escape_octet l))"
  have t: "concat (map label_text (l # ls)) = concat (map escape_octet l) @ [DOT] @ concat (map label_text ls)"
    by (simp add: label_text_def)
  from Cons.prems(1) have at: "bytes_at s i (concat (map escape_octet l))" "bytes_at s ?i [DOT]"
    "bytes_at s (?i + 1) (concat (map label_text ls))" unfolding t bytes_at_append by simp_all
  have len: "length s = ?i + 1 + length (concat (map label_text ls))"
    using Cons.prems(2) unfolding t by simp
  have w: "length (wire_of ((pre @ [l]) @ ls)) \<le> MAX_NAME_WIRE" using Cons.prems(4) by simp
  have "from_ascii_loop s i [] (flushed pre) = from_ascii_loop s ?i l (flushed pre)"
    using from_ascii_loop_label [OF at(1), of "[]"] by simp
  also have "\<dots> = from_ascii_loop s (?i + 1) [] (flushed (pre @ [l]))"
    using at(2) flush_label_ok [of l pre] Cons.prems(3)
      order_trans [OF length_wire_of_append w] by (subst from_ascii_loop.simps) (simp add: bytes_at_Cons)
  also have "\<dots> = Inr ([], flushed (pre @ l # ls))"
    using Cons.IH [OF at(3) len _ w] Cons.prems(3) by simp
  finally show ?case .
qed

lemma from_to_ascii:
  assumes "valid_name n"
  shows "\<exists>s. to_ascii n = Some s \<and> from_ascii s = Inr n"
proof -
  from assms obtain ls where n: "n = Name (wire_of ls)" and ok: "list_all label_ok ls"
    "length (wire_of ls) \<le> MAX_NAME_WIRE" by (rule valid_nameE)
  show ?thesis
  proof (cases ls)
    case Nil
    then show ?thesis
      by (intro exI [of _ "[DOT]"]) (simp add: n to_ascii_def is_root_def from_ascii_def name_root_def)
  next
    case (Cons l ls')
    let ?s = "concat (map label_text ls)"
    have "bytes_at ?s 0 ?s" by (simp add: bytes_at_def)
    from from_ascii_loop_labels [OF this _ ok(1), of "[]"] ok(2)
    have "from_ascii_loop ?s 0 [] [] = Inr ([], flushed ls)" by (simp add: flushed_def)
    moreover from Cons ok(1) have "?s \<noteq> [] \<and> ?s \<noteq> [DOT]"
      by (cases l) (auto simp: label_text_def label_ok_def escape_octet_def)
    ultimately have "from_ascii ?s = Inr n" by (auto simp: n from_ascii_def flush_label_def wire_of_flushed)
    moreover have "ls \<noteq> []" using Cons by simp
    then have "to_ascii n = Some ?s" by (simp only: n to_ascii_wire_of [OF ok(1)] if_False)
    ultimately show ?thesis by blast
  qed
qed

section \<open>What is accepted\<close>

definition flushed_ok :: "byte list \<Rightarrow> bool" where
  "flushed_ok wire \<longleftrightarrow> (\<exists>ls. wire = flushed ls \<and> list_all label_ok ls \<and> length wire < MAX_NAME_WIRE)"

lemma flush_label_sound:
  assumes "flush_label label wire = Inr (label', wire')" "flushed_ok wire"
  shows "label' = [] \<and> flushed_ok wire'"
proof (cases "label = []")
  case False
  from assms(2) obtain ls where ls: "wire = flushed ls" "list_all label_ok ls"
    by (auto simp: flushed_ok_def)
  from assms(1) False have l: "label_ok label" "label' = []"
    "wire' = flushed (ls @ [label])" "length wire' < MAX_NAME_WIRE"
    by (auto simp: flush_label_def label_ok_def ls(1) flushed_snoc split: if_splits)
  moreover from ls l have "list_all label_ok (ls @ [label])" by simp
  ultimately show ?thesis unfolding flushed_ok_def by blast
qed (use assms in \<open>simp add: flush_label_def\<close>)

text \<open>One round of the loop: the cursor moves on, and the wire form changes only by a flush.\<close>

lemma from_ascii_loop_step:
  assumes "from_ascii_loop s i label wire = Inr r" "i < length s"
  obtains j label1 wire1 where "i < j" "from_ascii_loop s j label1 wire1 = Inr r"
    "wire1 = wire \<or> flush_label label wire = Inr (label1, wire1)"
proof -
  note step = that
  note loop = assms(1) [unfolded from_ascii_loop.simps [of s i label wire] Let_def]
  consider (dot) "s ! i = DOT" | (esc) "s ! i = BACKSLASH" | (plain) "s ! i \<noteq> DOT" "s ! i \<noteq> BACKSLASH"
    by blast
  then show thesis
  proof cases
    case dot
    with loop assms(2) obtain label1 wire1 where "flush_label label wire = Inr (label1, wire1)"
      "from_ascii_loop s (i + 1) label1 wire1 = Inr r" by (auto split: sum.splits)
    with that [of "i + 1"] show thesis by simp
  next
    case esc
    with loop assms(2) have "(\<exists>v. from_ascii_loop s (i + 4) (label @ [v]) wire = Inr r) \<or>
        (\<exists>v. from_ascii_loop s (i + 2) (label @ [v]) wire = Inr r)"
      by (simp split: if_splits) blast+
    then show thesis
    proof (elim disjE exE)
      show thesis if "from_ascii_loop s (i + 4) (label @ [v]) wire = Inr r" for v
        using step [OF _ that] by simp
      show thesis if "from_ascii_loop s (i + 2) (label @ [v]) wire = Inr r" for v
        using step [OF _ that] by simp
    qed
  next
    case plain
    with loop assms(2) that [of "i + 1" "label @ [s ! i]" wire] show thesis by simp
  qed
qed

lemma from_ascii_loop_sound:
  "from_ascii_loop s i label wire = Inr (label', wire') \<Longrightarrow> flushed_ok wire \<Longrightarrow> flushed_ok wire'"
proof (induction "length s - i" arbitrary: i label wire rule: less_induct)
  case less
  show ?case
  proof (cases "i < length s")
    case True
    from from_ascii_loop_step [OF less.prems(1) True] obtain j label1 wire1 where j: "i < j"
      "from_ascii_loop s j label1 wire1 = Inr (label', wire')"
      "wire1 = wire \<or> flush_label label wire = Inr (label1, wire1)" by metis
    from j(3) less.prems(2) have "flushed_ok wire1" using flush_label_sound by blast
    with less.hyps [OF _ j(2)] j(1) True show ?thesis by simp
  next
    case False
    with less.prems show ?thesis by (subst (asm) from_ascii_loop.simps) simp
  qed
qed

lemma from_ascii_valid:
  assumes "from_ascii s = Inr n"
  shows "valid_name n"
proof (cases "s = [] \<or> s = [DOT]")
  case True
  with assms show ?thesis by (auto simp: from_ascii_def)
next
  case False
  with assms obtain label wire label' wire' where l: "from_ascii_loop s 0 [] [] = Inr (label, wire)"
    "flush_label label wire = Inr (label', wire')" "n = Name (wire' @ [0])"
    by (auto simp: from_ascii_def split: sum.splits)
  have "flushed_ok []" unfolding flushed_ok_def flushed_def by (intro exI [of _ "[]"]) simp
  from flush_label_sound [OF l(2) from_ascii_loop_sound [OF l(1) this]] obtain ls where
    "wire' = flushed ls" "list_all label_ok ls" "length wire' < MAX_NAME_WIRE"
    by (auto simp: flushed_ok_def)
  with l(3) show ?thesis using valid_nameI [of ls] by (simp add: wire_of_flushed)
qed

section \<open>Properties\<close>

text \<open>
  C29. Printing a valid name never panics, and reading the text gives the name back octet for octet,
  whatever octets its labels hold.
\<close>

theorem name_text_round_trip:
  assumes "valid_name n"
  shows "\<exists>s. to_ascii n = Some s \<and> from_ascii s = Inr n"
  using assms by (rule from_to_ascii)

theorem name_text_round_trip_witness:
  "valid_name (Name [3, 46, 0, 65, 0]) \<and>
     (\<exists>s. to_ascii (Name [3, 46, 0, 65, 0]) = Some s \<and> from_ascii s = Inr (Name [3, 46, 0, 65, 0]))"
proof -
  have "valid_name (Name [3, 46, 0, 65, 0])" by code_simp
  with name_text_round_trip [OF this] show ?thesis by blast
qed

text \<open>
  Whatever text \<open>from_ascii\<close> accepts, the name it returns is valid (labels of 1 to 63 octets,
  at most 255 octets in all), and its printed form reads back to it.
\<close>

theorem from_ascii_canonical:
  assumes "from_ascii s = Inr n"
  shows "valid_name n \<and> (\<exists>t. to_ascii n = Some t \<and> from_ascii t = Inr n)"
  using from_ascii_valid [OF assms] from_to_ascii by blast

lemma from_ascii_sample: "from_ascii [97, 46, 98] = Inr (Name [1, 97, 1, 98, 0])"
  by (simp add: from_ascii_def from_ascii_loop.simps flush_label_def)

theorem from_ascii_canonical_witness:
  "valid_name (Name [1, 97, 1, 98, 0]) \<and> from_ascii [97, 46, 98] = Inr (Name [1, 97, 1, 98, 0])"
  using from_ascii_canonical [OF from_ascii_sample] from_ascii_sample by blast

text \<open>An empty label is skipped wherever it stands: \<open>a..b\<close> and \<open>.a.b\<close> are read as \<open>a.b\<close>.\<close>

theorem from_ascii_empty_labels:
  "from_ascii [97, 46, 46, 98] = from_ascii [97, 46, 98]"
  "from_ascii [46, 97, 46, 98] = from_ascii [97, 46, 98]"
  by (simp_all add: from_ascii_def from_ascii_loop.simps flush_label_def)

end
