(* ===== verification/Name_Order.thy ===== *)
theory Name_Order
  imports Name_Present
begin

text \<open>
  The canonical order of names (RFC 4034, \<open>Name::canonical_cmp\<close>) and zone membership
  (\<open>Name::is_in_zone\<close>). The order is a lexicographic order over a lexicographic order; both steps are
  one lemma of the interface \<open>comparator\<close>.
\<close>

section \<open>Comparison functions\<close>

fun flip_ord :: "ordering \<Rightarrow> ordering" where
  "flip_ord Less = Greater"
| "flip_ord Equal = Equal"
| "flip_ord Greater = Less"

fun lex_cmp :: "('a \<Rightarrow> 'a \<Rightarrow> ordering) \<Rightarrow> 'a list \<Rightarrow> 'a list \<Rightarrow> ordering" where
  "lex_cmp cmp [] [] = Equal"
| "lex_cmp cmp [] (_ # _) = Less"
| "lex_cmp cmp (_ # _) [] = Greater"
| "lex_cmp cmp (x # xs) (y # ys) = (case cmp x y of Equal \<Rightarrow> lex_cmp cmp xs ys | ord \<Rightarrow> ord)"

text \<open>What \<open>Ord\<close> promises of \<open>cmp\<close>.\<close>

locale comparator =
  fixes cmp :: "'a \<Rightarrow> 'a \<Rightarrow> ordering"
  assumes equal_iff: "cmp x y = Equal \<longleftrightarrow> x = y"
    and flip: "cmp y x = flip_ord (cmp x y)"
    and less_trans: "cmp x y = Less \<Longrightarrow> cmp y z = Less \<Longrightarrow> cmp x z = Less"
begin

lemma cmp_refl [simp]: "cmp x x = Equal"
  by (simp add: equal_iff)

lemma lex_equal_iff: "lex_cmp cmp xs ys = Equal \<longleftrightarrow> xs = ys"
  by (induction xs ys rule: list_induct2') (auto simp: equal_iff split: ordering.splits)

lemma lex_flip: "lex_cmp cmp ys xs = flip_ord (lex_cmp cmp xs ys)"
proof (induction xs ys rule: list_induct2')
  case (4 x xs y ys)
  then show ?case using flip [of y x] by (cases "cmp x y") simp_all
qed simp_all

lemma lex_less_trans: "lex_cmp cmp xs ys = Less \<Longrightarrow> lex_cmp cmp ys zs = Less \<Longrightarrow> lex_cmp cmp xs zs = Less"
proof (induction xs arbitrary: ys zs)
  case Nil
  then show ?case by (cases ys; cases zs) simp_all
next
  case (Cons x xs)
  from Cons.prems obtain y ys' z zs' where c: "ys = y # ys'" "zs = z # zs'"
    by (cases ys; cases zs) auto
  with Cons.prems have "cmp x y = Less \<or> x = y" "cmp y z = Less \<or> y = z"
    by (auto simp: equal_iff split: ordering.splits)
  with Cons c less_trans [of x y z] show ?case by (auto simp: equal_iff split: ordering.splits)
qed

lemma lex_comparator: "comparator (lex_cmp cmp)"
  by unfold_locales (rule lex_equal_iff, rule lex_flip, erule (1) lex_less_trans)

end

definition byte_cmp :: "byte \<Rightarrow> byte \<Rightarrow> ordering" where
  "byte_cmp x y = (if x < y then Less else if y < x then Greater else Equal)"

interpretation byte_order: comparator byte_cmp
  by unfold_locales (auto simp: byte_cmp_def split: if_splits)

lemma bytes_cmp_lex: "bytes_cmp xs ys = lex_cmp byte_cmp xs ys"
  by (induction xs ys rule: list_induct2') (simp_all add: byte_cmp_def)

interpretation bytes_order: comparator bytes_cmp
  using byte_order.lex_comparator by (simp add: bytes_cmp_lex [abs_def])

interpretation labels_order: comparator "lex_cmp bytes_cmp"
  by (rule bytes_order.lex_comparator)

section \<open>The canonical order of names\<close>

lemma labels_cmp_loop_lex:
  "labels_cmp_loop (zip xs ys) (nat_cmp (length xs) (length ys)) = lex_cmp bytes_cmp xs ys"
proof (induction xs ys rule: list_induct2')
  case (4 x xs y ys)
  have "nat_cmp (length (x # xs)) (length (y # ys)) = nat_cmp (length xs) (length ys)"
    by (simp add: nat_cmp_def)
  with 4 show ?case by (cases "bytes_cmp x y") simp_all
qed (simp_all add: nat_cmp_def)

text \<open>The key names are ordered by: the lower-cased labels, the last one first.\<close>

definition order_key :: "name \<Rightarrow> byte list list" where
  "order_key n = rev (map lower (labels n))"

lemma canonical_cmp_key:
  "valid_name x \<Longrightarrow> valid_name y \<Longrightarrow>
     canonical_cmp x y = Some (lex_cmp bytes_cmp (order_key x) (order_key y))"
  using labels_cmp_loop_lex [of "order_key x" "order_key y"]
  by (simp add: canonical_cmp_def labels_lower_valid order_key_def)

lemma order_key_eq:
  "valid_name x \<Longrightarrow> valid_name y \<Longrightarrow> order_key x = order_key y \<longleftrightarrow> eq_ignore_ascii_case x y"
  by (elim valid_nameE) (simp add: order_key_def eq_ignore_ascii_case_labels)

text \<open>
  C30. On valid names the canonical comparison never panics and is a total order up to letter case:
  it answers \<open>Equal\<close> exactly for names that are equal under \<open>Name::eq\<close>, swapping the names flips
  the answer, and \<open>Less\<close> is transitive.
\<close>

theorem canonical_cmp_order:
  assumes "valid_name x" "valid_name y" "valid_name z"
  shows "\<exists>ord. canonical_cmp x y = Some ord \<and> canonical_cmp y x = Some (flip_ord ord) \<and>
    (ord = Equal \<longleftrightarrow> eq_ignore_ascii_case x y) \<and>
    (ord = Less \<and> canonical_cmp y z = Some Less \<longrightarrow> canonical_cmp x z = Some Less)"
  unfolding canonical_cmp_key [OF assms(1,2)] canonical_cmp_key [OF assms(2,1)]
    canonical_cmp_key [OF assms(2,3)] canonical_cmp_key [OF assms(1,3)]
  using labels_order.flip [of "order_key y" "order_key x"] labels_order.less_trans
    labels_order.equal_iff [of "order_key x" "order_key y"] order_key_eq [OF assms(1,2)] by auto

theorem canonical_cmp_order_witness:
  "canonical_cmp (Name [1, 65, 0]) (Name [1, 97, 1, 97, 0]) = Some Less \<and>
   canonical_cmp (Name [1, 97, 1, 97, 0]) (Name [1, 98, 0]) = Some Less \<and>
   canonical_cmp (Name [1, 65, 0]) (Name [1, 98, 0]) = Some Less"
proof -
  have v: "valid_name (Name [1, 65, 0])" "valid_name (Name [1, 97, 1, 97, 0])" "valid_name (Name [1, 98, 0])"
    by code_simp+
  have l: "canonical_cmp (Name [1, 65, 0]) (Name [1, 97, 1, 97, 0]) = Some Less"
    "canonical_cmp (Name [1, 97, 1, 97, 0]) (Name [1, 98, 0]) = Some Less" by code_simp+
  from canonical_cmp_order [OF v] l show ?thesis by auto
qed

section \<open>Zone membership\<close>

text \<open>
  C37. On valid names \<open>is_in_zone\<close> never panics, and answers whether the labels of the zone are a
  suffix of the labels of the name, up to letter case.
\<close>

theorem is_in_zone_suffix:
  assumes "valid_name n" "valid_name zone"
  shows "is_in_zone n zone = Some (\<exists>pre. map lower (labels n) = pre @ map lower (labels zone))"
proof -
  obtain ls zs where n: "n = Name (wire_of ls)" "list_all label_ok ls"
    and z: "zone = Name (wire_of zs)" "list_all label_ok zs"
    using assms by (elim valid_nameE)
  have "(\<exists>k \<le> length ls. map lower (drop k ls) = map lower zs) \<longleftrightarrow>
      (\<exists>pre. map lower ls = pre @ map lower zs)" (is "?L \<longleftrightarrow> ?R")
  proof
    assume ?R
    then obtain pre where pre: "map lower ls = pre @ map lower zs" by blast
    then have "length pre \<le> length ls" by (metis length_append length_map le_add1)
    moreover have "map lower (drop (length pre) ls) = map lower zs"
      using pre by (metis append_eq_conv_conj drop_map)
    ultimately show ?L by blast
  next
    assume ?L
    then show ?R by (metis append_take_drop_id map_append)
  qed
  with is_in_zone_labels [OF n(2) z(2)] n z show ?thesis by simp
qed

theorem is_in_zone_suffix_witness:
  "is_in_zone (Name [1, 97, 1, 66, 0]) (Name [1, 98, 0]) = Some True"
proof -
  have v: "valid_name (Name [1, 97, 1, 66, 0])" "valid_name (Name [1, 98, 0])" by code_simp+
  have l: "map lower (labels (Name [1, 97, 1, 66, 0])) = [[97]] @ map lower (labels (Name [1, 98, 0]))"
    by code_simp
  show ?thesis unfolding is_in_zone_suffix [OF v] l by simp
qed

section \<open>Lower-cased names and ancestors\<close>

definition name_lower :: "name \<Rightarrow> name" where
  "name_lower n = Name (lower (name_wire n))"

lemma valid_name_lower: "valid_name n \<Longrightarrow> valid_name (name_lower n)"
  by (elim valid_nameE) (auto simp: name_lower_def lower_wire_of valid_labels_def)

lemma is_root_wire_of [simp]: "is_root (Name (wire_of ls)) \<longleftrightarrow> ls = []"
  using length_wire_of_pos by (cases ls) (auto simp: is_root_def simp del: length_wire_of_pos length_greater_0_conv)

lemma length_wire_of_drop: "length (wire_of (drop k ls)) \<le> length (wire_of ls)"
proof (induction ls arbitrary: k)
  case (Cons l ls)
  from Cons.IH [of "k - 1"] show ?case by (cases k) auto
qed simp

definition suffix_name :: "byte list list \<Rightarrow> nat \<Rightarrow> name" where
  "suffix_name ls k = Name (wire_of (drop k ls))"

lemma valid_suffix: "valid_name (Name (wire_of ls)) \<Longrightarrow> list_all label_ok ls \<Longrightarrow> valid_name (suffix_name ls k)"
  unfolding suffix_name_def using length_wire_of_drop [of k ls]
  by (intro valid_nameI) (auto simp: valid_labels_def list_all_iff dest: in_set_dropD)

lemma suffix_name_0: "suffix_name ls 0 = Name (wire_of ls)"
  by (simp add: suffix_name_def)

lemma name_parent_suffix:
  "list_all label_ok ls \<Longrightarrow> name_parent (suffix_name ls k) = Some (if k < length ls then Some (suffix_name ls (Suc k)) else None)"
  by (cases "k < length ls")
    (auto simp: suffix_name_def Cons_nth_drop_Suc [symmetric] list_all_length simp del: wire_of.simps)

lemma eq_suffix:
  "list_all label_ok ls \<Longrightarrow> list_all label_ok zs \<Longrightarrow>
     eq_ignore_ascii_case (suffix_name ls k) (Name (wire_of zs)) \<longleftrightarrow> map lower (drop k ls) = map lower zs"
  unfolding suffix_name_def
  by (rule eq_ignore_ascii_case_labels) (auto simp: list_all_iff dest: in_set_dropD)

end
