(* ===== verification/Dnssec_Sign.thy ===== *)
theory Dnssec_Sign
  imports Wire_Message Name_Order "HOL-Library.List_Lexorder" "HOL-Library.Multiset"
begin

unbundle bit_operations_syntax

text \<open>
  The signing side of DNSSEC, \<open>dns/dnssec_sign.rs\<close>: key material as DNSKEY and DS data, the octets an
  RRSIG signs, the NSEC3 hash and its record data. The cryptographic library is a parameter: a record
  of its digests and signature checks, and the key pair's public point and signing function.
\<close>

section \<open>The cryptographic library\<close>

record ring =
  ring_sha1 :: "byte list \<Rightarrow> byte list"
  ring_sha256 :: "byte list \<Rightarrow> byte list"
  ring_sha384 :: "byte list \<Rightarrow> byte list"
  ring_rsa_verify :: "nat \<Rightarrow> byte list \<Rightarrow> byte list \<Rightarrow> byte list \<Rightarrow> byte list \<Rightarrow> bool"
  ring_ecdsa_verify :: "nat \<Rightarrow> byte list \<Rightarrow> byte list \<Rightarrow> byte list \<Rightarrow> bool"
  ring_ed25519_verify :: "byte list \<Rightarrow> byte list \<Rightarrow> byte list \<Rightarrow> bool"

section \<open>The code\<close>

abbreviation (input) ALG_ECDSAP256SHA256 :: byte where "ALG_ECDSAP256SHA256 \<equiv> 13"
abbreviation (input) DIGEST_SHA256 :: byte where "DIGEST_SHA256 \<equiv> 2"
abbreviation (input) DNSKEY_PROTOCOL :: byte where "DNSKEY_PROTOCOL \<equiv> 3"
abbreviation (input) DNSKEY_FLAG_ZONE :: u16 where "DNSKEY_FLAG_ZONE \<equiv> 0x0100"
abbreviation (input) DNSKEY_FLAG_SEP :: u16 where "DNSKEY_FLAG_SEP \<equiv> 0x0001"

text \<open>The key pair: what the library hands back as its public key, and its signing operation.\<close>

record signing_key =
  sk_pkcs8 :: "byte list"
  sk_is_ksk :: bool
  sk_public_key :: "byte list"
  sk_sign :: "byte list \<Rightarrow> byte list option"

definition public_key_raw :: "signing_key \<Rightarrow> byte list option" where
  "public_key_raw k = subslice (sk_public_key k) 1 (length (sk_public_key k))"

definition dnskey_rdata :: "signing_key \<Rightarrow> byte list option" where
  "dnskey_rdata k = do {
     let flags = (if sk_is_ksk k then DNSKEY_FLAG_ZONE OR DNSKEY_FLAG_SEP else DNSKEY_FLAG_ZONE);
     pubkey \<leftarrow> public_key_raw k;
     Some (u16_to_be flags @ [DNSKEY_PROTOCOL] @ [ALG_ECDSAP256SHA256] @ pubkey)
   }"

fun key_tag_loop :: "nat \<Rightarrow> u32 \<Rightarrow> byte list \<Rightarrow> u32" where
  "key_tag_loop i ac [] = ac"
| "key_tag_loop i ac (b # bs) =
     key_tag_loop (i + 1) (if i mod 2 = 0 then ac + push_bit 8 (ucast b) else ac + ucast b) bs"

definition key_tag :: "byte list \<Rightarrow> u16" where
  "key_tag rdata =
     (let ac = key_tag_loop 0 0 rdata;
          ac = ac + (drop_bit 16 ac AND 0xFFFF)
      in ucast (ac AND 0xFFFF))"

definition canonical_name_wire :: "name \<Rightarrow> byte list" where
  "canonical_name_wire n = lower (name_wire n)"

definition ds_rdata :: "ring \<Rightarrow> name \<Rightarrow> signing_key \<Rightarrow> byte list option" where
  "ds_rdata r zone k = do {
     dnskey \<leftarrow> dnskey_rdata k;
     let tag = key_tag dnskey;
     let digest = ring_sha256 r (canonical_name_wire zone @ dnskey);
     Some (u16_to_be tag @ [ALG_ECDSAP256SHA256] @ [DIGEST_SHA256] @ digest)
   }"

record rrsig_params =
  rp_type_covered :: u16
  rp_key_tag :: u16
  rp_signer_name :: name
  rp_original_ttl :: u32
  rp_inception :: u32
  rp_expiration :: u32

definition canonical_rdata :: "rdata \<Rightarrow> byte list" where
  "canonical_rdata rd = ebuf (rdata_emit_canonical rd enc_uncompressed)"

definition rrsig_labels :: "name \<Rightarrow> byte option" where
  "rrsig_labels owner = do {
     n \<leftarrow> label_count owner;
     let w = name_wire owner;
     let n = (if length w \<ge> 2 \<and> w ! 0 = 1 \<and> w ! 1 = 42 then n - 1 else n);
     Some (of_nat n)
   }"

definition rrsig_prefix :: "rrsig_params \<Rightarrow> byte \<Rightarrow> byte list" where
  "rrsig_prefix p lbls =
     u16_to_be (rp_type_covered p) @ [ALG_ECDSAP256SHA256] @ [lbls] @
     u32_to_be (rp_original_ttl p) @ u32_to_be (rp_expiration p) @ u32_to_be (rp_inception p) @
     u16_to_be (rp_key_tag p) @ canonical_name_wire (rp_signer_name p)"

text \<open>One record of the signed stream.\<close>

definition tbs_record :: "byte list \<Rightarrow> u16 \<Rightarrow> u16 \<Rightarrow> u32 \<Rightarrow> byte list \<Rightarrow> byte list" where
  "tbs_record owner_wire type_covered cls ttl rd =
     owner_wire @ u16_to_be type_covered @ u16_to_be cls @ u32_to_be ttl @
     u16_to_be (of_nat (length rd)) @ rd"

definition rrsig_tbs :: "rrsig_params \<Rightarrow> name \<Rightarrow> u16 \<Rightarrow> rdata list \<Rightarrow> byte list option" where
  "rrsig_tbs p owner cls rdatas = do {
     lbls \<leftarrow> rrsig_labels owner;
     let tbs = rrsig_prefix p lbls;
     let canon = sort (map canonical_rdata rdatas);
     let owner_wire = canonical_name_wire owner;
     Some (fold (\<lambda>rd tbs. tbs @ tbs_record owner_wire (rp_type_covered p) cls (rp_original_ttl p) rd) canon tbs)
   }"

text \<open>The outer \<open>option\<close> is a panic, the inner one the failure of the library's signing operation.\<close>

definition sign_rrset :: "signing_key \<Rightarrow> rrsig_params \<Rightarrow> name \<Rightarrow> u16 \<Rightarrow> rdata list \<Rightarrow> byte list option option" where
  "sign_rrset k p owner cls rdatas = do {
     tbs \<leftarrow> rrsig_tbs p owner cls rdatas;
     lbls \<leftarrow> rrsig_labels owner;
     Some (map_option (\<lambda>sig. rrsig_prefix p lbls @ sig) (sk_sign k tbs))
   }"

definition nsec3_hash :: "ring \<Rightarrow> byte list \<Rightarrow> byte list \<Rightarrow> u16 \<Rightarrow> byte list" where
  "nsec3_hash r name_canonical_wire salt iterations =
     ((\<lambda>h. ring_sha1 r (h @ salt)) ^^ unat iterations) (ring_sha1 r (name_canonical_wire @ salt))"

text \<open>The \<open>BTreeMap\<close> of windows as an association list in ascending order of its keys.\<close>

fun window_or :: "byte \<Rightarrow> nat \<Rightarrow> (byte \<times> byte list) list \<Rightarrow> (byte \<times> byte list) list" where
  "window_or win off [] = [(win, (replicate 32 0)[off div 8 := drop_bit (off mod 8) 0x80])]"
| "window_or win off ((w, bm) # ws) =
     (if win < w then (win, (replicate 32 0)[off div 8 := drop_bit (off mod 8) 0x80]) # (w, bm) # ws
      else if win = w then (w, bm[off div 8 := bm ! (off div 8) OR drop_bit (off mod 8) 0x80]) # ws
      else (w, bm) # window_or win off ws)"

definition type_window :: "u16 \<Rightarrow> byte" where
  "type_window t = ucast (drop_bit 8 t)"

definition type_offset :: "u16 \<Rightarrow> nat" where
  "type_offset t = unat (t AND 0xFF)"

text \<open>\<open>rposition\<close>, then one past it: the length of the bitmap up to its last non-zero octet.\<close>

definition bitmap_len :: "byte list \<Rightarrow> nat" where
  "bitmap_len bm = length (dropWhile (\<lambda>b. b = 0) (rev bm))"

definition window_block :: "byte \<times> byte list \<Rightarrow> byte list" where
  "window_block = (\<lambda>(win, bm). let len = bitmap_len bm in
     if len = 0 then [] else [win] @ [of_nat len] @ take len bm)"

definition type_bitmap :: "u16 list \<Rightarrow> byte list" where
  "type_bitmap types =
     concat (map window_block (fold (\<lambda>t. window_or (type_window t) (type_offset t)) types []))"

definition nsec3_rdata :: "byte \<Rightarrow> u16 \<Rightarrow> byte list \<Rightarrow> byte list \<Rightarrow> u16 list \<Rightarrow> byte list" where
  "nsec3_rdata flags iterations salt next_hash types =
     [1] @ [flags] @ u16_to_be iterations @ [of_nat (length salt)] @ salt @
     [of_nat (length next_hash)] @ next_hash @ type_bitmap types"

text \<open>The encoder \<open>BASE32_DNSSEC\<close> of the crate \<open>data_encoding\<close> is the argument \<open>enc\<close>.\<close>

definition nsec3_owner_label :: "(byte list \<Rightarrow> byte list) \<Rightarrow> byte list \<Rightarrow> byte list" where
  "nsec3_owner_label enc hash = enc hash"

section \<open>The signed octets\<close>

lemma fold_append: "fold (\<lambda>x acc. acc @ f x) xs acc = acc @ concat (map f xs)"
  by (induction xs arbitrary: acc) simp_all

lemma length_canonical_name_wire [simp]: "length (canonical_name_wire n) = length (name_wire n)"
  by (simp add: canonical_name_wire_def)

lemma rrsig_tbs_wire:
  assumes "rrsig_labels owner = Some lbls"
  shows "rrsig_tbs p owner cls rdatas = Some (rrsig_prefix p lbls @
    concat (map (tbs_record (canonical_name_wire owner) (rp_type_covered p) cls (rp_original_ttl p))
      (sort (map canonical_rdata rdatas))))"
  by (simp add: rrsig_tbs_def assms Let_def fold_append)

lemma label_count_case: "valid_name a \<Longrightarrow> valid_name b \<Longrightarrow> eq_ignore_ascii_case a b \<Longrightarrow> label_count a = label_count b"
proof -
  assume v: "valid_name a" "valid_name b" and "eq_ignore_ascii_case a b"
  then have "map lower (labels a) = map lower (labels b)"
    by (elim valid_nameE) (simp add: eq_ignore_ascii_case_labels)
  then have "length (labels a) = length (labels b)" by (metis length_map)
  with v show ?thesis by (simp add: label_count_valid)
qed

lemma lower_star: "to_ascii_lowercase b = 42 \<longleftrightarrow> b = 42" "to_ascii_lowercase b = 1 \<longleftrightarrow> b = 1"
proof -
  have "b = c" if "to_ascii_lowercase b = c" "c \<le> 64" for c
  proof (rule ccontr)
    assume "b \<noteq> c"
    with that have "65 \<le> b" "b \<le> 90" "b OR 32 = c" by (auto simp: to_ascii_lowercase_def split: if_splits)
    then have "b + 32 = c" by (simp add: or_32_upper)
    moreover have "unat (b + 32) = unat b + 32"
      using \<open>65 \<le> b\<close> \<open>b \<le> 90\<close> by (simp add: unat_word_ariths word_le_nat_alt)
    ultimately show False using that(2) \<open>65 \<le> b\<close> by (auto simp: word_le_nat_alt)
  qed
  then show "to_ascii_lowercase b = 42 \<longleftrightarrow> b = 42" "to_ascii_lowercase b = 1 \<longleftrightarrow> b = 1"
    by (auto simp: to_ascii_lowercase_def)
qed

lemma rrsig_labels_case:
  assumes "valid_name a" "valid_name b" "eq_ignore_ascii_case a b"
  shows "rrsig_labels a = rrsig_labels b"
proof -
  have w: "lower (name_wire a) = lower (name_wire b)" using assms(3) by (simp add: eq_ignore_ascii_case_iff)
  then have l: "length (name_wire a) = length (name_wire b)" by (metis length_map)
  have "name_wire a ! i = c \<longleftrightarrow> name_wire b ! i = c" if "i < length (name_wire a)" "c = 42 \<or> c = 1" for i c
  proof -
    have "to_ascii_lowercase (name_wire a ! i) = to_ascii_lowercase (name_wire b ! i)"
      using w that(1) l by (metis nth_map)
    with that(2) show ?thesis using lower_star [of "name_wire a ! i"] lower_star [of "name_wire b ! i"] by metis
  qed
  from this [of 0 1] this [of 1 42] l
  have "2 \<le> length (name_wire a) \<and> name_wire a ! 0 = 1 \<and> name_wire a ! 1 = 42 \<longleftrightarrow>
    2 \<le> length (name_wire b) \<and> name_wire b ! 0 = 1 \<and> name_wire b ! 1 = 42"
    by (auto simp del: length_greater_0_conv)
  then show ?thesis unfolding rrsig_labels_def Let_def label_count_case [OF assms] by simp
qed

lemma rrsig_labels_valid: "valid_name n \<Longrightarrow> \<exists>l. rrsig_labels n = Some l"
  by (simp add: rrsig_labels_def label_count_valid Let_def)

text \<open>
  The signed octets do not depend on the order the records are given in, nor on the letter case of the
  owner name.
\<close>

lemma rrsig_tbs_canonical:
  assumes "valid_name owner" "valid_name owner'" "eq_ignore_ascii_case owner owner'" "mset rdatas = mset rdatas'"
  shows "rrsig_tbs p owner cls rdatas = rrsig_tbs p owner' cls rdatas'"
proof -
  obtain l where "rrsig_labels owner = Some l" using rrsig_labels_valid [OF assms(1)] by blast
  moreover have "canonical_name_wire owner = canonical_name_wire owner'"
    using assms(3) by (simp add: canonical_name_wire_def eq_ignore_ascii_case_iff)
  moreover have "sort (map canonical_rdata rdatas) = sort (map canonical_rdata rdatas')"
    using assms(4) by (metis mset_map properties_for_sort mset_sort sorted_sort)
  ultimately show ?thesis using rrsig_labels_case [OF assms(1-3)] by (simp add: rrsig_tbs_wire)
qed

section \<open>Type bitmaps\<close>

lemma bit_mask_shift: "k < 8 \<Longrightarrow> drop_bit k (0x80 :: byte) = push_bit (7 - k) 1"
proof -
  assume "k < 8"
  moreover have "\<forall>k \<in> set [0..<8]. drop_bit k (0x80 :: byte) = push_bit (7 - k) 1" by code_simp
  ultimately show ?thesis by (simp del: push_bit_of_1 upt.simps)
qed

definition map_bit :: "byte list \<Rightarrow> nat \<Rightarrow> bool" where
  "map_bit bm off \<longleftrightarrow> bit (bm ! (off div 8)) (7 - off mod 8)"

lemma map_bit_test: "(bm ! (off div 8) AND drop_bit (off mod 8) 0x80 \<noteq> 0) \<longleftrightarrow> map_bit bm off"
  by (simp add: bit_mask_shift map_bit_def bit_iff_and_push_bit_not_eq_0)

lemma map_bit_set:
  assumes "length bm = 32" "off < 256" "off' < 256"
  shows "map_bit (bm[off div 8 := bm ! (off div 8) OR drop_bit (off mod 8) 0x80]) off' \<longleftrightarrow> map_bit bm off' \<or> off' = off"
proof -
  have b: "bit (drop_bit (off mod 8) (0x80 :: byte)) (7 - off' mod 8) \<longleftrightarrow> off mod 8 = off' mod 8"
    using mod_less_divisor [of 8 off] mod_less_divisor [of 8 off']
    by (auto simp: bit_mask_shift bit_exp_iff)
  have lt: "off div 8 < 32" "off' div 8 < 32" using assms(2,3) by auto
  have "off' = off \<longleftrightarrow> off' div 8 = off div 8 \<and> off' mod 8 = off mod 8" by (metis div_mult_mod_eq)
  with assms(1) lt show ?thesis unfolding map_bit_def
    by (cases "off' div 8 = off div 8") (auto simp: bit_or_iff b)
qed

definition windows_ok :: "(byte \<times> byte list) list \<Rightarrow> bool" where
  "windows_ok ws \<longleftrightarrow> sorted_wrt (<) (map fst ws) \<and> (\<forall>(w, bm) \<in> set ws. length bm = 32)"

definition window_has :: "(byte \<times> byte list) list \<Rightarrow> byte \<Rightarrow> nat \<Rightarrow> bool" where
  "window_has ws w off \<longleftrightarrow> (case map_of ws w of None \<Rightarrow> False | Some bm \<Rightarrow> map_bit bm off)"

lemma map_bit_zero [simp]: "off < 256 \<Longrightarrow> \<not> map_bit (replicate 32 0) off"
  by (simp add: map_bit_def)

lemma map_bit_fresh:
  assumes "off < 256" "off' < 256"
  shows "map_bit ((replicate 32 0)[off div 8 := drop_bit (off mod 8) 0x80]) off' \<longleftrightarrow> off' = off"
  using map_bit_set [of "replicate 32 0" off off'] assms by simp

lemma window_or_keys: "fst ` set (window_or win off ws) = insert win (fst ` set ws)"
  by (induction win off ws rule: window_or.induct) auto

lemma window_or_ok:
  assumes "windows_ok ws" "off < 256"
  shows "windows_ok (window_or win off ws)"
  using assms
proof (induction win off ws rule: window_or.induct)
  case (2 win off w bm ws)
  then have s: "sorted_wrt (<) (map fst ws)" "\<forall>x \<in> fst ` set ws. w < x"
    and l: "length bm = 32" "\<forall>(w, bm) \<in> set ws. length bm = 32" by (auto simp: windows_ok_def)
  then have "windows_ok ws" by (simp add: windows_ok_def)
  consider "win < w" | "win = w" | "w < win" by (metis linorder_less_linear)
  then show ?case
  proof cases
    case 1
    with s l show ?thesis by (auto simp: windows_ok_def)
  next
    case 2
    with s l show ?thesis by (auto simp: windows_ok_def)
  next
    case 3
    then have "windows_ok (window_or win off ws)" using "2.IH" \<open>windows_ok ws\<close> "2.prems" by auto
    moreover have "\<forall>x \<in> fst ` set (window_or win off ws). w < x" using s(2) 3 by (simp add: window_or_keys)
    ultimately show ?thesis using 3 l by (auto simp: windows_ok_def)
  qed
qed (simp add: windows_ok_def)

lemma window_or_has:
  assumes "windows_ok ws" "off < 256" "off' < 256"
  shows "window_has (window_or win off ws) w' off' \<longleftrightarrow> window_has ws w' off' \<or> (w' = win \<and> off' = off)"
  using assms
proof (induction win off ws rule: window_or.induct)
  case (1 win off)
  then show ?case by (auto simp: window_has_def map_bit_fresh)
next
  case (2 win off w bm ws)
  then have s: "\<forall>x \<in> fst ` set ws. w < x" and l: "length bm = 32" and ok: "windows_ok ws"
    by (auto simp: windows_ok_def)
  consider "win < w" | "win = w" | "w < win" by (metis linorder_less_linear)
  then show ?case
  proof cases
    case 1
    with s have "map_of ws win = None" by (force simp: map_of_eq_None_iff)
    with 1 "2.prems" show ?thesis by (auto simp: window_has_def map_bit_fresh)
  next
    case 2
    with l "2.prems" show ?thesis by (auto simp: window_has_def map_bit_set)
  next
    case 3
    with "2.IH" ok "2.prems" show ?thesis by (auto simp: window_has_def)
  qed
qed

lemma type_offset_less: "type_offset t < 256"
proof -
  have "t AND 0xFF = take_bit 8 t" by (simp add: take_bit_eq_mask mask_numeral)
  then have "type_offset t = take_bit 8 (unat t)" by (simp only: type_offset_def unsigned_take_bit_eq)
  then show ?thesis using take_bit_nat_less_exp [of 8 "unat t"] by simp
qed

lemma type_window_offset: "type_window t = type_window t' \<and> type_offset t = type_offset t' \<longleftrightarrow> t = t'"
proof
  assume a: "type_window t = type_window t' \<and> type_offset t = type_offset t'"
  have m: "0xFF = (mask 8 :: u16)" by (simp add: mask_numeral)
  have lo: "bit t n = bit t' n" if "n < 8" for n
  proof -
    have "t AND mask 8 = t' AND mask 8" using a unfolding type_offset_def m by (blast intro: unsigned_word_eqI)
    then have "bit (t AND mask 8) n = bit (t' AND mask 8) n" by (rule arg_cong)
    with that show ?thesis by (simp add: bit_and_iff bit_mask_iff)
  qed
  have hi: "bit t n = bit t' n" if "8 \<le> n" "n < 16" for n
  proof -
    have "bit (type_window t) (n - 8) = bit (type_window t') (n - 8)" using a by simp
    moreover have "n - 8 < 8" using that by linarith
    ultimately show ?thesis using that by (simp add: type_window_def bit_ucast_iff bit_drop_bit_eq)
  qed
  show "t = t'"
  proof (rule bit_word_eqI)
    fix n assume "n < LENGTH(16)"
    with lo hi show "bit t n = bit t' n" by (cases "n < 8") auto
  qed
qed simp

lemma fold_window_or:
  "windows_ok ws \<Longrightarrow>
     windows_ok (fold (\<lambda>t. window_or (type_window t) (type_offset t)) ts ws) \<and>
     (window_has (fold (\<lambda>t. window_or (type_window t) (type_offset t)) ts ws) (type_window t) (type_offset t) \<longleftrightarrow>
        window_has ws (type_window t) (type_offset t) \<or> t \<in> set ts)"
proof (induction ts arbitrary: ws)
  case (Cons u ts)
  have ok: "windows_ok (window_or (type_window u) (type_offset u) ws)"
    using Cons.prems by (intro window_or_ok type_offset_less)
  have "window_has (window_or (type_window u) (type_offset u) ws) (type_window t) (type_offset t) \<longleftrightarrow>
      window_has ws (type_window t) (type_offset t) \<or> t = u"
    using window_or_has [OF Cons.prems type_offset_less type_offset_less] type_window_offset [of t u] by simp
  with Cons.IH [OF ok] show ?case by auto
qed simp

end
