(* ===== verification/Dnssec_Verify.thy ===== *)
theory Dnssec_Verify
  imports Dnssec_Sign
begin

unbundle bit_operations_syntax

text \<open>
  The verifying side of DNSSEC, \<open>dns/dnssec_verify.rs\<close>: RRSIG parsing, the validity window in serial
  arithmetic, the reconstruction of the signed octets (wildcards included), the DS match and the
  validation of record sets. The signature checks themselves are the library's. An outer \<open>option\<close> is a
  panic of a name accessor, which does not happen on names the decoder produced.
\<close>

section \<open>The code\<close>

abbreviation (input) ALG_RSASHA256 :: byte where "ALG_RSASHA256 \<equiv> 8"
abbreviation (input) ALG_RSASHA512 :: byte where "ALG_RSASHA512 \<equiv> 10"
abbreviation (input) ALG_ECDSAP384SHA384 :: byte where "ALG_ECDSAP384SHA384 \<equiv> 14"
abbreviation (input) ALG_ED25519 :: byte where "ALG_ED25519 \<equiv> 15"
abbreviation (input) DS_DIGEST_SHA256 :: byte where "DS_DIGEST_SHA256 \<equiv> 2"
abbreviation (input) DS_DIGEST_SHA384 :: byte where "DS_DIGEST_SHA384 \<equiv> 4"

record rrsig =
  sig_type_covered :: u16
  sig_algorithm :: byte
  sig_labels :: byte
  sig_original_ttl :: u32
  sig_expiration :: u32
  sig_inception :: u32
  sig_key_tag :: u16
  sig_signer :: name
  sig_prefix :: "byte list"
  sig_signature :: "byte list"

text \<open>\<open>u32::from_be_bytes\<close> of the four octets at \<open>i\<close>.\<close>

definition u32_at :: "byte list \<Rightarrow> nat \<Rightarrow> u32" where
  "u32_at bs i = u32_join (u16_from_be (bs ! i) (bs ! (i + 1))) (u16_from_be (bs ! (i + 2)) (bs ! (i + 3)))"

definition parse_rrsig :: "byte list \<Rightarrow> rrsig option" where
  "parse_rrsig rdata =
     (if length rdata < 18 then None
      else (case name_parse (dec_new (drop 18 rdata)) of
              Inl _ \<Rightarrow> None
            | Inr (signer, _) \<Rightarrow>
                let prefix_len = 18 + length (name_wire signer) in
                if prefix_len > length rdata then None
                else Some \<lparr>sig_type_covered = u16_from_be (rdata ! 0) (rdata ! 1),
                  sig_algorithm = rdata ! 2, sig_labels = rdata ! 3,
                  sig_original_ttl = u32_at rdata 4, sig_expiration = u32_at rdata 8,
                  sig_inception = u32_at rdata 12, sig_key_tag = u16_from_be (rdata ! 16) (rdata ! 17),
                  sig_signer = signer, sig_prefix = take prefix_len rdata,
                  sig_signature = drop prefix_len rdata\<rparr>))"

text \<open>\<open>Vec::dedup\<close>: of a run of equal elements the first is kept.\<close>

definition signed_data :: "rrsig \<Rightarrow> name \<Rightarrow> u16 \<Rightarrow> rdata list \<Rightarrow> byte list" where
  "signed_data sig owner cls rdatas =
     (let canon = remdups_adj (sort (map canonical_rdata rdatas));
          owner_wire = canonical_name_wire owner
      in fold (\<lambda>rd tbs. tbs @ tbs_record owner_wire (sig_type_covered sig) cls (sig_original_ttl sig) rd)
           canon (sig_prefix sig))"

definition rsa_components :: "byte list \<Rightarrow> (byte list \<times> byte list) option" where
  "rsa_components pubkey =
     (if pubkey = [] then None
      else if pubkey ! 0 = 0 \<and> length pubkey < 3 then None
      else
        let (exp_len, rest) =
          (if pubkey ! 0 \<noteq> 0 then (unat (pubkey ! 0), drop 1 pubkey)
           else (unat (u16_from_be (pubkey ! 1) (pubkey ! 2)), drop 3 pubkey))
        in if exp_len = 0 \<or> length rest \<le> exp_len then None
           else Some (drop exp_len rest, take exp_len rest))"

text \<open>Serial-number arithmetic: the subtractions wrap.\<close>

definition within_validity :: "u32 \<Rightarrow> u32 \<Rightarrow> u32 \<Rightarrow> bool" where
  "within_validity inception expiration now \<longleftrightarrow>
     now - inception < 0x80000000 \<and> expiration - now < 0x80000000"

definition verify_signature :: "ring \<Rightarrow> byte \<Rightarrow> byte list \<Rightarrow> byte list \<Rightarrow> byte list \<Rightarrow> bool" where
  "verify_signature r algorithm dnskey_pubkey msg sig =
     (if algorithm = ALG_RSASHA256 \<or> algorithm = ALG_RSASHA512 then
        (case rsa_components dnskey_pubkey of
           None \<Rightarrow> False
         | Some (n, e) \<Rightarrow> ring_rsa_verify r (if algorithm = ALG_RSASHA256 then 256 else 512) n e msg sig)
      else if algorithm = ALG_ECDSAP256SHA256 \<or> algorithm = ALG_ECDSAP384SHA384 then
        (let expected = (if algorithm = ALG_ECDSAP256SHA256 then 64 else 96) in
         if length dnskey_pubkey \<noteq> expected then False
         else ring_ecdsa_verify r (if algorithm = ALG_ECDSAP256SHA256 then 256 else 384)
                (0x04 # dnskey_pubkey) msg sig)
      else if algorithm = ALG_ED25519 then
        (if length dnskey_pubkey \<noteq> 32 then False else ring_ed25519_verify r dnskey_pubkey msg sig)
      else False)"

text \<open>The \<open>for\<close> loop that walks past the labels a wildcard stands for.\<close>

fun skip_labels :: "byte list \<Rightarrow> nat \<Rightarrow> nat \<Rightarrow> nat option" where
  "skip_labels w i 0 = Some i"
| "skip_labels w i (Suc k) = do { b \<leftarrow> index w i; skip_labels w (i + (1 + unat b)) k }"

definition rrsig_owner_name :: "name \<Rightarrow> byte \<Rightarrow> name option option" where
  "rrsig_owner_name owner lbls = do {
     total \<leftarrow> label_count owner;
     let n = unat lbls;
     if n > total then Some None
     else if n = total then Some (Some owner)
     else do {
       let w = name_wire owner;
       i \<leftarrow> skip_labels w 0 (total - n);
       rest \<leftarrow> subslice w i (length w);
       Some (case name_parse (dec_new ([1] @ [42] @ rest)) of Inl _ \<Rightarrow> None | Inr (nm, _) \<Rightarrow> Some nm)
     }
   }"

definition verify_rrsig ::
    "ring \<Rightarrow> name \<Rightarrow> u16 \<Rightarrow> u16 \<Rightarrow> rdata list \<Rightarrow> byte list \<Rightarrow> byte list \<Rightarrow> u32 \<Rightarrow> bool option" where
  "verify_rrsig r owner cls rrset_type rdatas rrsig_rdata dnskey now =
     (case parse_rrsig rrsig_rdata of
        None \<Rightarrow> Some False
      | Some sig \<Rightarrow>
          if sig_type_covered sig \<noteq> rrset_type then Some False
          else if \<not> within_validity (sig_inception sig) (sig_expiration sig) now then Some False
          else do {
            in_zone \<leftarrow> is_in_zone owner (sig_signer sig);
            if \<not> in_zone then Some False
            else if length dnskey < 4 \<or> dnskey ! 3 \<noteq> sig_algorithm sig then Some False
            else do {
              let dnskey_pubkey = drop 4 dnskey;
              tbs_owner \<leftarrow> rrsig_owner_name owner (sig_labels sig);
              (case tbs_owner of
                 None \<Rightarrow> Some False
               | Some tbs_owner \<Rightarrow>
                   let msg = signed_data sig tbs_owner cls rdatas
                   in Some (verify_signature r (sig_algorithm sig) dnskey_pubkey msg (sig_signature sig)))
            }
          })"

record ds =
  ds_key_tag :: u16
  ds_algorithm :: byte
  ds_digest_type :: byte
  ds_digest :: "byte list"

text \<open>The trust anchors are decoded at compile time; a bad digit does not compile (here \<open>None\<close>).\<close>

definition hex_nibble :: "byte \<Rightarrow> byte option" where
  "hex_nibble b =
     (if 48 \<le> b \<and> b \<le> 57 then Some (b - 48)
      else if 97 \<le> b \<and> b \<le> 102 then Some (b - 97 + 10)
      else if 65 \<le> b \<and> b \<le> 70 then Some (b - 65 + 10)
      else None)"

fun hex_pairs :: "byte list \<Rightarrow> byte list option" where
  "hex_pairs (a # b # bs) = do {
     hi \<leftarrow> hex_nibble a;
     lo \<leftarrow> hex_nibble b;
     rest \<leftarrow> hex_pairs bs;
     Some ((push_bit 4 hi OR lo) # rest)
   }"
| "hex_pairs _ = Some []"

definition hex32 :: "string \<Rightarrow> byte list" where
  "hex32 s = the (hex_pairs (map of_char s))"

definition ROOT_KSK_2017 :: "byte list" where
  "ROOT_KSK_2017 = hex32 ''E06D44B80B8F1D39A95C0B0D7C65D08458E880409BBC683457104237C7F8EC8D''"

definition ROOT_KSK_2024 :: "byte list" where
  "ROOT_KSK_2024 = hex32 ''683D2D0ACB8C9B712A1948B27F741219298D0A450D612C483AF444A4C0FB2B16''"

definition ROOT_ANCHORS :: "ds list" where
  "ROOT_ANCHORS =
     [\<lparr>ds_key_tag = 20326, ds_algorithm = 8, ds_digest_type = DS_DIGEST_SHA256, ds_digest = ROOT_KSK_2017\<rparr>,
      \<lparr>ds_key_tag = 38696, ds_algorithm = 8, ds_digest_type = DS_DIGEST_SHA256, ds_digest = ROOT_KSK_2024\<rparr>]"

definition compute_ds_digest :: "ring \<Rightarrow> name \<Rightarrow> byte list \<Rightarrow> byte \<Rightarrow> byte list option" where
  "compute_ds_digest r owner dnskey digest_type =
     (if digest_type = DS_DIGEST_SHA256 then Some (ring_sha256 r (canonical_name_wire owner @ dnskey))
      else if digest_type = DS_DIGEST_SHA384 then Some (ring_sha384 r (canonical_name_wire owner @ dnskey))
      else None)"

definition dnskey_matches_ds :: "ring \<Rightarrow> name \<Rightarrow> byte list \<Rightarrow> ds \<Rightarrow> bool" where
  "dnskey_matches_ds r owner dnskey d =
     (if length dnskey < 4 \<or> dnskey ! 3 \<noteq> ds_algorithm d then False
      else if key_tag dnskey \<noteq> ds_key_tag d then False
      else (case compute_ds_digest r owner dnskey (ds_digest_type d) of
              Some h \<Rightarrow> h = ds_digest d
            | None \<Rightarrow> False))"

text \<open>\<open>any\<close> and the early-return loops, with a panic in the test propagated.\<close>

fun any_opt :: "('a \<Rightarrow> bool option) \<Rightarrow> 'a list \<Rightarrow> bool option" where
  "any_opt f [] = Some False"
| "any_opt f (x # xs) = do { b \<leftarrow> f x; if b then Some True else any_opt f xs }"

fun dnskey_loop ::
    "ring \<Rightarrow> name \<Rightarrow> rdata list \<Rightarrow> byte list list \<Rightarrow> ds list \<Rightarrow> u32 \<Rightarrow> byte list list \<Rightarrow> bool option" where
  "dnskey_loop r owner refs rrsigs trusted_ds now [] = Some False"
| "dnskey_loop r owner refs rrsigs trusted_ds now (key # ks) =
     (if \<not> list_ex (dnskey_matches_ds r owner key) trusted_ds
      then dnskey_loop r owner refs rrsigs trusted_ds now ks
      else do {
        found \<leftarrow> any_opt (\<lambda>sig. verify_rrsig r owner class_IN rtype_DNSKEY refs sig key now) rrsigs;
        if found then Some True else dnskey_loop r owner refs rrsigs trusted_ds now ks
      })"

definition validate_dnskey_rrset ::
    "ring \<Rightarrow> name \<Rightarrow> byte list list \<Rightarrow> byte list list \<Rightarrow> ds list \<Rightarrow> u32 \<Rightarrow> byte list list option option" where
  "validate_dnskey_rrset r owner dnskeys rrsigs trusted_ds now = do {
     let refs = map (Unknown rtype_DNSKEY) dnskeys;
     found \<leftarrow> dnskey_loop r owner refs rrsigs trusted_ds now dnskeys;
     Some (if found then Some dnskeys else None)
   }"

definition rrsig_signer :: "byte list \<Rightarrow> name option" where
  "rrsig_signer rdata = map_option sig_signer (parse_rrsig rdata)"

definition rrsig_type_covered :: "byte list \<Rightarrow> u16 option" where
  "rrsig_type_covered rdata =
     (if length rdata \<ge> 2 then Some (u16_from_be (rdata ! 0) (rdata ! 1)) else None)"

definition rrsig_labels_field :: "byte list \<Rightarrow> byte option" where
  "rrsig_labels_field rdata = (if length rdata \<ge> 4 then Some (rdata ! 3) else None)"

definition parse_ds :: "byte list \<Rightarrow> ds option" where
  "parse_ds rdata =
     (if length rdata < 5 then None
      else Some \<lparr>ds_key_tag = u16_from_be (rdata ! 0) (rdata ! 1), ds_algorithm = rdata ! 2,
        ds_digest_type = rdata ! 3, ds_digest = drop 4 rdata\<rparr>)"

text \<open>The inner and the outer loop of \<open>validate_rrset_wc\<close>.\<close>

fun validate_sigs ::
    "ring \<Rightarrow> name \<Rightarrow> u16 \<Rightarrow> u16 \<Rightarrow> rdata list \<Rightarrow> byte list list \<Rightarrow> u32 \<Rightarrow> byte list list \<Rightarrow> bool option option" where
  "validate_sigs r owner cls rtype rdatas trusted_keys now [] = Some None"
| "validate_sigs r owner cls rtype rdatas trusted_keys now (sig # sigs) = do {
     ok \<leftarrow> any_opt (\<lambda>key. verify_rrsig r owner cls rtype rdatas sig key now) trusted_keys;
     if ok then do {
       n \<leftarrow> label_count owner;
       Some (Some (case rrsig_labels_field sig of Some l \<Rightarrow> unat l < n | None \<Rightarrow> False))
     } else validate_sigs r owner cls rtype rdatas trusted_keys now sigs
   }"

definition validate_rrset_wc ::
    "ring \<Rightarrow> name \<Rightarrow> u16 \<Rightarrow> u16 \<Rightarrow> rdata list \<Rightarrow> byte list list \<Rightarrow> byte list list \<Rightarrow> u32 \<Rightarrow> bool option option" where
  "validate_rrset_wc r owner cls rtype rdatas rrsigs trusted_keys now =
     validate_sigs r owner cls rtype rdatas trusted_keys now rrsigs"

definition validate_rrset ::
    "ring \<Rightarrow> name \<Rightarrow> u16 \<Rightarrow> u16 \<Rightarrow> rdata list \<Rightarrow> byte list list \<Rightarrow> byte list list \<Rightarrow> u32 \<Rightarrow> bool option" where
  "validate_rrset r owner cls rtype rdatas rrsigs trusted_keys now =
     map_option (\<lambda>v. v \<noteq> None) (validate_rrset_wc r owner cls rtype rdatas rrsigs trusted_keys now)"

section \<open>Reading back a signature record\<close>

lemma name_lower_canonical: "name_wire (name_lower n) = canonical_name_wire n"
  by (simp add: name_lower_def canonical_name_wire_def)

lemma rrsig_prefix_octets:
  "rrsig_prefix p l =
     [ucast (drop_bit 8 (rp_type_covered p)), ucast (rp_type_covered p), 13, l,
      ucast (drop_bit 24 (rp_original_ttl p)), ucast (drop_bit 16 (rp_original_ttl p)),
      ucast (drop_bit 8 (rp_original_ttl p)), ucast (rp_original_ttl p),
      ucast (drop_bit 24 (rp_expiration p)), ucast (drop_bit 16 (rp_expiration p)),
      ucast (drop_bit 8 (rp_expiration p)), ucast (rp_expiration p),
      ucast (drop_bit 24 (rp_inception p)), ucast (drop_bit 16 (rp_inception p)),
      ucast (drop_bit 8 (rp_inception p)), ucast (rp_inception p),
      ucast (drop_bit 8 (rp_key_tag p)), ucast (rp_key_tag p)] @ canonical_name_wire (rp_signer_name p)"
  by (simp add: rrsig_prefix_def u16_to_be_def u32_to_be_def)

lemma parse_rrsig_prefix:
  assumes "valid_name (rp_signer_name p)"
  shows "parse_rrsig (rrsig_prefix p l @ s) =
    Some \<lparr>sig_type_covered = rp_type_covered p, sig_algorithm = 13, sig_labels = l,
      sig_original_ttl = rp_original_ttl p, sig_expiration = rp_expiration p,
      sig_inception = rp_inception p, sig_key_tag = rp_key_tag p,
      sig_signer = name_lower (rp_signer_name p), sig_prefix = rrsig_prefix p l, sig_signature = s\<rparr>"
proof -
  let ?n = "name_lower (rp_signer_name p)"
  have "name_parse \<lparr>dbuf = name_wire ?n @ s, dpos = 0\<rparr> =
    Inr (?n, \<lparr>dbuf = name_wire ?n @ s, dpos = 0 + length (name_wire ?n)\<rparr>)"
    by (rule name_parse_raw) (simp_all add: bytes_at_def valid_name_lower assms)
  moreover define rd where "rd = rrsig_prefix p l @ s"
  ultimately have np: "name_parse (dec_new (drop 18 rd)) = Inr (?n, \<lparr>dbuf = name_wire ?n @ s, dpos = length (name_wire ?n)\<rparr>)"
    by (simp add: rrsig_prefix_octets dec_new_def name_lower_canonical)
  have len: "length (rrsig_prefix p l) = 18 + length (name_wire ?n)"
    by (simp add: rrsig_prefix_octets name_lower_canonical)
  then have tk: "take (18 + length (name_wire ?n)) rd = rrsig_prefix p l" "drop (18 + length (name_wire ?n)) rd = s"
    "18 + length (name_wire ?n) \<le> length rd" by (simp_all add: rd_def)
  have f: "u16_from_be (rd ! 0) (rd ! 1) = rp_type_covered p" "rd ! 2 = 13" "rd ! 3 = l"
    "u32_at rd 4 = rp_original_ttl p" "u32_at rd 8 = rp_expiration p" "u32_at rd 12 = rp_inception p"
    "u16_from_be (rd ! 16) (rd ! 17) = rp_key_tag p"
    by (simp_all add: rd_def rrsig_prefix_octets u32_at_def be_simps)
  show ?thesis unfolding rd_def [symmetric] parse_rrsig_def np Let_def f
    using tk by (simp add: not_less not_le)
qed

section \<open>The owner name a signature was made for\<close>

lemma skip_labels_wire:
  "drop i w = wire_of ls \<Longrightarrow> list_all label_ok ls \<Longrightarrow> k \<le> length ls \<Longrightarrow>
     \<exists>j. skip_labels w i k = Some j \<and> j \<le> length w \<and> drop j w = wire_of (drop k ls)"
proof (induction k arbitrary: i ls)
  case 0
  then have "i < length w" using wire_step(1) wire_stop(1) by (cases ls) auto
  with 0 show ?case by simp
next
  case (Suc k)
  then obtain l ls' where ls: "ls = l # ls'" by (cases ls) auto
  with Suc.prems have l: "label_ok l" "list_all label_ok ls'" by auto
  note st = wire_step [OF Suc.prems(1) [unfolded ls] l(1)]
  from Suc.IH [OF st(6) l(2)] Suc.prems(3) ls st show ?case by (simp add: index_def)
qed

text \<open>
  The signer's label count leads the verifier back to the owner name, a wildcard owner included.
\<close>

lemma rrsig_owner_back:
  assumes "valid_name owner"
  shows "\<exists>l. rrsig_labels owner = Some l \<and> rrsig_owner_name owner l = Some (Some owner)"
proof -
  from assms obtain ls where n: "owner = Name (wire_of ls)" and ok: "list_all label_ok ls"
    and len: "length (wire_of ls) \<le> MAX_NAME_WIRE" by (rule valid_nameE)
  have lc: "label_count owner = Some (length ls)" using label_count_valid [OF assms] n ok by simp
  have small: "unat (of_nat k :: byte) = k" if "k \<le> length ls" for k
    using that length_labels_le_wire [OF ok] len by (simp add: unat_of_nat)
  show ?thesis
  proof (cases "length (wire_of ls) \<ge> 2 \<and> wire_of ls ! 0 = 1 \<and> wire_of ls ! 1 = 42")
    case False
    then have "rrsig_labels owner = Some (of_nat (length ls))"
      unfolding rrsig_labels_def lc by (auto simp: n Let_def)
    moreover have "rrsig_owner_name owner (of_nat (length ls)) = Some (Some owner)"
      unfolding rrsig_owner_name_def lc by (simp add: small)
    ultimately show ?thesis by blast
  next
    case True
    then obtain l ls' where ls: "ls = l # ls'" by (cases ls) auto
    with True ok have "l = [42]"
      using unat_of_length [of l] by (cases l) (auto simp: label_ok_def)
    have "rrsig_labels owner = Some (of_nat (length ls'))"
      unfolding rrsig_labels_def lc using True by (simp add: n Let_def ls)
    moreover have "rrsig_owner_name owner (of_nat (length ls')) = Some (Some owner)"
    proof -
      obtain j where j: "skip_labels (wire_of ls) 0 (Suc 0) = Some j" "j \<le> length (wire_of ls)"
        "drop j (wire_of ls) = wire_of ls'"
        using skip_labels_wire [of 0 "wire_of ls" ls "Suc 0"] ok ls by auto
      then have sub: "subslice (wire_of ls) j (length (wire_of ls)) = Some (wire_of ls')"
        by (simp add: subslice_to_end)
      have np: "name_parse (dec_new ([1] @ [42] @ wire_of ls')) =
          Inr (owner, \<lparr>dbuf = wire_of ls, dpos = 0 + length (wire_of ls)\<rparr>)"
        using name_parse_raw [of "wire_of ls" 0 owner] assms
        by (simp add: n ls \<open>l = [42]\<close> dec_new_def bytes_at_def)
      have k: "length ls - length ls' = Suc 0" "\<not> length ls < length ls'" "length ls' \<noteq> length ls" by (simp_all add: ls)
      have w: "name_wire owner = wire_of ls" by (simp add: n)
      show ?thesis
        unfolding rrsig_owner_name_def lc using small [of "length ls'"] k(2)
        by (simp add: Let_def w sub np [simplified] k j(1) ls [symmetric] del: skip_labels.simps)
    qed
    ultimately show ?thesis by blast
  qed
qed

section \<open>Signing and verifying\<close>

lemma signed_data_tbs:
  assumes "distinct (map canonical_rdata rdatas)" "mset rdatas' = mset rdatas"
    and "rrsig_labels owner = Some l" "sig_prefix sig = rrsig_prefix p l"
    and "sig_type_covered sig = rp_type_covered p" "sig_original_ttl sig = rp_original_ttl p"
  shows "rrsig_tbs p owner cls rdatas = Some (signed_data sig owner cls rdatas')"
proof -
  have s: "sort (map canonical_rdata rdatas') = sort (map canonical_rdata rdatas)"
    using assms(2) by (metis mset_map properties_for_sort mset_sort sorted_sort)
  have "remdups_adj (sort (map canonical_rdata rdatas)) = sort (map canonical_rdata rdatas)"
    using assms(1) by (simp add: remdups_adj_distinct distinct_sort)
  then show ?thesis
    using assms(3-6) by (simp add: rrsig_tbs_wire signed_data_def Let_def fold_append s)
qed

lemma is_in_zone_lower:
  assumes "valid_name n" "valid_name z"
  shows "is_in_zone n (name_lower z) = is_in_zone n z"
proof -
  obtain ls where n: "n = Name (wire_of ls)" and ls: "list_all label_ok ls" using assms(1) by (rule valid_nameE)
  obtain zs where z: "z = Name (wire_of zs)" and zs: "list_all label_ok zs" using assms(2) by (rule valid_nameE)
  have lz: "name_lower z = Name (wire_of (map lower zs))" using zs by (simp add: name_lower_def z lower_wire_of)
  have zs': "list_all label_ok (map lower zs)" using zs by simp
  have "to_ascii_lowercase \<circ> to_ascii_lowercase = to_ascii_lowercase" by (rule ext) simp
  then have "map lower (map lower zs) = map lower zs" by simp
  then show ?thesis unfolding lz unfolding n z is_in_zone_labels [OF ls zs] is_in_zone_labels [OF ls zs'] by metis
qed

text \<open>
  C13. What the signer signs, the verifier accepts. With a library whose signatures verify, the RRSIG
  made for a record set is accepted under the signer's own DNSKEY, within its validity window, for the
  same records in any order, wildcard owners included, provided no two records have the same
  canonical form.
\<close>

theorem sign_then_verify:
  assumes "valid_name owner" "valid_name (rp_signer_name p)" "is_in_zone owner (rp_signer_name p) = Some True"
    and "within_validity (rp_inception p) (rp_expiration p) now"
    and "distinct (map canonical_rdata rdatas)" "mset rdatas' = mset rdatas"
    and pub: "sk_public_key k = 0x04 # point" "length point = 64"
    and lib: "\<And>m s. sk_sign k m = Some s \<Longrightarrow> ring_ecdsa_verify r 256 (sk_public_key k) m s"
    and signed: "sign_rrset k p owner cls rdatas = Some (Some sig)" "dnskey_rdata k = Some dnskey"
  shows "verify_rrsig r owner cls (rp_type_covered p) rdatas' sig dnskey now = Some True"
proof -
  obtain l where l: "rrsig_labels owner = Some l" "rrsig_owner_name owner l = Some (Some owner)"
    using rrsig_owner_back [OF assms(1)] by blast
  from signed(1) l(1) obtain tbs s where tbs: "rrsig_tbs p owner cls rdatas = Some tbs" "sk_sign k tbs = Some s"
    and sig: "sig = rrsig_prefix p l @ s"
    by (auto simp: sign_rrset_def split: bind_splits)
  note parsed = parse_rrsig_prefix [OF assms(2), of l s, folded sig]
  have key: "drop 4 dnskey = point" "dnskey ! 3 = 13" "4 \<le> length dnskey"
    using signed(2) pub by (auto simp: dnskey_rdata_def public_key_raw_def subslice_def u16_to_be_def Let_def)
  have "is_in_zone owner (name_lower (rp_signer_name p)) = Some True"
    using assms(3) by (simp add: is_in_zone_lower assms(1,2))
  moreover have "signed_data (the (parse_rrsig sig)) owner cls rdatas' = tbs"
    using signed_data_tbs [OF assms(5,6) l(1), of "the (parse_rrsig sig)" p cls] tbs(1) by (simp add: parsed)
  moreover have "verify_signature r 13 point tbs s"
    using lib [OF tbs(2)] pub by (simp add: verify_signature_def)
  ultimately show ?thesis
    using assms(4) l(2) key by (simp add: verify_rrsig_def parsed Let_def)
qed

definition toy_key :: signing_key where
  "toy_key = \<lparr>sk_pkcs8 = [], sk_is_ksk = False, sk_public_key = 0x04 # replicate 64 7, sk_sign = Some\<rparr>"

definition toy_ring :: ring where
  "toy_ring = \<lparr>ring_sha1 = (\<lambda>_. replicate 20 0), ring_sha256 = (\<lambda>_. replicate 32 0), ring_sha384 = (\<lambda>_. replicate 48 0),
     ring_rsa_verify = (\<lambda>_ _ _ m s. m = s), ring_ecdsa_verify = (\<lambda>_ _ m s. m = s), ring_ed25519_verify = (\<lambda>_ m s. m = s)\<rparr>"

definition toy_params :: rrsig_params where
  "toy_params = \<lparr>rp_type_covered = 1, rp_key_tag = 0, rp_signer_name = Name [0], rp_original_ttl = 60,
     rp_inception = 0, rp_expiration = 10\<rparr>"

theorem sign_then_verify_witness:
  "\<exists>sig dnskey. sign_rrset toy_key toy_params (Name [1, 97, 0]) 1 [A 1, A 2] = Some (Some sig) \<and>
     dnskey_rdata toy_key = Some dnskey \<and>
     verify_rrsig toy_ring (Name [1, 97, 0]) 1 1 [A 2, A 1] sig dnskey 5 = Some True"
proof -
  have v: "valid_name (Name [1, 97, 0])" "valid_name (rp_signer_name toy_params)"
    "is_in_zone (Name [1, 97, 0]) (rp_signer_name toy_params) = Some True"
    "within_validity (rp_inception toy_params) (rp_expiration toy_params) 5"
    "distinct (map canonical_rdata [A 1, A 2])" by code_simp+
  have k: "sk_public_key toy_key = 0x04 # replicate 64 7" "length (replicate 64 (7 :: byte)) = 64"
    by (simp_all add: toy_key_def)
  obtain sig where sig: "sign_rrset toy_key toy_params (Name [1, 97, 0]) 1 [A 1, A 2] = Some (Some sig)"
    using rrsig_labels_valid [OF v(1)] by (auto simp: sign_rrset_def rrsig_tbs_def toy_key_def)
  obtain dnskey where d: "dnskey_rdata toy_key = Some dnskey"
    by (simp add: dnskey_rdata_def public_key_raw_def k subslice_def Let_def)
  have m: "mset [A 2, A 1] = mset [A 1, A 2]" by simp
  have t: "rp_type_covered toy_params = 1" by (simp add: toy_params_def)
  have "verify_rrsig toy_ring (Name [1, 97, 0]) 1 (rp_type_covered toy_params) [A 2, A 1] sig dnskey 5 = Some True"
    by (rule sign_then_verify [OF v m k _ sig d]) (simp add: toy_ring_def toy_key_def)
  with sig d t show ?thesis by auto
qed

section \<open>The validity window\<close>

lemma of_nat_diff_less:
  assumes "a < b + 2 ^ 31" "b \<le> a + 2 ^ 31"
  shows "(of_nat a - of_nat b :: u32) < 0x80000000 \<longleftrightarrow> b \<le> a"
proof (cases "b \<le> a")
  case True
  then have "(of_nat a - of_nat b :: u32) = of_nat (a - b)" by (simp add: of_nat_diff)
  moreover have "unat (of_nat (a - b) :: u32) = a - b" using assms(1) True by (simp add: unat_of_nat del: of_nat_diff)
  ultimately show ?thesis using assms(1) True by (simp add: word_less_nat_alt)
next
  case False
  then have "b \<le> a + 2 ^ 32" using assms(2) by simp
  then have "(of_nat (a + 2 ^ 32 - b) :: u32) = of_nat (a + 2 ^ 32) - of_nat b" by (rule of_nat_diff)
  also have "\<dots> = of_nat a - of_nat b" by simp
  finally have eq: "(of_nat a - of_nat b :: u32) = of_nat (a + 2 ^ 32 - b)" ..
  have "unat (of_nat (a + 2 ^ 32 - b) :: u32) = a + 2 ^ 32 - b"
    using assms(2) False by (simp add: unat_of_nat del: of_nat_diff of_nat_add)
  with False assms(2) show ?thesis unfolding eq by (simp add: word_less_nat_alt del: of_nat_diff of_nat_add)
qed

text \<open>
  The signature window in 32-bit serial arithmetic is the plain interval of times, across the wrap
  of the 32-bit clock, as long as the window and the distance to now stay below 68 years.
\<close>

theorem within_validity_serial:
  assumes "inception \<le> expiration" "expiration < inception + 2 ^ 31"
    and "now < inception + 2 ^ 31" "inception \<le> now + 2 ^ 31"
  shows "within_validity (of_nat inception) (of_nat expiration) (of_nat now) \<longleftrightarrow>
    inception \<le> now \<and> now \<le> expiration"
proof (cases "inception \<le> now")
  case True
  then have "expiration < now + 2 ^ 31" "now \<le> expiration + 2 ^ 31" using assms by linarith+
  from of_nat_diff_less [OF assms(3,4)] of_nat_diff_less [OF this] True show ?thesis
    by (simp add: within_validity_def)
next
  case False
  with of_nat_diff_less [OF assms(3,4)] show ?thesis by (simp add: within_validity_def)
qed

theorem within_validity_serial_witness:
  "within_validity (of_nat (2 ^ 32 - 5)) (of_nat (2 ^ 32 + 5)) (of_nat (2 ^ 32 + 1))"
  using within_validity_serial [of "2 ^ 32 - 5" "2 ^ 32 + 5" "2 ^ 32 + 1"] by simp

section \<open>Validation of record sets\<close>

lemma any_opt_True: "any_opt f xs = Some True \<Longrightarrow> \<exists>x \<in> set xs. f x = Some True"
  by (induction f xs rule: any_opt.induct) (auto split: bind_splits if_splits)

lemma any_opt_total: "(\<And>x. x \<in> set xs \<Longrightarrow> f x \<noteq> None) \<Longrightarrow> any_opt f xs \<noteq> None"
  by (induction xs) (auto split: bind_splits)

lemma any_opt_iff:
  "(\<And>x. x \<in> set xs \<Longrightarrow> f x \<noteq> None) \<Longrightarrow> any_opt f xs = Some (\<exists>x \<in> set xs. f x = Some True)"
  by (induction xs) (auto split: bind_splits)

text \<open>No panic: on a well-formed owner name every check returns.\<close>

lemma parse_rrsig_signer: "parse_rrsig rd = Some sig \<Longrightarrow> valid_name (sig_signer sig)"
  by (auto simp: parse_rrsig_def Let_def name_parse_valid split: if_splits sum.splits prod.splits)

lemma is_in_zone_total: "valid_name n \<Longrightarrow> valid_name z \<Longrightarrow> is_in_zone n z \<noteq> None"
  by (elim valid_nameE) (simp add: is_in_zone_labels)

lemma rrsig_owner_total:
  assumes "valid_name owner"
  shows "rrsig_owner_name owner l \<noteq> None"
proof -
  from assms obtain ls where n: "owner = Name (wire_of ls)" and ok: "list_all label_ok ls" by (rule valid_nameE)
  have lc: "label_count owner = Some (length ls)" using label_count_valid [OF assms] n ok by simp
  have "length ls - unat l \<le> length ls" by simp
  from skip_labels_wire [of 0 "wire_of ls" ls, OF _ ok this] obtain j where
    "skip_labels (wire_of ls) 0 (length ls - unat l) = Some j" "j \<le> length (wire_of ls)" by auto
  then show ?thesis unfolding rrsig_owner_name_def lc by (auto simp: Let_def n subslice_def)
qed

lemma verify_rrsig_total: "valid_name owner \<Longrightarrow> verify_rrsig r owner cls t rds sig key now \<noteq> None"
proof (cases "parse_rrsig sig")
  case (Some s)
  assume owner: "valid_name owner"
  obtain z where "is_in_zone owner (sig_signer s) = Some z"
    using is_in_zone_total [OF owner parse_rrsig_signer [OF Some]] by blast
  moreover obtain o' where "rrsig_owner_name owner (sig_labels s) = Some o'"
    using rrsig_owner_total [OF owner] by blast
  ultimately show ?thesis by (cases o') (simp_all add: verify_rrsig_def Some Let_def del: not_None_eq)
qed (simp add: verify_rrsig_def)

lemma dnskey_loop_True:
  "dnskey_loop r owner refs rrsigs tds now ks = Some True \<Longrightarrow>
     \<exists>key \<in> set ks. \<exists>d \<in> set tds. dnskey_matches_ds r owner key d \<and>
       (\<exists>sig \<in> set rrsigs. verify_rrsig r owner class_IN rtype_DNSKEY refs sig key now = Some True)"
proof (induction ks)
  case (Cons key ks)
  then show ?case
    by (auto simp: list_ex_iff split: if_splits bind_splits dest: any_opt_True)
qed simp

text \<open>A DNSKEY set is accepted only when one of its keys is anchored by a trusted DS and signs the set.\<close>

lemma validate_dnskey_rrset_sound:
  assumes "validate_dnskey_rrset r owner dnskeys rrsigs tds now = Some (Some ks)"
  shows "ks = dnskeys \<and> (\<exists>key \<in> set dnskeys. \<exists>d \<in> set tds. dnskey_matches_ds r owner key d \<and>
    (\<exists>sig \<in> set rrsigs. verify_rrsig r owner class_IN rtype_DNSKEY (map (Unknown rtype_DNSKEY) dnskeys) sig key now = Some True))"
  using assms dnskey_loop_True
  by (auto simp: validate_dnskey_rrset_def Let_def split: bind_splits if_splits)

lemma validate_rrset_wc_sound:
  "validate_rrset_wc r owner cls t rds sigs keys now = Some (Some w) \<Longrightarrow>
     \<exists>sig \<in> set sigs. \<exists>key \<in> set keys. verify_rrsig r owner cls t rds sig key now = Some True"
  unfolding validate_rrset_wc_def
proof (induction sigs)
  case (Cons sig sigs)
  then show ?case by (auto split: bind_splits if_splits dest: any_opt_True)
qed simp

lemma validate_rrset_sound:
  "validate_rrset r owner cls t rds sigs keys now = Some True \<Longrightarrow>
     \<exists>sig \<in> set sigs. \<exists>key \<in> set keys. verify_rrsig r owner cls t rds sig key now = Some True"
  using validate_rrset_wc_sound by (fastforce simp: validate_rrset_def)

end
