(* ===== verification/Dnssec_Denial.thy ===== *)
theory Dnssec_Denial
  imports Dnssec_Verify
begin

unbundle bit_operations_syntax

text \<open>
  Proofs that something does not exist, \<open>dns/dnssec_denial.rs\<close>: type bitmaps, NSEC intervals in the
  canonical order of names, NSEC3 intervals in the order of hashes, and the NXDOMAIN, NODATA and
  insecure-delegation proofs composed from them. SHA-1 is the library's. The owner name of a NSEC3 record
  is put together by \<open>prepend_label\<close> of \<open>dns/zone_signer.rs\<close>.
\<close>

section \<open>The code\<close>

abbreviation (input) NSEC3_MAX_ITERATIONS :: u16 where "NSEC3_MAX_ITERATIONS \<equiv> 100"
abbreviation (input) NXNAME :: u16 where "NXNAME \<equiv> 128"

function type_in_bitmap :: "byte list \<Rightarrow> u16 \<Rightarrow> bool" where
  "type_in_bitmap bm rtype =
     (let window = ucast (drop_bit 8 rtype); offset = unat (rtype AND 0xff) in
      if length bm \<ge> 2 then
        (let w = bm ! 0; len = unat (bm ! 1) in
         if length bm < 2 + len then False
         else if w = window then
           (let octet = offset div 8 in octet < len \<and> bm ! (2 + octet) AND drop_bit (offset mod 8) 0x80 \<noteq> 0)
         else type_in_bitmap (drop (2 + len) bm) rtype)
      else False)"
  by pat_completeness auto
termination
  by (relation "measure (\<lambda>(bm, rtype). length bm)") auto

declare type_in_bitmap.simps [simp del]

definition parse_nsec :: "byte list \<Rightarrow> (name \<times> byte list) option" where
  "parse_nsec rdata =
     (case name_parse (dec_new rdata) of
        Inl _ \<Rightarrow> None
      | Inr (nxt, dec) \<Rightarrow>
          let consumed = dpos dec in
          if consumed > length rdata then None else Some (nxt, drop consumed rdata))"

text \<open>The comparisons are evaluated in the order of the code; a panic in one propagates.\<close>

definition less_opt :: "name \<Rightarrow> name \<Rightarrow> bool option" where
  "less_opt a b = map_option (\<lambda>ord. ord = Less) (canonical_cmp a b)"

definition and_then :: "bool option \<Rightarrow> bool option \<Rightarrow> bool option" where
  "and_then a b = do { x \<leftarrow> a; if x then b else Some False }"

definition or_else :: "bool option \<Rightarrow> bool option \<Rightarrow> bool option" where
  "or_else a b = do { x \<leftarrow> a; if x then Some True else b }"

definition nsec_covers :: "name \<Rightarrow> name \<Rightarrow> name \<Rightarrow> bool option" where
  "nsec_covers owner nxt nm = do {
     ordered \<leftarrow> less_opt owner nxt;
     if ordered then and_then (less_opt owner nm) (less_opt nm nxt)
     else or_else (less_opt owner nm) (less_opt nm nxt)
   }"

definition nsec_proves_nodata :: "name \<Rightarrow> byte list \<Rightarrow> name \<Rightarrow> u16 \<Rightarrow> bool" where
  "nsec_proves_nodata owner bitmap qn qt \<longleftrightarrow>
     eq_ignore_ascii_case owner qn \<and> \<not> type_in_bitmap bitmap qt \<and>
     (qt = rtype_CNAME \<or> \<not> type_in_bitmap bitmap rtype_CNAME)"

definition nsec_bitmap_has_nxname :: "byte list \<Rightarrow> bool" where
  "nsec_bitmap_has_nxname rdata =
     (case parse_nsec rdata of Some (_, bitmap) \<Rightarrow> type_in_bitmap bitmap NXNAME | None \<Rightarrow> False)"

record nsec =
  nsec_owner :: name
  nsec_next :: name
  nsec_bitmap :: "byte list"

definition nsec_parse :: "name \<Rightarrow> byte list \<Rightarrow> nsec option" where
  "nsec_parse owner rdata = do {
     (nxt, bitmap) \<leftarrow> parse_nsec rdata;
     Some \<lparr>nsec_owner = owner, nsec_next = nxt, nsec_bitmap = bitmap\<rparr>
   }"

definition nsec_proves_nonexistence :: "nsec list \<Rightarrow> name \<Rightarrow> bool option" where
  "nsec_proves_nonexistence nsecs qn = any_opt (\<lambda>n. nsec_covers (nsec_owner n) (nsec_next n) qn) nsecs"

text \<open>The loop of \<open>base32hex_decode\<close>, over the buffer and the number of bits pending in it.\<close>

definition base32_value :: "byte \<Rightarrow> byte option" where
  "base32_value c =
     (if 48 \<le> c \<and> c \<le> 57 then Some (c - 48)
      else if 65 \<le> c \<and> c \<le> 86 then Some (c - 65 + 10)
      else if 97 \<le> c \<and> c \<le> 118 then Some (c - 97 + 10)
      else None)"

fun base32_decode_loop :: "byte list \<Rightarrow> u64 \<Rightarrow> nat \<Rightarrow> byte list \<Rightarrow> byte list option" where
  "base32_decode_loop [] buf bits out = Some out"
| "base32_decode_loop (c # cs) buf bits out =
     (case base32_value c of
        None \<Rightarrow> None
      | Some v \<Rightarrow>
          let buf = push_bit 5 buf OR ucast v; bits = bits + 5 in
          if bits \<ge> 8 then base32_decode_loop cs buf (bits - 8) (out @ [ucast (drop_bit (bits - 8) buf)])
          else base32_decode_loop cs buf bits out)"

definition base32hex_decode :: "byte list \<Rightarrow> byte list option" where
  "base32hex_decode input = base32_decode_loop input 0 0 []"

definition base32_digit :: "u64 \<Rightarrow> byte" where
  "base32_digit v = map of_char ''0123456789ABCDEFGHIJKLMNOPQRSTUV'' ! unat v"

text \<open>The inner \<open>while\<close> loop and the outer loop of \<open>base32hex_encode\<close>.\<close>

function base32_drain :: "u64 \<Rightarrow> nat \<Rightarrow> byte list \<Rightarrow> nat \<times> byte list" where
  "base32_drain buf bits out =
     (if bits \<ge> 5 then base32_drain buf (bits - 5) (out @ [base32_digit (drop_bit (bits - 5) buf AND 0x1f)])
      else (bits, out))"
  by pat_completeness auto
termination
  by (relation "measure (\<lambda>(buf, bits, out). bits)") auto

declare base32_drain.simps [simp del]

fun base32_encode_loop :: "byte list \<Rightarrow> u64 \<Rightarrow> nat \<Rightarrow> byte list \<Rightarrow> u64 \<times> nat \<times> byte list" where
  "base32_encode_loop [] buf bits out = (buf, bits, out)"
| "base32_encode_loop (b # bs) buf bits out =
     (let buf = push_bit 8 buf OR ucast b; (bits, out) = base32_drain buf (bits + 8) out
      in base32_encode_loop bs buf bits out)"

definition base32hex_encode :: "byte list \<Rightarrow> byte list" where
  "base32hex_encode input =
     (let (buf, bits, out) = base32_encode_loop input 0 0 [] in
      if bits > 0 then out @ [base32_digit (push_bit (5 - bits) buf AND 0x1f)] else out)"

record nsec3 =
  n3_hash_alg :: byte
  n3_flags :: byte
  n3_iterations :: u16
  n3_salt :: "byte list"
  n3_owner_hash :: "byte list"
  n3_next_hash :: "byte list"
  n3_bitmap :: "byte list"

definition nsec3_parse :: "name \<Rightarrow> byte list \<Rightarrow> nsec3 option option" where
  "nsec3_parse owner rdata =
     (if length rdata < 5 then Some None
      else
        let salt_len = unat (rdata ! 4); p = 5 in
        if length rdata < p + salt_len + 1 then Some None
        else
          let salt = take salt_len (drop p rdata); p = p + salt_len;
              hash_len = unat (rdata ! p); p = p + 1 in
          if length rdata < p + hash_len then Some None
          else
            let next_hash = take hash_len (drop p rdata); p = p + hash_len; bitmap = drop p rdata in
            do {
              ls \<leftarrow> labels_lower owner;
              Some (case ls of
                      [] \<Rightarrow> None
                    | first # _ \<Rightarrow>
                        map_option (\<lambda>owner_hash.
                          \<lparr>n3_hash_alg = rdata ! 0, n3_flags = rdata ! 1,
                           n3_iterations = u16_from_be (rdata ! 2) (rdata ! 3), n3_salt = salt,
                           n3_owner_hash = owner_hash, n3_next_hash = next_hash, n3_bitmap = bitmap\<rparr>)
                          (base32hex_decode first))
            })"

definition n3_opt_out :: "nsec3 \<Rightarrow> bool" where
  "n3_opt_out n3 \<longleftrightarrow> n3_flags n3 AND 0x01 \<noteq> 0"

definition n3_hash :: "ring \<Rightarrow> nsec3 \<Rightarrow> name \<Rightarrow> byte list option" where
  "n3_hash r n3 nm =
     (if n3_hash_alg n3 \<noteq> 1 \<or> n3_iterations n3 > NSEC3_MAX_ITERATIONS then None
      else Some (nsec3_hash r (canonical_name_wire nm) (n3_salt n3) (n3_iterations n3)))"

definition n3_matches :: "ring \<Rightarrow> nsec3 \<Rightarrow> name \<Rightarrow> bool" where
  "n3_matches r n3 nm = (case n3_hash r n3 nm of Some h \<Rightarrow> n3_owner_hash n3 = h | None \<Rightarrow> False)"

definition cover_hash :: "byte list \<Rightarrow> byte list \<Rightarrow> byte list \<Rightarrow> bool" where
  "cover_hash owner nxt h =
     (if bytes_cmp owner nxt = Less then bytes_cmp owner h = Less \<and> bytes_cmp h nxt = Less
      else bytes_cmp owner h = Less \<or> bytes_cmp h nxt = Less)"

definition n3_covers :: "ring \<Rightarrow> nsec3 \<Rightarrow> name \<Rightarrow> bool" where
  "n3_covers r n3 nm =
     (case n3_hash r n3 nm of None \<Rightarrow> False | Some h \<Rightarrow> cover_hash (n3_owner_hash n3) (n3_next_hash n3) h)"

definition nsec3_proves_nodata :: "ring \<Rightarrow> nsec3 list \<Rightarrow> name \<Rightarrow> u16 \<Rightarrow> bool" where
  "nsec3_proves_nodata r n3s qn qt =
     list_ex (\<lambda>n3. n3_matches r n3 qn \<and> \<not> type_in_bitmap (n3_bitmap n3) qt \<and>
       (qt = rtype_CNAME \<or> \<not> type_in_bitmap (n3_bitmap n3) rtype_CNAME)) n3s"

definition nsec3_proves_no_ds :: "ring \<Rightarrow> nsec3 list \<Rightarrow> name \<Rightarrow> bool" where
  "nsec3_proves_no_ds r n3s nm \<longleftrightarrow>
     list_ex (\<lambda>n3. n3_matches r n3 nm \<and> type_in_bitmap (n3_bitmap n3) rtype_NS \<and>
       \<not> type_in_bitmap (n3_bitmap n3) rtype_DS \<and> \<not> type_in_bitmap (n3_bitmap n3) rtype_SOA) n3s \<or>
     list_ex (\<lambda>n3. n3_opt_out n3 \<and> n3_covers r n3 nm) n3s"

definition nsec_proves_no_ds :: "nsec list \<Rightarrow> name \<Rightarrow> bool" where
  "nsec_proves_no_ds nsecs nm =
     list_ex (\<lambda>nz. eq_ignore_ascii_case (nsec_owner nz) nm \<and> type_in_bitmap (nsec_bitmap nz) rtype_NS \<and>
       \<not> type_in_bitmap (nsec_bitmap nz) rtype_DS \<and> \<not> type_in_bitmap (nsec_bitmap nz) rtype_SOA) nsecs"

definition wildcard_of :: "name \<Rightarrow> name option option" where
  "wildcard_of nm = do {
     s \<leftarrow> to_ascii nm;
     Some (case from_ascii ([42, 46] @ s) of Inl _ \<Rightarrow> None | Inr w \<Rightarrow> Some w)
   }"

definition prepend_label :: "byte list \<Rightarrow> name \<Rightarrow> name option option" where
  "prepend_label label nm = do {
     base \<leftarrow> to_ascii nm;
     let full = (if base = [46] then label @ [46] else label @ [46] @ base);
     Some (case from_ascii full of Inl _ \<Rightarrow> None | Inr n \<Rightarrow> Some n)
   }"

text \<open>The \<open>while\<close> loop that collects the ancestors up to the zone; \<open>Some None\<close>: not under the zone.\<close>

function ancestor_chain :: "name \<Rightarrow> name \<Rightarrow> name list \<Rightarrow> name list option option" where
  "ancestor_chain cur zone chain =
     (if eq_ignore_ascii_case cur zone then Some (Some chain)
      else (case name_parent cur of
              None \<Rightarrow> None
            | Some None \<Rightarrow> Some None
            | Some (Some p) \<Rightarrow> ancestor_chain p zone (chain @ [p])))"
  by pat_completeness auto
termination
  by (relation "measure (\<lambda>(cur, zone, chain). length (name_wire cur))") (auto simp: name_parent_shorter)

declare ancestor_chain.simps [simp del]

text \<open>The \<open>for\<close> loop over the proper ancestors, each with the name one label longer.\<close>

fun nxdomain_loop :: "ring \<Rightarrow> nsec3 list \<Rightarrow> (name \<times> name) list \<Rightarrow> bool option" where
  "nxdomain_loop r n3s [] = Some False"
| "nxdomain_loop r n3s ((next_closer, ce) # rest) =
     (if \<not> list_ex (\<lambda>n3. n3_matches r n3 ce) n3s then nxdomain_loop r n3s rest
      else do {
        let nc_covered = list_ex (\<lambda>n3. n3_covers r n3 next_closer) n3s;
        wc \<leftarrow> wildcard_of ce;
        Some (case wc of
                None \<Rightarrow> False
              | Some wc \<Rightarrow> nc_covered \<and> list_ex (\<lambda>n3. n3_covers r n3 wc) n3s)
      })"

definition nsec3_proves_nxdomain :: "ring \<Rightarrow> nsec3 list \<Rightarrow> name \<Rightarrow> name \<Rightarrow> bool option" where
  "nsec3_proves_nxdomain r n3s qn zone = do {
     chain \<leftarrow> ancestor_chain qn zone [qn];
     (case chain of
        None \<Rightarrow> Some False
      | Some chain \<Rightarrow> nxdomain_loop r n3s (zip chain (tl chain)))
   }"

fun nonexistent_loop :: "ring \<Rightarrow> nsec3 list \<Rightarrow> (name \<times> name) list \<Rightarrow> bool" where
  "nonexistent_loop r n3s [] = False"
| "nonexistent_loop r n3s ((next_closer, ce) # rest) =
     (if \<not> list_ex (\<lambda>n3. n3_matches r n3 ce) n3s then nonexistent_loop r n3s rest
      else list_ex (\<lambda>n3. n3_covers r n3 next_closer) n3s)"

definition nsec3_proves_name_nonexistent :: "ring \<Rightarrow> nsec3 list \<Rightarrow> name \<Rightarrow> name \<Rightarrow> bool option" where
  "nsec3_proves_name_nonexistent r n3s qn zone = do {
     chain \<leftarrow> ancestor_chain qn zone [qn];
     Some (case chain of
             None \<Rightarrow> False
           | Some chain \<Rightarrow> nonexistent_loop r n3s (zip chain (tl chain)))
   }"

function nsec_wildcard_loop :: "nsec list \<Rightarrow> name \<Rightarrow> name \<Rightarrow> bool option" where
  "nsec_wildcard_loop nsecs cur zone =
     (case name_parent cur of
        None \<Rightarrow> None
      | Some None \<Rightarrow> Some False
      | Some (Some parent) \<Rightarrow>
          (case is_in_zone parent zone of
             None \<Rightarrow> None
           | Some inz \<Rightarrow>
               (case (if inz then
                        do {
                          wc \<leftarrow> wildcard_of parent;
                          (case wc of
                             None \<Rightarrow> Some False
                           | Some wc \<Rightarrow> any_opt (\<lambda>nz. nsec_covers (nsec_owner nz) (nsec_next nz) wc) nsecs)
                        }
                      else Some False) of
                  None \<Rightarrow> None
                | Some found \<Rightarrow>
                    if found then Some True
                    else if eq_ignore_ascii_case parent zone then Some False
                    else nsec_wildcard_loop nsecs parent zone)))"
  by pat_completeness auto
termination
  by (relation "measure (\<lambda>(nsecs, cur, zone). length (name_wire cur))") (auto simp: name_parent_shorter)

declare nsec_wildcard_loop.simps [simp del]

definition nsec_proves_nxdomain :: "nsec list \<Rightarrow> name \<Rightarrow> name \<Rightarrow> bool option" where
  "nsec_proves_nxdomain nsecs qn zone = do {
     covered \<leftarrow> nsec_proves_nonexistence nsecs qn;
     if \<not> covered then Some False else nsec_wildcard_loop nsecs qn zone
   }"

end
