(* ===== verification/Denial_Facts.thy ===== *)
theory Denial_Facts
  imports Dnssec_Denial
begin

unbundle bit_operations_syntax

text \<open>
  What the denial proofs establish: the type bitmap, the base32hex label and the NSEC3 record data are
  read back as they were written; the NSEC records of a zone deny exactly the names the zone does not
  hold; an NSEC3 proof of non-existence never denies a name of the zone.
\<close>

section \<open>Type bitmaps\<close>

lemma bitmap_len_tail:
  assumes "bitmap_len bm \<le> i" "i < length bm"
  shows "bm ! i = 0"
proof -
  let ?d = "dropWhile (\<lambda>b. b = 0) (rev bm)" and ?t = "takeWhile (\<lambda>b. b = 0) (rev bm)"
  have "rev bm = ?t @ ?d" by simp
  then have bm: "bm = rev ?d @ rev ?t" by (metis rev_append rev_rev_ident)
  have "bm ! i = rev ?t ! (i - length ?d)"
    using assms by (subst bm) (simp add: nth_append bitmap_len_def)
  moreover have "i - length ?d < length ?t"
    using assms bm by (metis add_less_imp_less_left bitmap_len_def le_add_diff_inverse length_append length_rev)
  then have "rev ?t ! (i - length ?d) \<in> set ?t" by (metis length_rev nth_mem set_rev)
  ultimately show ?thesis by (auto dest: set_takeWhileD)
qed

lemma bitmap_len_le: "bitmap_len bm \<le> length bm"
  using length_dropWhile_le [of "\<lambda>b. b = 0" "rev bm"] by (simp add: bitmap_len_def)

lemma type_in_bitmap_block:
  assumes "length bm = 32"
  shows "type_in_bitmap (window_block (w, bm) @ rest) t \<longleftrightarrow>
    (if w = type_window t \<and> bitmap_len bm \<noteq> 0 then map_bit bm (type_offset t) else type_in_bitmap rest t)"
proof (cases "bitmap_len bm = 0")
  case False
  let ?len = "bitmap_len bm"
  have le: "?len \<le> 32" using bitmap_len_le [of bm] assms by simp
  have u: "unat (of_nat ?len :: byte) = ?len" using le by (simp add: unat_of_nat)
  have lt: "type_offset t div 8 < 32" using type_offset_less [of t] by auto
  have "type_in_bitmap (window_block (w, bm) @ rest) t \<longleftrightarrow>
    (if w = type_window t then type_offset t div 8 < ?len \<and>
       take ?len bm ! (type_offset t div 8) AND drop_bit (type_offset t mod 8) 0x80 \<noteq> 0
     else type_in_bitmap rest t)"
    using False le assms by (subst type_in_bitmap.simps)
      (simp add: window_block_def Let_def u type_window_def [symmetric] type_offset_def [symmetric] nth_append)
  also have "\<dots> \<longleftrightarrow> (if w = type_window t then map_bit bm (type_offset t) else type_in_bitmap rest t)"
    using bitmap_len_tail [of bm "type_offset t div 8"] lt assms map_bit_test [of bm "type_offset t"]
    by (cases "type_offset t div 8 < ?len") auto
  finally show ?thesis using False by simp
qed (simp add: window_block_def)

lemma map_bit_empty: "bitmap_len bm = 0 \<Longrightarrow> length bm = 32 \<Longrightarrow> off < 256 \<Longrightarrow> \<not> map_bit bm off"
  using bitmap_len_tail [of bm "off div 8"] by (auto simp: map_bit_def)

lemma type_in_bitmap_windows:
  "windows_ok ws \<Longrightarrow> type_in_bitmap (concat (map window_block ws)) t \<longleftrightarrow> window_has ws (type_window t) (type_offset t)"
proof (induction ws)
  case Nil
  then show ?case by (simp add: type_in_bitmap.simps window_has_def)
next
  case (Cons x ws)
  obtain w bm where x: "x = (w, bm)" by force
  with Cons.prems have ok: "windows_ok ws" and l: "length bm = 32" and s: "\<forall>v \<in> fst ` set ws. w < v"
    by (auto simp: windows_ok_def)
  have "map_of ws w = None" using s by (force simp: map_of_eq_None_iff)
  then have "\<not> window_has ws w off" for off by (simp add: window_has_def)
  with Cons.IH [OF ok] show ?case
    using map_bit_empty [OF _ l type_offset_less, of t] type_in_bitmap_block [OF l, of w "concat (map window_block ws)" t]
    by (auto simp: x window_has_def)
qed

lemma type_bitmap_mem: "type_in_bitmap (type_bitmap ts) t \<longleftrightarrow> t \<in> set ts"
  using fold_window_or [of "[]" ts t] type_in_bitmap_windows
  by (simp add: type_bitmap_def windows_ok_def window_has_def)

section \<open>base32hex\<close>

text \<open>The \<open>n\<close> low bits of a word, most significant first.\<close>

definition low :: "nat \<Rightarrow> 'a::len word \<Rightarrow> bool list" where
  "low n v = map (\<lambda>i. bit v (n - 1 - i)) [0..<n]"

lemma length_low [simp]: "length (low n v) = n"
  by (simp add: low_def)

lemma low_0 [simp]: "low 0 v = []"
  by (simp add: low_def)

lemma low_nth [simp]: "i < n \<Longrightarrow> low n v ! i = bit v (n - 1 - i)"
  by (simp add: low_def)

lemma low_inj: "low 8 (a :: byte) = low 8 b \<Longrightarrow> a = b"
proof (rule bit_word_eqI)
  fix i
  assume eq: "low 8 a = low 8 b" and "i < LENGTH(8)"
  then have "low 8 a ! (7 - i) = low 8 b ! (7 - i)" by simp
  with \<open>i < LENGTH(8)\<close> show "bit a i = bit b i" by simp
qed

lemma low_split: "low (k + m) v = low k (drop_bit m v) @ low m v"
proof (rule nth_equalityI)
  fix i
  assume "i < length (low (k + m) v)"
  then show "low (k + m) v ! i = (low k (drop_bit m v) @ low m v) ! i"
    by (cases "i < k") (auto simp: nth_append bit_drop_bit_eq intro!: arg_cong [where f = "bit v"])
qed simp

lemma low_shift:
  fixes buf :: u64 and v :: "'a::len word"
  assumes "m + k \<le> 64" "\<And>i. k \<le> i \<Longrightarrow> \<not> bit v i"
  shows "low (m + k) (push_bit k buf OR ucast v) = low m buf @ low k v"
proof (rule nth_equalityI)
  fix i
  assume "i < length (low (m + k) (push_bit k buf OR ucast v))"
  then have i: "i < m + k" by simp
  show "low (m + k) (push_bit k buf OR ucast v) ! i = (low m buf @ low k v) ! i"
  proof (cases "i < m")
    case True
    then have "k \<le> m + k - 1 - i" "m + k - 1 - i < 64" using assms(1) by auto
    then have "bit (push_bit k buf OR ucast v) (m + k - 1 - i) = bit buf (m + k - 1 - i - k)"
      using assms(2) [of "m + k - 1 - i"] by (simp add: bit_or_iff bit_push_bit_iff bit_ucast_iff)
    moreover have "m + k - 1 - i - k = m - 1 - i" by simp
    ultimately show ?thesis using True by (simp add: nth_append)
  next
    case False
    then have "m + k - 1 - i < k" "m + k - 1 - i < 64" using i assms(1) by auto
    then have "bit (push_bit k buf OR ucast v) (m + k - 1 - i) = bit v (m + k - 1 - i)"
      by (simp add: bit_or_iff bit_push_bit_iff bit_ucast_iff)
    moreover have "m + k - 1 - i = k - 1 - (i - m)" using False i by simp
    ultimately show ?thesis using False i by (simp add: nth_append)
  qed
qed simp

lemma low_ucast: "k \<le> 8 \<Longrightarrow> low k (ucast (v :: u64) :: byte) = low k v"
  by (rule nth_equalityI) (auto simp: bit_ucast_iff)

lemma low_mask: "k \<le> 5 \<Longrightarrow> low k (v AND 0x1f :: u64) = low k v"
proof (rule nth_equalityI)
  fix i
  assume k: "k \<le> 5" "i < length (low k (v AND 0x1f))"
  have "v AND 0x1f = take_bit 5 v" by (simp add: take_bit_eq_mask mask_eq_exp_minus_1)
  with k show "low k (v AND 0x1f) ! i = low k v ! i" by (auto simp: bit_take_bit_iff)
qed simp

lemma low_push: "low (k + p) (push_bit p v :: u64) = low k v @ replicate p False" if "k + p \<le> 64"
proof (rule nth_equalityI)
  fix i
  assume i: "i < length (low (k + p) (push_bit p v))"
  then show "low (k + p) (push_bit p v) ! i = (low k v @ replicate p False) ! i"
    using that by (cases "i < k") (auto simp: nth_append bit_push_bit_iff intro!: arg_cong [where f = "bit v"])
qed simp

definition small :: "u64 \<Rightarrow> bool" where
  "small v \<longleftrightarrow> take_bit 5 v = v"

lemma small_and: "small (v AND 0x1f)"
proof -
  have "v AND 0x1f = take_bit 5 v" by (simp add: take_bit_eq_mask mask_eq_exp_minus_1)
  then show ?thesis by (simp add: small_def)
qed

lemma small_bit: "small v \<Longrightarrow> 5 \<le> i \<Longrightarrow> \<not> bit v i"
  unfolding small_def by (metis bit_take_bit_iff not_le)

lemma small_unat: "small v \<Longrightarrow> unat v < 32"
proof -
  assume "small v"
  then have "v = v mod 32" by (simp add: small_def take_bit_eq_mod)
  then have "unat v = unat v mod unat (32 :: u64)" by (metis unat_mod)
  then have "unat v = unat v mod 32" by simp
  then show ?thesis by (metis mod_less_divisor zero_less_numeral)
qed

lemma base32_value_digit: "small v \<Longrightarrow> base32_value (to_ascii_lowercase (base32_digit v)) = Some (ucast v)"
proof -
  assume "small v"
  then have "unat v \<in> set [0..<32]" using small_unat by simp
  moreover have "\<forall>n \<in> set [0..<32]. base32_value (to_ascii_lowercase (base32_digit (of_nat n))) = Some (ucast (of_nat n :: u64))"
    by code_simp
  ultimately show ?thesis by (metis of_nat_unat ucast_id)
qed

text \<open>A text that spells a bit string, five bits a digit.\<close>

definition spells :: "byte list \<Rightarrow> bool list \<Rightarrow> bool" where
  "spells out bl \<longleftrightarrow> (\<exists>vs. list_all small vs \<and> out = map base32_digit vs \<and> bl = concat (map (low 5) vs))"

lemma spells_snoc: "spells out bl \<Longrightarrow> small v \<Longrightarrow> spells (out @ [base32_digit v]) (bl @ low 5 v)"
  unfolding spells_def by (elim exE conjE) (rule exI [of _ "_ @ [v]"], simp)

lemma base32_drain_spells:
  "spells out bl \<Longrightarrow> base32_drain buf bits out = (bits', out') \<Longrightarrow>
     bits' < 5 \<and> (\<exists>bl'. spells out' bl' \<and> bl' @ low bits' buf = bl @ low bits buf)"
proof (induction buf bits out arbitrary: bl rule: base32_drain.induct)
  case (1 buf bits out)
  show ?case
  proof (cases "5 \<le> bits")
    case True
    then have "low bits buf = low 5 (drop_bit (bits - 5) buf) @ low (bits - 5) buf"
      using low_split [of 5 "bits - 5" buf] by simp
    moreover have "base32_drain buf (bits - 5) (out @ [base32_digit (drop_bit (bits - 5) buf AND 0x1f)]) = (bits', out')"
      using 1(3) True by (subst (asm) base32_drain.simps) simp
    ultimately show ?thesis using 1(1) [OF True spells_snoc [OF 1(2) small_and]] by (simp add: low_mask)
  next
    case False
    with 1(2,3) show ?thesis by (subst (asm) base32_drain.simps) auto
  qed
qed

lemma base32_encode_loop_spells:
  "spells out bl \<Longrightarrow> bits < 5 \<Longrightarrow> base32_encode_loop bs buf bits out = (buf', bits', out') \<Longrightarrow>
     bits' < 5 \<and> (\<exists>bl'. spells out' bl' \<and> bl' @ low bits' buf' = bl @ low bits buf @ concat (map (low 8) bs))"
proof (induction bs buf bits out arbitrary: bl rule: base32_encode_loop.induct)
  case (2 b bs buf bits out)
  let ?buf = "push_bit 8 buf OR ucast b :: u64"
  obtain bits1 out1 where d: "base32_drain ?buf (bits + 8) out = (bits1, out1)" by force
  from base32_drain_spells [OF 2(2) d] obtain bl1 where bl1: "bits1 < 5" "spells out1 bl1"
    "bl1 @ low bits1 ?buf = bl @ low (bits + 8) ?buf" by blast
  have "low (bits + 8) ?buf = low bits buf @ low 8 b"
    using 2(3) by (intro low_shift) (auto dest: bit_imp_le_length)
  moreover have "base32_encode_loop bs ?buf bits1 out1 = (buf', bits', out')" using 2(4) d by simp
  ultimately show ?case using 2(1) [OF refl d [symmetric] refl bl1(2,1)] bl1(3) by auto
qed auto

lemma base32hex_encode_spells: "\<exists>n < 5. spells (base32hex_encode bs) (concat (map (low 8) bs) @ replicate n False)"
proof -
  obtain buf bits out where e: "base32_encode_loop bs 0 0 [] = (buf, bits, out)" by (metis prod_cases3)
  have "spells [] []" by (auto simp: spells_def)
  from base32_encode_loop_spells [OF this _ e] obtain bl where bl: "bits < 5" "spells out bl"
    "bl @ low bits buf = concat (map (low 8) bs)" by auto
  show ?thesis
  proof (cases "bits = 0")
    case True
    with bl e show ?thesis by (intro exI [of _ 0]) (simp add: base32hex_encode_def)
  next
    case False
    have "low 5 (push_bit (5 - bits) buf) = low bits buf @ replicate (5 - bits) False"
      using low_push [of bits "5 - bits" buf] bl(1) by simp
    moreover note spells_snoc [OF bl(2) small_and [of "push_bit (5 - bits) buf"]]
    ultimately show ?thesis using False e bl by (intro exI [of _ "5 - bits"]) (simp add: base32hex_encode_def low_mask flip: bl(3))
  qed
qed

lemma base32_decode_loop_spells:
  assumes "list_all small vs" "bits < 8"
  shows "\<exists>out' rest. base32_decode_loop (map to_ascii_lowercase (map base32_digit vs)) buf bits out = Some out' \<and> length rest < 8 \<and>
    concat (map (low 8) out') @ rest = concat (map (low 8) out) @ low bits buf @ concat (map (low 5) vs)"
  using assms
proof (induction vs arbitrary: buf bits out)
  case (Cons v vs)
  let ?buf = "push_bit 5 buf OR ucast (ucast v :: byte) :: u64"
  have v: "small v" using Cons.prems by simp
  have "ucast (ucast v :: byte) = v"
    using small_bit [OF v] by (intro bit_word_eqI) (auto simp: bit_ucast_iff intro: ccontr)
  then have app: "low (bits + 5) ?buf = low bits buf @ low 5 v"
    using Cons.prems small_bit [OF v] low_shift [of bits 5 v buf] by simp
  have step: "base32_decode_loop (map to_ascii_lowercase (map base32_digit (v # vs))) buf bits out =
     (if bits + 5 \<ge> 8
      then base32_decode_loop (map to_ascii_lowercase (map base32_digit vs)) ?buf (bits + 5 - 8) (out @ [ucast (drop_bit (bits + 5 - 8) ?buf)])
      else base32_decode_loop (map to_ascii_lowercase (map base32_digit vs)) ?buf (bits + 5) out)"
    by (simp add: base32_value_digit v Let_def)
  show ?case
  proof (cases "bits + 5 \<ge> 8")
    case True
    define b where "b = (ucast (drop_bit (bits + 5 - 8) ?buf) :: byte)"
    have "low 8 b @ low (bits + 5 - 8) ?buf = low bits buf @ low 5 v"
      using True low_split [of 8 "bits + 5 - 8" ?buf] app by (simp add: b_def low_ucast add.commute [of 5])
    then have bl: "concat (map (low 8) (out @ [b])) @ low (bits + 5 - 8) ?buf @ concat (map (low 5) vs) =
        concat (map (low 8) out) @ low bits buf @ concat (map (low 5) (v # vs))" by simp
    show ?thesis unfolding step b_def [symmetric]
      using True Cons.prems Cons.IH [of "bits + 5 - 8" ?buf "out @ [b]"] unfolding bl by simp
  next
    case False
    then show ?thesis unfolding step using app Cons.prems Cons.IH [of "bits + 5" ?buf out] by simp
  qed
qed auto

lemma concat_low_inj:
  "concat (map (low 8) (as :: byte list)) @ r = concat (map (low 8) bs) @ r' \<Longrightarrow> length r < 8 \<Longrightarrow> length r' < 8 \<Longrightarrow> as = bs"
proof (induction as arbitrary: bs)
  case Nil
  then show ?case using arg_cong [OF Nil.prems(1), of length] by (cases bs) auto
next
  case (Cons a as)
  then show ?case using arg_cong [OF Cons.prems(1), of length] by (cases bs) (auto dest: low_inj)
qed

lemma base32hex_round_trip: "base32hex_decode (lower (base32hex_encode bs)) = Some bs"
proof -
  obtain n vs where n: "n < 5" "list_all small vs" "base32hex_encode bs = map base32_digit vs"
    "concat (map (low 8) bs) @ replicate n False = concat (map (low 5) vs)"
    using base32hex_encode_spells [of bs] unfolding spells_def by metis
  obtain out rest where o: "base32_decode_loop (map to_ascii_lowercase (map base32_digit vs)) 0 0 [] = Some out" "length rest < 8"
    "concat (map (low 8) out) @ rest = concat (map (low 5) vs)"
    using base32_decode_loop_spells [OF n(2), of 0 0 "[]"] by auto
  have "out = bs" by (rule concat_low_inj [of _ rest _ "replicate n False"]) (use o n in simp_all)
  with o n show ?thesis by (simp add: base32hex_decode_def)
qed

text \<open>
  What the crate documents of \<open>BASE32_DNSSEC\<close>: the digits 0 to 9 and a to v in order, five bits a digit, most
  significant first, the last digit filled up with zero bits and no padding.
\<close>

definition dnssec_digit :: "u64 \<Rightarrow> byte" where
  "dnssec_digit v = map of_char ''0123456789abcdefghijklmnopqrstuv'' ! unat v"

definition base32_dnssec :: "(byte list \<Rightarrow> byte list) \<Rightarrow> bool" where
  "base32_dnssec enc \<longleftrightarrow> (\<forall>bs. \<exists>vs n. n < 5 \<and> list_all small vs \<and> enc bs = map dnssec_digit vs \<and>
     concat (map (low 5) vs) = concat (map (low 8) bs) @ replicate n False)"

lemma dnssec_digit_cases:
  assumes "small v"
  shows "dnssec_digit v = to_ascii_lowercase (base32_digit v)" "escape_octet (dnssec_digit v) = [dnssec_digit v]"
    "to_ascii_lowercase (dnssec_digit v) = dnssec_digit v"
proof -
  have n: "unat v \<in> set [0..<32]" using small_unat [OF assms] by simp
  have "\<forall>n \<in> set [0..<32]. dnssec_digit (of_nat n) = to_ascii_lowercase (base32_digit (of_nat n)) \<and>
      escape_octet (dnssec_digit (of_nat n)) = [dnssec_digit (of_nat n)] \<and>
      to_ascii_lowercase (dnssec_digit (of_nat n)) = dnssec_digit (of_nat n)" by code_simp
  with n show "dnssec_digit v = to_ascii_lowercase (base32_digit v)" "escape_octet (dnssec_digit v) = [dnssec_digit v]"
    "to_ascii_lowercase (dnssec_digit v) = dnssec_digit v" by (metis of_nat_unat ucast_id)+
qed

lemma base32_dnssec_decoded:
  assumes "base32_dnssec enc"
  shows "base32hex_decode (enc bs) = Some bs" "lower (enc bs) = enc bs" "concat (map escape_octet (enc bs)) = enc bs"
    "length bs = 20 \<Longrightarrow> length (enc bs) = 32"
proof -
  obtain vs n where n: "n < 5" "list_all small vs" "enc bs = map dnssec_digit vs"
    "concat (map (low 5) vs) = concat (map (low 8) bs) @ replicate n False"
    using assms unfolding base32_dnssec_def by meson
  have d: "map dnssec_digit vs = map to_ascii_lowercase (map base32_digit vs)"
    using n(2) dnssec_digit_cases(1) by (simp add: list_all_iff)
  obtain out rest where o: "base32_decode_loop (map to_ascii_lowercase (map base32_digit vs)) 0 0 [] = Some out" "length rest < 8"
    "concat (map (low 8) out) @ rest = concat (map (low 5) vs)"
    using base32_decode_loop_spells [OF n(2), of 0 0 "[]"] by auto
  have "out = bs" by (rule concat_low_inj [of _ rest _ "replicate n False"]) (use o n in simp_all)
  with o(1) show "base32hex_decode (enc bs) = Some bs" by (simp add: base32hex_decode_def n(3) d)
  show "lower (enc bs) = enc bs" using n(2) dnssec_digit_cases(3) by (simp add: n(3) list_all_iff)
  have "map (escape_octet \<circ> dnssec_digit) vs = map (\<lambda>v. [dnssec_digit v]) vs" using n(2) dnssec_digit_cases(2) by (simp add: list_all_iff)
  then show "concat (map escape_octet (enc bs)) = enc bs" unfolding n(3) map_map by (simp only: concat_map_singleton)
  have "5 * length vs = 8 * length bs + n"
    using arg_cong [OF n(4), of length] by (simp add: length_concat comp_def sum_list_triv)
  then show "length bs = 20 \<Longrightarrow> length (enc bs) = 32" using n(1,3) by simp
qed

text \<open>A label of plain octets put before a name.\<close>

lemma prepend_label_plain:
  assumes "valid_name nm" "label_ok l" "concat (map escape_octet l) = l" "length l + length (name_wire nm) < MAX_NAME_WIRE"
  shows "\<exists>n. prepend_label l nm = Some (Some n) \<and> valid_name n \<and> labels n = l # labels nm"
proof -
  obtain ls where n: "nm = Name (wire_of ls)" "list_all label_ok ls" using assms(1) by (elim valid_nameE)
  let ?n = "Name (wire_of (l # ls))"
  have ok: "list_all label_ok (l # ls)" "length (wire_of (l # ls)) \<le> MAX_NAME_WIRE" using n assms(2,4) by simp_all
  then have v: "valid_name ?n" by (intro valid_nameI)
  have t: "label_text l = l @ [46]" using assms(3) by (simp add: label_text_def)
  have "from_ascii (concat (map label_text (l # ls))) = Inr ?n"
    using from_to_ascii [OF v] to_ascii_wire_of [OF ok(1)] by auto
  moreover have "concat (map label_text ls) \<noteq> [46]" if "ls \<noteq> []"
  proof -
    obtain l' ls' where "ls = l' # ls'" "l' \<noteq> []" using \<open>ls \<noteq> []\<close> n(2) by (cases ls) (simp_all add: label_ok_def)
    then obtain c cs where "ls = (c # cs) # ls'" by (cases l') simp_all
    moreover have "0 < length (escape_octet c)" by (simp add: escape_octet_def)
    ultimately have "1 < length (concat (map label_text ls))" by (simp add: label_text_def)
    then show ?thesis by auto
  qed
  ultimately have "prepend_label l nm = Some (Some ?n)"
    using n to_ascii_wire_of [OF n(2)] t by (cases "ls = []") (auto simp: prepend_label_def Let_def)
  moreover have "labels ?n = l # ls" "labels nm = ls" using ok(1) n by (simp_all del: wire_of.simps)
  ultimately show ?thesis using v by metis
qed

text \<open>
  C21. An NSEC3 record as the signer writes it, under the owner name made of the base32 label of a SHA-1 hash
  and the apex of the zone, is read back by the validator as it was written: the owner name is made without an
  error, the flags, the iteration count, the salt and the next hash are the ones given, the owner hash is the
  one the label encodes, and the bitmap holds exactly the given types.
\<close>

theorem nsec3_record_round_trip:
  assumes "base32_dnssec enc" "length salt < 256" "length next_hash < 256" "length owner_hash = 20"
    and "valid_name apex" "length (name_wire apex) \<le> 222"
  shows "\<exists>owner n3. prepend_label (nsec3_owner_label enc owner_hash) apex = Some (Some owner) \<and>
    labels owner = nsec3_owner_label enc owner_hash # labels apex \<and>
    nsec3_parse owner (nsec3_rdata flags iterations salt next_hash types) = Some (Some n3) \<and>
    n3_hash_alg n3 = 1 \<and> n3_flags n3 = flags \<and> n3_iterations n3 = iterations \<and> n3_salt n3 = salt \<and>
    n3_owner_hash n3 = owner_hash \<and> n3_next_hash n3 = next_hash \<and>
    (\<forall>t. type_in_bitmap (n3_bitmap n3) t \<longleftrightarrow> t \<in> set types)"
proof -
  note e = base32_dnssec_decoded [OF assms(1), of owner_hash]
  have "label_ok (enc owner_hash)" using e(4) assms(4) by (auto simp: label_ok_def)
  then obtain owner where o: "prepend_label (enc owner_hash) apex = Some (Some owner)" "valid_name owner"
    "labels owner = enc owner_hash # labels apex"
    using prepend_label_plain [OF assms(5) _ e(3)] e(4) assms(4,6) by auto
  have l: "labels_lower owner = Some (enc owner_hash # map lower (labels apex))"
    using o(2,3) e(2) by (simp add: labels_lower_valid)
  have s: "unat (of_nat (length salt) :: byte) = length salt" "unat (of_nat (length next_hash) :: byte) = length next_hash"
    using assms(2,3) by (simp_all add: unat_of_nat)
  have d: "6 + length salt = Suc (Suc (Suc (Suc (Suc (Suc (length salt))))))" by simp
  show ?thesis
    by (simp add: nsec3_owner_label_def o(1,3) nsec3_parse_def nsec3_rdata_def u16_to_be_def l s d e(1) type_bitmap_mem
        u16_from_to_be nth_append Let_def)
qed

lemma lower_base32hex_documented: "base32_dnssec (\<lambda>bs. lower (base32hex_encode bs))"
  unfolding base32_dnssec_def
proof
  fix bs
  obtain n vs where n: "n < 5" "list_all small vs" "base32hex_encode bs = map base32_digit vs"
    "concat (map (low 8) bs) @ replicate n False = concat (map (low 5) vs)"
    using base32hex_encode_spells [of bs] unfolding spells_def by metis
  then have "lower (base32hex_encode bs) = map dnssec_digit vs"
    using dnssec_digit_cases(1) by (simp add: list_all_iff)
  with n show "\<exists>vs n. n < 5 \<and> list_all small vs \<and> lower (base32hex_encode bs) = map dnssec_digit vs \<and>
      concat (map (low 5) vs) = concat (map (low 8) bs) @ replicate n False" by metis
qed

theorem nsec3_record_round_trip_witness:
  "\<exists>owner n3. prepend_label (nsec3_owner_label (\<lambda>bs. lower (base32hex_encode bs)) (replicate 20 0xFF)) (Name [1, 97, 0]) = Some (Some owner) \<and>
     nsec3_parse owner (nsec3_rdata 1 12 [7, 8] [9] [1, 46]) = Some (Some n3) \<and>
     n3_owner_hash n3 = replicate 20 0xFF \<and> n3_salt n3 = [7, 8] \<and> type_in_bitmap (n3_bitmap n3) 46"
proof -
  have v: "valid_name (Name [1, 97, 0])" by code_simp
  show ?thesis
    using nsec3_record_round_trip [OF lower_base32hex_documented, of "[7, 8]" "[9]" "replicate 20 0xFF", OF _ _ _ v, of 1 12 "[1, 46]"]
    by auto
qed

section \<open>Closed chains of intervals\<close>

text \<open>The interval test shared by NSEC and NSEC3, and the links of a closed chain.\<close>

definition covers_between :: "('a \<Rightarrow> 'a \<Rightarrow> ordering) \<Rightarrow> 'a \<Rightarrow> 'a \<Rightarrow> 'a \<Rightarrow> bool" where
  "covers_between cmp a b x =
     (if cmp a b = Less then cmp a x = Less \<and> cmp x b = Less else cmp a x = Less \<or> cmp x b = Less)"

definition links :: "'a list \<Rightarrow> ('a \<times> 'a) list" where
  "links xs = zip xs (tl xs @ [hd xs])"

lemma set_links:
  assumes "xs \<noteq> []"
  shows "set (links xs) = {(xs ! i, xs ! Suc i) | i. Suc i < length xs} \<union> {(last xs, hd xs)}"
proof -
  obtain y ys where xs: "xs = ys @ [y]" using assms by (metis rev_exhaust)
  have tl: "tl xs @ [hd xs] = map (\<lambda>i. xs ! Suc i) [0..<length ys] @ [hd xs]"
    by (rule arg_cong [where f = "\<lambda>zs. zs @ [hd xs]"], rule nth_equalityI) (simp_all add: xs nth_tl)
  have "links xs = zip ys (map (\<lambda>i. xs ! Suc i) [0..<length ys]) @ [(y, hd xs)]"
    unfolding links_def tl unfolding xs by simp
  moreover have "zip ys (map (\<lambda>i. xs ! Suc i) [0..<length ys]) = map (\<lambda>i. (xs ! i, xs ! Suc i)) [0..<length ys]"
    by (rule nth_equalityI) (simp_all add: xs nth_append)
  moreover have "last xs = y" "Suc i < length xs \<longleftrightarrow> i < length ys" for i by (simp_all add: xs)
  ultimately show ?thesis by auto
qed

context comparator
begin

lemma less_asym: "cmp a b = Less \<Longrightarrow> cmp b a \<noteq> Less"
  using flip [where x = a and y = b] by auto

lemma less_irrefl: "cmp a a \<noteq> Less"
  by simp

lemma trichotomy: "cmp a b = Less \<or> a = b \<or> cmp b a = Less"
  using equal_iff [of a b] flip [where x = a and y = b] by (cases "cmp a b") auto

lemma sorted_nth:
  "sorted_wrt (\<lambda>a b. cmp a b = Less) xs \<Longrightarrow> i < length xs \<Longrightarrow> j < length xs \<Longrightarrow> cmp (xs ! i) (xs ! j) = Less \<longleftrightarrow> i < j"
  using less_asym [of "xs ! j" "xs ! i"] sorted_wrt_nth_less [of "\<lambda>a b. cmp a b = Less" xs i j]
    sorted_wrt_nth_less [of "\<lambda>a b. cmp a b = Less" xs j i]
  by (cases i j rule: linorder_cases) auto

text \<open>The links of the sorted chain of a set cover exactly the points outside the set.\<close>

lemma links_cover:
  assumes sorted: "sorted_wrt (\<lambda>a b. cmp a b = Less) xs" and "xs \<noteq> []"
  shows "(\<exists>(a, b) \<in> set (links xs). covers_between cmp a b x) \<longleftrightarrow> x \<notin> set xs"
proof
  assume "\<exists>(a, b) \<in> set (links xs). covers_between cmp a b x"
  then obtain a b where ab: "(a, b) \<in> set (links xs)" "covers_between cmp a b x" by auto
  show "x \<notin> set xs"
  proof
    assume "x \<in> set xs"
    then obtain k where k: "k < length xs" "x = xs ! k" by (auto simp: in_set_conv_nth)
    from ab(1) consider i where "Suc i < length xs" "a = xs ! i" "b = xs ! Suc i" | "a = last xs" "b = hd xs"
      unfolding set_links [OF assms(2)] by auto
    then show False
    proof cases
      case 1
      then show ?thesis using ab(2) k sorted_nth [OF sorted] by (auto simp: covers_between_def)
    next
      case 2
      have "last xs = xs ! (length xs - 1)" "hd xs = xs ! 0" using assms(2) by (simp_all add: last_conv_nth hd_conv_nth)
      with 2 show ?thesis using ab(2) k sorted_nth [OF sorted] assms(2)
        by (auto simp: covers_between_def split: if_splits)
    qed
  qed
next
  assume x: "x \<notin> set xs"
  have hd: "hd xs = xs ! 0" and last: "last xs = xs ! (length xs - 1)"
    using assms(2) by (simp_all add: last_conv_nth hd_conv_nth)
  have notless: "cmp (last xs) (hd xs) \<noteq> Less"
    unfolding hd last using sorted_nth [OF sorted] assms(2) by simp
  show "\<exists>(a, b) \<in> set (links xs). covers_between cmp a b x"
  proof (cases "cmp x (hd xs) = Less \<or> cmp (last xs) x = Less")
    case True
    then have "covers_between cmp (last xs) (hd xs) x" using notless by (auto simp: covers_between_def)
    then show ?thesis unfolding set_links [OF assms(2)] by blast
  next
    case False
    define i where "i = (GREATEST i. i < length xs \<and> cmp (xs ! i) x = Less)"
    have ex: "0 < length xs \<and> cmp (xs ! 0) x = Less"
      using False trichotomy [of x "hd xs"] x assms(2) by (auto simp: hd)
    have i: "i < length xs \<and> cmp (xs ! i) x = Less" unfolding i_def
      by (rule GreatestI_nat [where P = "\<lambda>i. i < length xs \<and> cmp (xs ! i) x = Less", OF ex, of "length xs"]) simp
    have "i \<noteq> length xs - 1" using False i by (auto simp: last)
    with i have si: "Suc i < length xs" by linarith
    have "cmp (xs ! Suc i) x \<noteq> Less"
    proof
      assume "cmp (xs ! Suc i) x = Less"
      with si have "Suc i \<le> i" unfolding i_def
        by (intro Greatest_le_nat [where b = "length xs"]) auto
      then show False by simp
    qed
    then have "cmp x (xs ! Suc i) = Less" using trichotomy [of x "xs ! Suc i"] x si by auto
    moreover have "cmp (xs ! i) (xs ! Suc i) = Less" using sorted_nth [OF sorted] si by simp
    ultimately have "covers_between cmp (xs ! i) (xs ! Suc i) x" using i by (simp add: covers_between_def)
    then show ?thesis unfolding set_links [OF assms(2)] using si by blast
  qed
qed

end

section \<open>NSEC\<close>

lemma links_map: "xs \<noteq> [] \<Longrightarrow> links (map f xs) = map (map_prod f f) (links xs)"
  unfolding links_def by (cases xs) (auto simp: zip_map_map map_prod_def simp flip: zip_map_map)

lemma nsec_covers_key:
  assumes "valid_name a" "valid_name b" "valid_name q"
  shows "nsec_covers a b q = Some (covers_between (lex_cmp bytes_cmp) (order_key a) (order_key b) (order_key q))"
  using assms by (simp add: nsec_covers_def less_opt_def canonical_cmp_key covers_between_def and_then_def or_else_def)

text \<open>
  C20. The NSEC records of a zone decide existence: for the closed chain of the zone's names in
  canonical order, the check whether some record covers a name returns, without a panic, true exactly
  when the zone does not hold that name (up to letter case).
\<close>

theorem nsec_chain_decides:
  assumes "\<forall>z \<in> set zs. valid_name z" "zs \<noteq> []" "sorted_wrt (\<lambda>a b. canonical_cmp a b = Some Less) zs"
    and "map (\<lambda>n. (nsec_owner n, nsec_next n)) nsecs = links zs" "valid_name q"
  shows "nsec_proves_nonexistence nsecs q = Some (\<forall>z \<in> set zs. \<not> eq_ignore_ascii_case z q)"
proof -
  let ?ks = "map order_key zs"
  have "sorted_wrt (\<lambda>a b. lex_cmp bytes_cmp a b = Less) ?ks"
    using assms(1,3) unfolding sorted_wrt_map
    by (elim sorted_wrt_mono_rel [rotated]) (simp add: canonical_cmp_key)
  then have cover: "(\<exists>(a, b) \<in> set (links ?ks). covers_between (lex_cmp bytes_cmp) a b (order_key q)) \<longleftrightarrow>
      order_key q \<notin> set ?ks"
    using assms(2) by (intro labels_order.links_cover) simp_all
  have vl: "valid_name a \<and> valid_name b" if "(a, b) \<in> set (links zs)" for a b
    using that assms(1,2) by (auto simp: set_links)
  have own: "(nsec_owner n, nsec_next n) \<in> set (links zs)" if "n \<in> set nsecs" for n
    using that unfolding assms(4) [symmetric] by force
  have cv: "nsec_covers (nsec_owner n) (nsec_next n) q =
      Some (covers_between (lex_cmp bytes_cmp) (order_key (nsec_owner n)) (order_key (nsec_next n)) (order_key q))"
    if "n \<in> set nsecs" for n
    using vl [OF own [OF that]] assms(5) by (simp add: nsec_covers_key)
  have "nsec_proves_nonexistence nsecs q = Some (\<exists>n \<in> set nsecs. nsec_covers (nsec_owner n) (nsec_next n) q = Some True)"
    unfolding nsec_proves_nonexistence_def using cv by (intro any_opt_iff) simp
  also have "(\<exists>n \<in> set nsecs. nsec_covers (nsec_owner n) (nsec_next n) q = Some True) \<longleftrightarrow>
      (\<exists>(a, b) \<in> set (map (\<lambda>n. (nsec_owner n, nsec_next n)) nsecs).
         covers_between (lex_cmp bytes_cmp) (order_key a) (order_key b) (order_key q))"
    using cv by auto
  also have "\<dots> \<longleftrightarrow> order_key q \<notin> set ?ks"
    unfolding assms(4) cover [symmetric] links_map [OF assms(2)] by (simp add: case_prod_beta)
  also have "\<dots> \<longleftrightarrow> (\<forall>z \<in> set zs. \<not> eq_ignore_ascii_case z q)"
    using assms(1,5) order_key_eq by (auto simp: image_iff eq_ignore_ascii_case_iff)
  finally show ?thesis .
qed

theorem nsec_chain_decides_witness:
  "nsec_proves_nonexistence
     [\<lparr>nsec_owner = Name [1, 97, 0], nsec_next = Name [1, 99, 0], nsec_bitmap = []\<rparr>,
      \<lparr>nsec_owner = Name [1, 99, 0], nsec_next = Name [1, 97, 0], nsec_bitmap = []\<rparr>] (Name [1, 98, 0]) = Some True"
proof -
  let ?zs = "[Name [1, 97, 0], Name [1, 99, 0]]"
  have v: "\<forall>z \<in> set ?zs. valid_name z" "?zs \<noteq> []" "sorted_wrt (\<lambda>a b. canonical_cmp a b = Some Less) ?zs"
    "valid_name (Name [1, 98, 0])" "\<forall>z \<in> set ?zs. \<not> eq_ignore_ascii_case z (Name [1, 98, 0])" by code_simp+
  show ?thesis
    by (subst nsec_chain_decides [OF v(1-3) _ v(4)]) (use v(5) in \<open>simp_all add: links_def\<close>)
qed

section \<open>NSEC3\<close>

text \<open>
  An honest NSEC3 record of a zone with the names \<open>zs\<close>: a link of the closed chain of their hashes
  under the record's own parameters.
\<close>

definition genuine :: "ring \<Rightarrow> name list \<Rightarrow> nsec3 \<Rightarrow> bool" where
  "genuine r zs n3 \<longleftrightarrow>
     (\<exists>hs. sorted_wrt (\<lambda>a b. bytes_cmp a b = Less) hs \<and>
        set hs = (\<lambda>z. nsec3_hash r (canonical_name_wire z) (n3_salt n3) (n3_iterations n3)) ` set zs \<and>
        (n3_owner_hash n3, n3_next_hash n3) \<in> set (links hs))"

definition held :: "name list \<Rightarrow> name \<Rightarrow> bool" where
  "held zs q \<longleftrightarrow> (\<exists>z \<in> set zs. eq_ignore_ascii_case z q)"

text \<open>The names of a zone contain the ancestors of each name, up to the apex (empty non-terminals).\<close>

definition zone_closed :: "name \<Rightarrow> name list \<Rightarrow> bool" where
  "zone_closed zone zs \<longleftrightarrow>
     (\<forall>z \<in> set zs. valid_name z \<and>
        (\<forall>k \<le> length (labels z). is_in_zone (suffix_name (labels z) k) zone = Some True \<longrightarrow>
           held zs (suffix_name (labels z) k)))"

lemma n3_covers_sound:
  assumes "genuine r zs n3" "n3_covers r n3 q"
  shows "\<not> held zs q"
proof
  assume "held zs q"
  then obtain z where z: "z \<in> set zs" "eq_ignore_ascii_case z q" by (auto simp: held_def)
  let ?H = "\<lambda>z. nsec3_hash r (canonical_name_wire z) (n3_salt n3) (n3_iterations n3)"
  obtain hs where hs: "sorted_wrt (\<lambda>a b. bytes_cmp a b = Less) hs" "set hs = ?H ` set zs"
    "(n3_owner_hash n3, n3_next_hash n3) \<in> set (links hs)" using assms(1) by (auto simp: genuine_def)
  have "hs \<noteq> []" using hs(2) z(1) by auto
  have "?H q = ?H z" using z(2) by (simp add: canonical_name_wire_def eq_ignore_ascii_case_iff)
  with hs(2) z(1) have "?H q \<in> set hs" by auto
  moreover have "covers_between bytes_cmp (n3_owner_hash n3) (n3_next_hash n3) (?H q)"
    using assms(2) by (auto simp: n3_covers_def n3_hash_def cover_hash_def covers_between_def split: if_splits)
  ultimately show False using bytes_order.links_cover [OF hs(1) \<open>hs \<noteq> []\<close>] hs(3) by blast
qed

text \<open>The collected ancestors are the suffixes of the name, from the name up to the zone.\<close>

lemma ancestor_chain_suffixes:
  assumes "list_all label_ok ls" "k \<le> length ls" "ancestor_chain (suffix_name ls k) zone acc = Some (Some chain)"
  shows "\<exists>m \<ge> k. m \<le> length ls \<and> chain = acc @ map (suffix_name ls) [Suc k..<Suc m] \<and>
    eq_ignore_ascii_case (suffix_name ls m) zone"
  using assms(2,3)
proof (induction "length ls - k" arbitrary: k acc)
  case 0
  then show ?case using name_parent_suffix [OF assms(1), of k]
    by (subst (asm) ancestor_chain.simps) (auto split: if_splits intro!: exI [of _ k])
next
  case (Suc d)
  then have k: "k < length ls" by simp
  show ?case
  proof (cases "eq_ignore_ascii_case (suffix_name ls k) zone")
    case True
    with Suc.prems show ?thesis by (subst (asm) ancestor_chain.simps) (auto intro!: exI [of _ k])
  next
    case False
    then have "ancestor_chain (suffix_name ls (Suc k)) zone (acc @ [suffix_name ls (Suc k)]) = Some (Some chain)"
      using Suc.prems(2) name_parent_suffix [OF assms(1), of k] k by (subst (asm) ancestor_chain.simps) simp
    from Suc.hyps(1) [OF _ _ this] Suc.hyps(2) k obtain m where "m \<ge> Suc k" "m \<le> length ls"
      "chain = (acc @ [suffix_name ls (Suc k)]) @ map (suffix_name ls) [Suc (Suc k)..<Suc m]"
      "eq_ignore_ascii_case (suffix_name ls m) zone" by fastforce
    then show ?thesis by (intro exI [of _ m]) (simp add: upt_conv_Cons del: upt_Suc)
  qed
qed

lemma in_zone_suffix:
  assumes "list_all label_ok ls" "valid_name zone" "eq_ignore_ascii_case (suffix_name ls m) zone" "i \<le> m" "m \<le> length ls"
  shows "is_in_zone (suffix_name ls i) zone = Some True"
proof -
  obtain zs where z: "zone = Name (wire_of zs)" "list_all label_ok zs" using assms(2) by (elim valid_nameE)
  have "map lower (drop (m - i) (drop i ls)) = map lower zs" using assms z eq_suffix by simp
  moreover have "list_all label_ok (drop i ls)" using assms(1) by (auto simp: list_all_iff dest: in_set_dropD)
  ultimately show ?thesis using assms(4,5) is_in_zone_labels [OF _ z(2), of "drop i ls"] z(1)
    by (auto simp: suffix_name_def intro!: exI [of _ "m - i"])
qed

lemma held_suffix:
  assumes "zone_closed zone zs" "valid_name zone" "list_all label_ok ls" "held zs (suffix_name ls j)" "j \<le> i" "i \<le> m"
    "m \<le> length ls" "eq_ignore_ascii_case (suffix_name ls m) zone"
  shows "held zs (suffix_name ls i)"
proof -
  obtain z where z: "z \<in> set zs" "eq_ignore_ascii_case z (suffix_name ls j)" "valid_name z"
    using assms(1,4) by (auto simp: held_def zone_closed_def)
  obtain xs where xs: "z = Name (wire_of xs)" "list_all label_ok xs" using z(3) by (elim valid_nameE)
  have d: "list_all label_ok (drop j ls)" using assms(3) by (auto simp: list_all_iff dest: in_set_dropD)
  have eq: "map lower xs = map lower (drop j ls)"
    using z(2) d xs by (simp add: suffix_name_def eq_ignore_ascii_case_labels)
  then have len: "length xs = length ls - j" by (metis length_drop length_map)
  have sub: "map lower (drop (k - j) xs) = map lower (drop k ls)" if "j \<le> k" for k
    using arg_cong [OF eq, of "drop (k - j)"] that by (simp add: drop_map)
  have eqs: "eq_ignore_ascii_case (suffix_name xs (k - j)) (suffix_name ls k)" if "j \<le> k" for k
    using that sub xs(2) assms(3) unfolding suffix_name_def [of ls k]
    by (subst eq_suffix) (auto simp: list_all_iff dest: in_set_dropD)
  have "eq_ignore_ascii_case (suffix_name xs (m - j)) zone"
    using eqs [of m] assms(5,6,8) by (simp add: eq_ignore_ascii_case_iff)
  then have "is_in_zone (suffix_name xs (i - j)) zone = Some True"
    using xs(2) assms(2,5-7) len by (intro in_zone_suffix [of xs zone "m - j"]) simp_all
  then have "held zs (suffix_name xs (i - j))"
    using assms(1,5-7) z(1) xs len by (auto simp: zone_closed_def)
  then show ?thesis using eqs [OF assms(5)] by (auto simp: held_def eq_ignore_ascii_case_iff)
qed

lemma nxdomain_loop_True:
  "nxdomain_loop r n3s ps = Some True \<Longrightarrow>
     \<exists>(nc, ce) \<in> set ps. (\<exists>n3 \<in> set n3s. n3_matches r n3 ce) \<and> (\<exists>n3 \<in> set n3s. n3_covers r n3 nc) \<and>
       (\<exists>wc. wildcard_of ce = Some (Some wc) \<and> (\<exists>n3 \<in> set n3s. n3_covers r n3 wc))"
  by (induction ps) (auto simp: list_ex_iff split: if_splits bind_splits option.splits)

lemma zip_suffixes:
  assumes "(a, b) \<in> set (zip (map f [k..<Suc m]) (tl (map f [k..<Suc m])))"
  obtains i where "k \<le> i" "i < m" "a = f i" "b = f (Suc i)"
proof -
  obtain n where n: "n < length (zip (map f [k..<Suc m]) (tl (map f [k..<Suc m])))"
    "zip (map f [k..<Suc m]) (tl (map f [k..<Suc m])) ! n = (a, b)" using assms by (meson in_set_conv_nth)
  then have "k + n < m" by (auto simp del: upt_Suc)
  with n show ?thesis by (intro that [of "k + n"]) (auto simp: nth_tl simp del: upt_Suc)
qed

text \<open>
  C7. An accepted NSEC3 proof that a name does not exist is sound: when the records are links of the
  closed hash chain of a zone, the zone holds neither the name nor any of its ancestors below the
  closest encloser the proof uses, and it does not hold the wildcard at that encloser.
\<close>

theorem nsec3_nxdomain_sound:
  assumes "\<forall>n3 \<in> set n3s. genuine r zs n3" "zone_closed zone zs" "valid_name q" "valid_name zone"
    and "nsec3_proves_nxdomain r n3s q zone = Some True"
  shows "\<exists>k > 0. k \<le> length (labels q) \<and> (\<forall>j < k. \<not> held zs (suffix_name (labels q) j)) \<and>
    (\<exists>n3 \<in> set n3s. n3_matches r n3 (suffix_name (labels q) k)) \<and>
    (\<exists>wc. wildcard_of (suffix_name (labels q) k) = Some (Some wc) \<and> \<not> held zs wc)"
proof -
  obtain ls where q: "q = Name (wire_of ls)" "list_all label_ok ls" using assms(3) by (elim valid_nameE)
  then have lb: "labels q = ls" and q0: "q = suffix_name ls 0" by (simp_all add: suffix_name_0)
  obtain chain where chain: "ancestor_chain q zone [q] = Some (Some chain)"
    "nxdomain_loop r n3s (zip chain (tl chain)) = Some True"
    using assms(5) by (auto simp: nsec3_proves_nxdomain_def split: bind_splits option.splits)
  obtain m where m: "m \<le> length ls" "chain = [q] @ map (suffix_name ls) [Suc 0..<Suc m]"
    "eq_ignore_ascii_case (suffix_name ls m) zone"
    using ancestor_chain_suffixes [OF q(2), of 0 zone "[q]" chain] chain(1) q0 by auto
  have "chain = map (suffix_name ls) [0..<Suc m]" unfolding m(2) q0 by (simp add: upt_conv_Cons del: upt_Suc)
  then obtain i n1 n2 n3 wc where i: "i < m"
    "n1 \<in> set n3s" "n3_matches r n1 (suffix_name ls (Suc i))" "n2 \<in> set n3s" "n3_covers r n2 (suffix_name ls i)"
    "wildcard_of (suffix_name ls (Suc i)) = Some (Some wc)" "n3 \<in> set n3s" "n3_covers r n3 wc"
    using nxdomain_loop_True [OF chain(2)] by (auto simp del: upt_Suc elim!: zip_suffixes)
  have "\<not> held zs (suffix_name ls i)" "\<not> held zs wc" using assms(1) i n3_covers_sound by blast+
  then have "\<forall>j < Suc i. \<not> held zs (suffix_name ls j)"
    using held_suffix [OF assms(2,4) q(2), of _ i m] i(1) m by (meson less_Suc_eq_le less_imp_le_nat)
  with i m(1) \<open>\<not> held zs wc\<close> show ?thesis unfolding lb by (intro exI [of _ "Suc i"]) auto
qed

definition echo_ring :: ring where
  "echo_ring = toy_ring\<lparr>ring_sha1 := \<lambda>bs. bs\<rparr>"

theorem nsec3_nxdomain_sound_witness:
  "\<exists>k > 0. k \<le> length (labels (Name [1, 98, 1, 97, 0])) \<and>
     (\<forall>j < k. \<not> held [Name [1, 97, 0]] (suffix_name (labels (Name [1, 98, 1, 97, 0])) j))"
proof -
  let ?zone = "Name [1, 97, 0]" and ?q = "Name [1, 98, 1, 97, 0]" and ?h = "[1, 97, 0, 1, 2] :: byte list"
  let ?n3 = "\<lparr>n3_hash_alg = 1, n3_flags = 0, n3_iterations = 0, n3_salt = [1, 2], n3_owner_hash = ?h,
    n3_next_hash = ?h, n3_bitmap = []\<rparr>"
  have h: "nsec3_hash echo_ring (canonical_name_wire ?zone) [1, 2] 0 = ?h" by code_simp
  have g: "\<forall>n3 \<in> set [?n3]. genuine echo_ring [?zone] n3"
    using h by (auto simp: genuine_def links_def intro!: exI [of _ "[?h]"])
  have v: "valid_name ?q" "valid_name ?zone" "nsec3_proves_nxdomain echo_ring [?n3] ?q ?zone = Some True" by code_simp+
  have "labels ?zone = [[97]]" "is_in_zone (suffix_name [[97]] 1) ?zone = Some False"
    "eq_ignore_ascii_case ?zone (suffix_name [[97]] 0)" by code_simp+
  then have z: "zone_closed ?zone [?zone]" using v(2) by (auto simp: zone_closed_def held_def le_Suc_eq)
  from nsec3_nxdomain_sound [OF g z v] show ?thesis by blast
qed

end
