(* ===== verification/Hash_Map.thy ===== *)
theory Hash_Map
  imports Prelude "HOL-Library.AList" "HOL-Library.Multiset"
begin

text \<open>
  \<open>std::collections::HashMap\<close> as the code uses it: an association list with distinct keys. The order of
  iteration is not specified, so the operations that iterate take it as an argument \<open>iter\<close>.
\<close>

text \<open>The documented behaviour of \<open>HashMap::iter\<close>: every entry once, in some order.\<close>

definition iterates :: "('a list \<Rightarrow> 'a list) \<Rightarrow> bool" where
  "iterates iter \<longleftrightarrow> (\<forall>xs. mset (iter xs) = mset xs)"

text \<open>\<open>entry(k).or_default().push(v)\<close> and \<open>entry(k).or_insert(v)\<close>.\<close>

definition entry_push :: "'k \<Rightarrow> 'v \<Rightarrow> ('k \<times> 'v list) list \<Rightarrow> ('k \<times> 'v list) list" where
  "entry_push k v m = AList.update k ((case map_of m k of None \<Rightarrow> [] | Some vs \<Rightarrow> vs) @ [v]) m"

definition or_insert :: "'k \<Rightarrow> 'v \<Rightarrow> ('k \<times> 'v) list \<Rightarrow> ('k \<times> 'v) list" where
  "or_insert k v m = (case map_of m k of None \<Rightarrow> AList.update k v m | Some _ \<Rightarrow> m)"

lemma iterates_set: "iterates iter \<Longrightarrow> set (iter xs) = set xs"
  unfolding iterates_def by (metis set_mset_mset)

lemma iterates_length: "iterates iter \<Longrightarrow> length (iter xs) = length xs"
  unfolding iterates_def by (metis size_mset)

lemma iterates_id: "iterates (\<lambda>xs. xs)"
  by (simp add: iterates_def)

lemma iterates_distinct:
  assumes "iterates iter"
  shows "distinct (map f (iter xs)) \<longleftrightarrow> distinct (map f xs)"
proof -
  have "mset (map f (iter xs)) = mset (map f xs)" using assms by (simp add: iterates_def)
  then show ?thesis by (rule mset_eq_imp_distinct_iff)
qed

lemma map_of_iter:
  assumes "iterates iter" "distinct (map fst m)"
  shows "map_of (iter m) = map_of m"
  using assms by (intro map_of_inject_set [THEN iffD2]) (simp_all add: iterates_distinct iterates_set)

lemma map_of_entry_push [simp]:
  "map_of (entry_push k v m) = (map_of m)(k \<mapsto> (case map_of m k of None \<Rightarrow> [] | Some vs \<Rightarrow> vs) @ [v])"
  by (simp add: entry_push_def update_conv')

lemma map_of_or_insert [simp]:
  "map_of (or_insert k v m) = (case map_of m k of None \<Rightarrow> (map_of m)(k \<mapsto> v) | Some _ \<Rightarrow> map_of m)"
  by (simp add: or_insert_def update_conv' split: option.split)

lemma distinct_entry_push [simp]: "distinct (map fst m) \<Longrightarrow> distinct (map fst (entry_push k v m))"
  by (simp add: entry_push_def distinct_update)

lemma distinct_or_insert [simp]: "distinct (map fst m) \<Longrightarrow> distinct (map fst (or_insert k v m))"
  by (simp add: or_insert_def distinct_update split: option.split)

end
