(* ===== verification/Infra_Cache.thy ===== *)
theory Infra_Cache
  imports Name_Order Ip_Acl Hash_Map
begin

unbundle bit_operations_syntax

text \<open>
  The infrastructure cache of the recursor, \<open>dns/infra_cache.rs\<close>: round-trip times per server, the
  bounded table \<open>Bounded\<close>, and the zone-cut and DNSKEY caches built on it. A \<open>HashMap\<close> is an
  association list with distinct keys; the order in which it is iterated is unspecified, so it is the
  argument \<open>iter\<close> of the operations that iterate. The clock is an argument.
\<close>

section \<open>The code\<close>

abbreviation (input) U32_MAX :: nat where "U32_MAX \<equiv> 4294967295"
abbreviation (input) RTT_MAX_ENTRIES :: nat where "RTT_MAX_ENTRIES \<equiv> 8192"
abbreviation (input) MAX_CUTS :: nat where "MAX_CUTS \<equiv> 16384"
abbreviation (input) MAX_KEYS :: nat where "MAX_KEYS \<equiv> 8192"
abbreviation (input) TTL_CAP :: nat where "TTL_CAP \<equiv> 172800"
abbreviation (input) TTL_FLOOR :: nat where "TTL_FLOOR \<equiv> 60"

definition saturating_u32 :: "nat \<Rightarrow> nat" where
  "saturating_u32 n = min n U32_MAX"

definition record_rtt :: "ip_addr \<Rightarrow> nat \<Rightarrow> (ip_addr \<times> nat) list \<Rightarrow> (ip_addr \<times> nat) list" where
  "record_rtt ip sample_ms m =
     (let m = (if length m \<ge> RTT_MAX_ENTRIES \<and> map_of m ip = None then [] else m) in
      case map_of m ip of
        Some r \<Rightarrow> AList.update ip (saturating_u32 (saturating_u32 (r * 3) + sample_ms) div 4) m
      | None \<Rightarrow> AList.update ip sample_ms m)"

definition rtt_of :: "ip_addr \<Rightarrow> (ip_addr \<times> nat) list \<Rightarrow> nat option" where
  "rtt_of ip m = map_of m ip"

definition key_of :: "name \<Rightarrow> byte list option" where
  "key_of n = map_option lower (to_ascii n)"

definition clamp_ttl :: "nat \<Rightarrow> nat" where
  "clamp_ttl ttl = (if ttl < TTL_FLOOR then TTL_FLOOR else if ttl > TTL_CAP then TTL_CAP else ttl)"

record 'v entry =
  expiry :: nat
  used :: u64
  val :: 'v

record 'v bounded =
  bmap :: "(byte list \<times> 'v entry) list"
  bcap :: nat
  btick :: u64

definition bounded_new :: "nat \<Rightarrow> 'v bounded" where
  "bounded_new cap = \<lparr>bmap = [], bcap = cap, btick = 0\<rparr>"

definition bounded_get :: "byte list \<Rightarrow> nat \<Rightarrow> 'v bounded \<Rightarrow> 'v option \<times> 'v bounded" where
  "bounded_get key now b =
     (let t = btick b + 1; b = b\<lparr>btick := t\<rparr> in
      case map_of (bmap b) key of
        Some e \<Rightarrow>
          if expiry e > now then (Some (val e), b\<lparr>bmap := AList.update key (e\<lparr>used := t\<rparr>) (bmap b)\<rparr>)
          else (None, b\<lparr>bmap := AList.delete key (bmap b)\<rparr>)
      | None \<Rightarrow> (None, b))"

text \<open>The \<open>for\<close> loop of \<open>evict_one\<close> over the sampled entries; it returns the entry to drop.\<close>

fun evict_scan :: "nat \<Rightarrow> (u64 \<times> byte list) option \<Rightarrow> (byte list \<times> 'v entry) list \<Rightarrow> (u64 \<times> byte list) option"
  where
  "evict_scan now lru [] = lru"
| "evict_scan now lru ((k, e) # es) =
     (if expiry e \<le> now then Some (0, k)
      else evict_scan now
        (case lru of None \<Rightarrow> Some (used e, k)
         | Some (u, _) \<Rightarrow> if used e < u then Some (used e, k) else lru) es)"

abbreviation (input) EVICT_SAMPLE :: nat where "EVICT_SAMPLE \<equiv> 16"

definition evict_one ::
    "((byte list \<times> 'v entry) list \<Rightarrow> (byte list \<times> 'v entry) list) \<Rightarrow> nat \<Rightarrow> 'v bounded \<Rightarrow> 'v bounded"
  where
  "evict_one iter now b =
     (case evict_scan now None (take EVICT_SAMPLE (iter (bmap b))) of
        Some (_, k) \<Rightarrow> b\<lparr>bmap := AList.delete k (bmap b)\<rparr>
      | None \<Rightarrow> b)"

definition bounded_insert ::
    "((byte list \<times> 'v entry) list \<Rightarrow> (byte list \<times> 'v entry) list) \<Rightarrow>
       byte list \<Rightarrow> 'v \<Rightarrow> nat \<Rightarrow> nat \<Rightarrow> 'v bounded \<Rightarrow> 'v bounded" where
  "bounded_insert iter key v exp now b =
     (let t = btick b + 1; b = b\<lparr>btick := t\<rparr>;
          b = (if length (bmap b) \<ge> bcap b \<and> map_of (bmap b) key = None then evict_one iter now b else b)
      in b\<lparr>bmap := AList.update key \<lparr>expiry = exp, used = t, val = v\<rparr> (bmap b)\<rparr>)"

definition bounded_remove :: "byte list \<Rightarrow> 'v bounded \<Rightarrow> 'v bounded" where
  "bounded_remove key b = b\<lparr>bmap := AList.delete key (bmap b)\<rparr>"

record infra_cache =
  cuts :: "ip_addr list bounded"
  dkeys :: "byte list list bounded"

definition CACHE :: infra_cache where
  "CACHE = \<lparr>cuts = bounded_new MAX_CUTS, dkeys = bounded_new MAX_KEYS\<rparr>"

text \<open>The \<open>Option\<close> of the public operations is a panic of the name accessors.\<close>

definition zone_cut_learn ::
    "((byte list \<times> ip_addr list entry) list \<Rightarrow> (byte list \<times> ip_addr list entry) list) \<Rightarrow>
       nat \<Rightarrow> name \<Rightarrow> ip_addr list \<Rightarrow> nat \<Rightarrow> infra_cache \<Rightarrow> infra_cache option" where
  "zone_cut_learn iter now zone ns_ips ttl c =
     (if ns_ips = [] \<or> is_root zone then Some c
      else do {
        let exp = saturating_u32 (now + clamp_ttl ttl);
        k \<leftarrow> key_of zone;
        Some (c\<lparr>cuts := bounded_insert iter k ns_ips exp now (cuts c)\<rparr>)
      })"

function zone_cut_loop :: "nat \<Rightarrow> name \<Rightarrow> 'v bounded \<Rightarrow> ((name \<times> 'v) option \<times> 'v bounded) option" where
  "zone_cut_loop now cur g =
     (if is_root cur then Some (None, g)
      else (case key_of cur of
              None \<Rightarrow> None
            | Some k \<Rightarrow>
                (case bounded_get k now g of
                   (Some ips, g') \<Rightarrow> Some (Some (cur, ips), g')
                 | (None, g') \<Rightarrow>
                     (case name_parent cur of
                        None \<Rightarrow> None
                      | Some None \<Rightarrow> Some (None, g')
                      | Some (Some p) \<Rightarrow> zone_cut_loop now p g'))))"
  by pat_completeness auto
termination
  by (relation "measure (\<lambda>(now, cur, g). length (name_wire cur))") (auto simp: name_parent_shorter)

declare zone_cut_loop.simps [simp del]

definition zone_cut_start :: "nat \<Rightarrow> name \<Rightarrow> infra_cache \<Rightarrow> ((name \<times> ip_addr list) option \<times> infra_cache) option"
  where
  "zone_cut_start now qn c =
     map_option (\<lambda>(r, g). (r, c\<lparr>cuts := g\<rparr>)) (zone_cut_loop now qn (cuts c))"

definition zone_cut_forget :: "name \<Rightarrow> infra_cache \<Rightarrow> infra_cache option" where
  "zone_cut_forget zone c = map_option (\<lambda>k. c\<lparr>cuts := bounded_remove k (cuts c)\<rparr>) (key_of zone)"

definition dnskey_learn ::
    "((byte list \<times> byte list list entry) list \<Rightarrow> (byte list \<times> byte list list entry) list) \<Rightarrow>
       nat \<Rightarrow> name \<Rightarrow> byte list list \<Rightarrow> nat \<Rightarrow> infra_cache \<Rightarrow> infra_cache option" where
  "dnskey_learn iter now zone ks ttl c =
     (if ks = [] then Some c
      else do {
        let exp = saturating_u32 (now + clamp_ttl ttl);
        k \<leftarrow> key_of zone;
        Some (c\<lparr>dkeys := bounded_insert iter k ks exp now (dkeys c)\<rparr>)
      })"

definition dnskey_get :: "nat \<Rightarrow> name \<Rightarrow> infra_cache \<Rightarrow> (byte list list option \<times> infra_cache) option" where
  "dnskey_get now zone c = do {
     k \<leftarrow> key_of zone;
     let (r, g) = bounded_get k now (dkeys c);
     Some (r, c\<lparr>dkeys := g\<rparr>)
   }"

section \<open>Keys\<close>

text \<open>A key determines the name up to ASCII case, and depends on nothing else.\<close>

lemma lower_escape_octet: "lower (escape_octet b) = escape_octet (to_ascii_lowercase b)"
proof (cases "65 \<le> b \<and> b \<le> 90")
  case True
  then have "b \<in> {65, 66, 67, 68, 69, 70, 71, 72, 73, 74, 75, 76, 77, 78, 79, 80, 81, 82, 83,
    84, 85, 86, 87, 88, 89, 90}" by (intro upper_cases) auto
  then show ?thesis
    by (elim insertE emptyE; simp add: to_ascii_lowercase_def escape_octet_def)
next
  case False
  have d: "to_ascii_lowercase (of_nat (48 + d)) = of_nat (48 + d)" if "d \<le> 9" for d
    using that by (intro to_ascii_lowercase_small) (simp add: word_le_nat_alt unat_of_nat del: of_nat_add)
  have "unat b div 100 \<le> 9" "unat b div 10 mod 10 \<le> 9" "unat b mod 10 \<le> 9"
    using unat_byte_le [of b] by auto
  then have "lower (dec3 b) = dec3 b" by (simp add: dec3_def d del: of_nat_add)
  with False show ?thesis
    by (auto simp: escape_octet_def to_ascii_lowercase_def)
qed

lemma lower_label_text: "lower (label_text l) = label_text (lower l)"
  by (simp add: label_text_def map_concat lower_escape_octet to_ascii_lowercase_small comp_def)

lemma key_of_valid: "valid_name n \<Longrightarrow> key_of n = to_ascii (name_lower n)"
  by (elim valid_nameE)
    (auto simp: key_of_def name_lower_def lower_wire_of to_ascii_wire_of map_concat comp_def
      lower_label_text to_ascii_lowercase_small)

lemma key_of_Some: "valid_name n \<Longrightarrow> \<exists>k. key_of n = Some k"
  by (simp add: key_of_valid to_ascii_valid valid_name_lower)

lemma key_of_eq_iff:
  assumes "valid_name a" "valid_name b"
  shows "key_of a = key_of b \<longleftrightarrow> eq_ignore_ascii_case a b"
proof
  assume "key_of a = key_of b"
  then have "to_ascii (name_lower a) = to_ascii (name_lower b)" by (simp add: key_of_valid assms)
  then have "name_lower a = name_lower b"
    using from_to_ascii [OF valid_name_lower [OF assms(1)]] from_to_ascii [OF valid_name_lower [OF assms(2)]]
    by auto
  then show "eq_ignore_ascii_case a b" by (simp add: name_lower_def eq_ignore_ascii_case_iff)
next
  assume "eq_ignore_ascii_case a b"
  then show "key_of a = key_of b"
    by (simp add: key_of_valid assms name_lower_def eq_ignore_ascii_case_iff)
qed

section \<open>The bounded table\<close>

text \<open>
  What a user of a cache with expiry relies on. \<open>look\<close> is the entry held for a key, with its expiry;
  an insertion may drop other entries, a lookup only drops or touches the one it was asked for.
\<close>

locale ttl_cache =
  fixes look :: "'c \<Rightarrow> 'k \<Rightarrow> ('v \<times> nat) option"
    and get :: "'k \<Rightarrow> nat \<Rightarrow> 'c \<Rightarrow> 'v option \<times> 'c"
    and put :: "'k \<Rightarrow> 'v \<Rightarrow> nat \<Rightarrow> nat \<Rightarrow> 'c \<Rightarrow> 'c"
    and del :: "'k \<Rightarrow> 'c \<Rightarrow> 'c"
    and cinv :: "'c \<Rightarrow> bool"
  assumes get_val: "cinv c \<Longrightarrow>
      fst (get k now c) = (case look c k of Some (v, e) \<Rightarrow> if now < e then Some v else None | None \<Rightarrow> None)"
    and get_look: "cinv c \<Longrightarrow>
      look (snd (get k now c)) = (if fst (get k now c) = None then (look c)(k := None) else look c)"
    and put_new: "cinv c \<Longrightarrow> look (put k v e now c) k = Some (v, e)"
    and put_old: "cinv c \<Longrightarrow> k' \<noteq> k \<Longrightarrow> look (put k v e now c) k' = Some r \<Longrightarrow> look c k' = Some r"
    and del_look: "cinv c \<Longrightarrow> look (del k c) = (look c)(k := None)"
    and get_inv: "cinv c \<Longrightarrow> cinv (snd (get k now c))"
    and put_inv: "cinv c \<Longrightarrow> cinv (put k v e now c)"
    and del_inv: "cinv c \<Longrightarrow> cinv (del k c)"

text \<open>A history of cache operations, its effect on a cache, and on a store without bound.\<close>

datatype ('k, 'v) cache_op = Get 'k nat | Put 'k 'v nat nat | Del 'k

definition cache_step ::
    "('k \<Rightarrow> nat \<Rightarrow> 'c \<Rightarrow> 'v option \<times> 'c) \<Rightarrow> ('k \<Rightarrow> 'v \<Rightarrow> nat \<Rightarrow> nat \<Rightarrow> 'c \<Rightarrow> 'c) \<Rightarrow> ('k \<Rightarrow> 'c \<Rightarrow> 'c) \<Rightarrow>
       ('k, 'v) cache_op \<Rightarrow> 'c \<Rightarrow> 'c" where
  "cache_step get put del op c =
     (case op of Get k now \<Rightarrow> snd (get k now c) | Put k v e now \<Rightarrow> put k v e now c | Del k \<Rightarrow> del k c)"

fun ideal_step :: "('k, 'v) cache_op \<Rightarrow> ('k \<rightharpoonup> 'v \<times> nat) \<Rightarrow> ('k \<rightharpoonup> 'v \<times> nat)" where
  "ideal_step (Get k now) m =
     (case m k of Some (v, e) \<Rightarrow> if now < e then m else m(k := None) | None \<Rightarrow> m)"
| "ideal_step (Put k v e now) m = m(k \<mapsto> (v, e))"
| "ideal_step (Del k) m = m(k := None)"

lemma map_leI: "(\<And>x r. f x = Some r \<Longrightarrow> g x = Some r) \<Longrightarrow> f \<subseteq>\<^sub>m g"
  by (force simp: map_le_def dom_def)

context ttl_cache
begin

lemma get_sound: "cinv c \<Longrightarrow> fst (get k now c) = Some v \<longleftrightarrow> (\<exists>e. look c k = Some (v, e) \<and> now < e)"
  by (auto simp: get_val split: option.splits if_splits)

lemma get_None: "cinv c \<Longrightarrow> fst (get k now c) = None \<Longrightarrow> look c k = Some (v, e) \<Longrightarrow> e \<le> now"
  by (auto simp: get_val split: option.splits if_splits)

lemma step_inv: "cinv c \<Longrightarrow> cinv (cache_step get put del op c)"
  by (auto simp: cache_step_def get_inv put_inv del_inv split: cache_op.split)

lemma step_refines:
  assumes "cinv c" "look c \<subseteq>\<^sub>m m"
  shows "look (cache_step get put del op c) \<subseteq>\<^sub>m ideal_step op m"
proof (cases op)
  case (Get k now)
  have "look (snd (get k now c)) \<subseteq>\<^sub>m ideal_step (Get k now) m"
    using assms(2) get_val [OF assms(1), of k now]
    by (auto simp: get_look [OF assms(1)] map_le_def dom_def split: option.splits if_splits)
  then show ?thesis by (simp add: Get cache_step_def)
next
  case (Put k v e now)
  have "look (put k v e now c) x = Some r \<Longrightarrow> (m(k \<mapsto> (v, e))) x = Some r" for x r
    using assms put_new [OF assms(1)] put_old [OF assms(1)]
    by (cases "x = k") (auto simp: map_le_def dom_def)
  then show ?thesis by (simp add: Put cache_step_def map_leI)
next
  case (Del k)
  then show ?thesis using assms by (auto simp: cache_step_def del_look map_le_def)
qed

lemma run_refines:
  "cinv c \<Longrightarrow> look c \<subseteq>\<^sub>m m \<Longrightarrow>
     cinv (fold (cache_step get put del) ops c) \<and>
     look (fold (cache_step get put del) ops c) \<subseteq>\<^sub>m fold ideal_step ops m"
proof (induction ops arbitrary: c m)
  case (Cons op ops)
  from Cons.IH [OF step_inv [OF Cons.prems(1)] step_refines [OF Cons.prems]] show ?case by simp
qed simp

end

text \<open>The table: distinct keys, never more entries than its capacity.\<close>

definition bounded_inv :: "'v bounded \<Rightarrow> bool" where
  "bounded_inv b \<longleftrightarrow> distinct (map fst (bmap b)) \<and> length (bmap b) \<le> bcap b \<and> 0 < bcap b"

definition bounded_look :: "'v bounded \<Rightarrow> byte list \<Rightarrow> ('v \<times> nat) option" where
  "bounded_look b k = map_option (\<lambda>e. (val e, expiry e)) (map_of (bmap b) k)"

lemma length_delete_key:
  assumes "k \<in> fst ` set al"
  shows "length (AList.delete k al) < length al"
proof -
  from assms obtain x where "x \<in> set al" "\<not> (\<lambda>(k', _). k \<noteq> k') x" by auto
  then show ?thesis unfolding AList.delete_eq by (rule length_filter_less)
qed

lemma length_update_key:
  "length (AList.update k v al) = (if map_of al k = None then Suc (length al) else length al)"
proof -
  have "length (AList.update k v al) = length (map fst (AList.update k v al))" by simp
  then show ?thesis by (simp add: update_keys map_of_eq_None_iff)
qed

lemma evict_scan_cases:
  "evict_scan now lru es = Some (u, k) \<Longrightarrow>
     (\<exists>e. (k, e) \<in> set es \<and> expiry e \<le> now) \<or>
     ((\<forall>(k', e) \<in> set es. now < expiry e) \<and> (\<forall>(k', e) \<in> set es. u \<le> used e) \<and>
      (\<forall>u' k'. lru = Some (u', k') \<longrightarrow> u \<le> u') \<and> (lru = Some (u, k) \<or> (\<exists>e. (k, e) \<in> set es \<and> used e = u)))"
proof (induction now lru es rule: evict_scan.induct)
  case (2 now lru k0 e0 es)
  show ?case
  proof (cases "expiry e0 \<le> now")
    case True
    with "2.prems" show ?thesis by auto
  next
    case False
    from "2.IH" [OF False] "2.prems" False show ?thesis
      by (auto simp: split: option.splits if_splits prod.splits)
  qed
qed auto

lemma evict_scan_Some: "es \<noteq> [] \<or> lru \<noteq> None \<Longrightarrow> \<exists>u k. evict_scan now lru es = Some (u, k)"
  by (induction now lru es rule: evict_scan.induct) (auto split: option.splits if_splits)

text \<open>
  Eviction drops one entry: an expired one, or the least recently used of the sample when no sampled
  entry has expired.
\<close>

lemma evict_one_drops:
  assumes "iterates iter" "bmap b \<noteq> []"
  obtains k e where "(k, e) \<in> set (take EVICT_SAMPLE (iter (bmap b)))"
    "evict_one iter now b = b\<lparr>bmap := AList.delete k (bmap b)\<rparr>"
    "expiry e \<le> now \<or> (\<forall>(k', e') \<in> set (take EVICT_SAMPLE (iter (bmap b))). now < expiry e' \<and> used e \<le> used e')"
proof -
  let ?es = "take EVICT_SAMPLE (iter (bmap b))"
  have "?es \<noteq> []" using assms iterates_length [OF assms(1), of "bmap b"] by auto
  then obtain u k where r: "evict_scan now None ?es = Some (u, k)" using evict_scan_Some by blast
  then have "evict_one iter now b = b\<lparr>bmap := AList.delete k (bmap b)\<rparr>" by (simp add: evict_one_def)
  with evict_scan_cases [OF r] show thesis by (elim disjE exE conjE) (auto intro: that)
qed

lemma evict_one_inv:
  assumes "iterates iter" "bounded_inv b"
  shows "bounded_inv (evict_one iter now b)" "length (bmap (evict_one iter now b)) < bcap b"
    "bcap (evict_one iter now b) = bcap b" "btick (evict_one iter now b) = btick b"
    "bounded_look (evict_one iter now b) k = Some r \<Longrightarrow> bounded_look b k = Some r"
proof -
  have "length (bmap (evict_one iter now b)) < bcap b \<and> bounded_inv (evict_one iter now b) \<and>
    bcap (evict_one iter now b) = bcap b \<and> btick (evict_one iter now b) = btick b \<and>
    (bounded_look (evict_one iter now b) k = Some r \<longrightarrow> bounded_look b k = Some r)"
  proof (cases "bmap b = []")
    case True
    then have "evict_one iter now b = b"
      using iterates_length [OF assms(1), of "bmap b"] by (simp add: evict_one_def)
    with True assms(2) show ?thesis by (simp add: bounded_inv_def)
  next
    case False
    with assms(1) obtain k' e where k: "(k', e) \<in> set (take EVICT_SAMPLE (iter (bmap b)))"
      and ev: "evict_one iter now b = b\<lparr>bmap := AList.delete k' (bmap b)\<rparr>" by (rule evict_one_drops)
    have "k' \<in> fst ` set (bmap b)"
      using in_set_takeD [OF k] iterates_set [OF assms(1), of "bmap b"] by force
    then have "length (AList.delete k' (bmap b)) < length (bmap b)" by (rule length_delete_key)
    with assms(2) show ?thesis
      by (auto simp: ev bounded_inv_def distinct_delete bounded_look_def delete_conv' split: if_splits)
  qed
  then show "bounded_inv (evict_one iter now b)" "length (bmap (evict_one iter now b)) < bcap b"
    "bcap (evict_one iter now b) = bcap b" "btick (evict_one iter now b) = btick b"
    "bounded_look (evict_one iter now b) k = Some r \<Longrightarrow> bounded_look b k = Some r" by auto
qed

lemma bounded_look_update:
  "bounded_look (b\<lparr>bmap := AList.update k e m\<rparr>) = (bounded_look (b\<lparr>bmap := m\<rparr>))(k \<mapsto> (val e, expiry e))"
  by (auto simp: bounded_look_def update_conv')

lemma bounded_look_delete:
  "bounded_look (b\<lparr>bmap := AList.delete k m\<rparr>) = (bounded_look (b\<lparr>bmap := m\<rparr>))(k := None)"
  by (auto simp: bounded_look_def delete_conv')

lemma bounded_get_spec:
  assumes "bounded_inv b"
  shows "fst (bounded_get k now b) =
      (case bounded_look b k of Some (v, e) \<Rightarrow> if now < e then Some v else None | None \<Rightarrow> None)"
    and "bounded_look (snd (bounded_get k now b)) =
      (if fst (bounded_get k now b) = None then (bounded_look b)(k := None) else bounded_look b)"
    and "bounded_inv (snd (bounded_get k now b))"
  using assms length_delete_le [of k "bmap b"]
  by (auto simp: bounded_get_def bounded_look_def Let_def update_conv' delete_conv' bounded_inv_def
      distinct_update distinct_delete length_update_key fun_eq_iff split: option.splits)

lemma bounded_insert_spec:
  assumes "iterates iter" "bounded_inv b"
  shows "bounded_look (bounded_insert iter k v e now b) k = Some (v, e)"
    and "k' \<noteq> k \<Longrightarrow> bounded_look (bounded_insert iter k v e now b) k' = Some r \<Longrightarrow> bounded_look b k' = Some r"
    and "bounded_inv (bounded_insert iter k v e now b)"
proof -
  let ?b = "b\<lparr>btick := btick b + 1\<rparr>"
  define b1 where "b1 = (if length (bmap ?b) \<ge> bcap ?b \<and> map_of (bmap ?b) k = None
    then evict_one iter now ?b else ?b)"
  have b: "bounded_inv ?b" "bounded_look ?b = bounded_look b"
    using assms(2) by (auto simp: bounded_inv_def bounded_look_def)
  note ev = evict_one_inv [OF assms(1) b(1)]
  have b1: "bounded_inv b1" "length (bmap b1) < bcap b1 \<or> map_of (bmap b1) k \<noteq> None"
    using ev(1-3) [of now] b(1) by (simp_all add: b1_def not_le)
  have l1: "bounded_look b1 k' = Some r \<Longrightarrow> bounded_look b k' = Some r" for k' r
    using ev(5) [of now k' r] b(2) by (simp add: b1_def split: if_splits)
  have ins: "bounded_insert iter k v e now b =
    b1\<lparr>bmap := AList.update k \<lparr>expiry = e, used = btick b + 1, val = v\<rparr> (bmap b1)\<rparr>"
    by (simp add: bounded_insert_def b1_def Let_def)
  show "bounded_look (bounded_insert iter k v e now b) k = Some (v, e)"
    by (simp add: ins bounded_look_update)
  show "k' \<noteq> k \<Longrightarrow> bounded_look (bounded_insert iter k v e now b) k' = Some r \<Longrightarrow> bounded_look b k' = Some r"
    using l1 by (simp add: ins bounded_look_update)
  show "bounded_inv (bounded_insert iter k v e now b)"
    using b1 by (auto simp: ins bounded_inv_def distinct_update length_update_key)
qed

lemma bounded_remove_spec:
  assumes "bounded_inv b"
  shows "bounded_look (bounded_remove k b) = (bounded_look b)(k := None)" "bounded_inv (bounded_remove k b)"
  using assms length_delete_le [of k "bmap b"]
  by (simp_all add: bounded_remove_def bounded_look_delete bounded_inv_def distinct_delete)

lemma bounded_cache:
  assumes "iterates iter"
  shows "ttl_cache bounded_look bounded_get (bounded_insert iter) bounded_remove bounded_inv"
  by (unfold_locales; (rule bounded_get_spec bounded_remove_spec bounded_insert_spec(1,3) [OF assms];
      assumption)?; erule (1) bounded_insert_spec(2) [OF assms])

interpretation bcache: ttl_cache bounded_look bounded_get "bounded_insert (\<lambda>xs. xs)" bounded_remove bounded_inv
  by (rule bounded_cache [OF iterates_id])

lemma bounded_new_inv: "0 < cap \<Longrightarrow> bounded_inv (bounded_new cap)" "bounded_look (bounded_new cap) = Map.empty"
  by (auto simp: bounded_new_def bounded_inv_def bounded_look_def)

lemma bounded_step_cap:
  "iterates iter \<Longrightarrow> bounded_inv b \<Longrightarrow>
     bcap (cache_step bounded_get (bounded_insert iter) bounded_remove op b) = bcap b"
  by (auto simp: cache_step_def bounded_get_def bounded_insert_def bounded_remove_def evict_one_def Let_def
      split: cache_op.split option.split)

lemma bounded_run_cap:
  "iterates iter \<Longrightarrow> bounded_inv b \<Longrightarrow>
     bcap (fold (cache_step bounded_get (bounded_insert iter) bounded_remove) ops b) = bcap b"
proof (induction ops arbitrary: b)
  case (Cons op ops)
  then show ?case
    using ttl_cache.step_inv [OF bounded_cache [OF Cons.prems(1)] Cons.prems(2), of op]
    by (simp add: bounded_step_cap)
qed simp

text \<open>
  C16. The bounded table refines an unbounded store. After any history of lookups, insertions and
  removals, and whatever order the table is iterated in: it holds at most \<open>cap\<close> entries under distinct
  keys; a value it returns is the one last stored under that key and has not expired; and a value
  just stored is returned until it expires.
\<close>

theorem bounded_refines_store:
  fixes ops :: "(byte list, 'v) cache_op list"
  assumes "iterates iter" "0 < cap"
  defines "b \<equiv> fold (cache_step bounded_get (bounded_insert iter) bounded_remove) ops (bounded_new cap)"
  shows "length (bmap b) \<le> cap \<and> distinct (map fst (bmap b)) \<and>
    (\<forall>k now v. fst (bounded_get k now b) = Some v \<longrightarrow>
       (\<exists>e. fold ideal_step ops Map.empty k = Some (v, e) \<and> now < e)) \<and>
    (\<forall>k v e now now'. now' < e \<longrightarrow> fst (bounded_get k now' (bounded_insert iter k v e now b)) = Some v)"
proof -
  note c = bounded_cache [OF assms(1)]
  have b: "bounded_inv b" "bounded_look b \<subseteq>\<^sub>m fold ideal_step ops Map.empty"
    using ttl_cache.run_refines [OF c bounded_new_inv(1) [OF assms(2)], of Map.empty ops]
    by (simp_all add: b_def bounded_new_inv(2))
  have "bcap b = cap"
    unfolding b_def bounded_run_cap [OF assms(1) bounded_new_inv(1) [OF assms(2)]] by (simp add: bounded_new_def)
  moreover have "\<exists>e. fold ideal_step ops Map.empty k = Some (v, e) \<and> now < e"
    if "fst (bounded_get k now b) = Some v" for k now v
    using that b by (auto simp: ttl_cache.get_sound [OF c] map_le_def dom_def)
  moreover have "fst (bounded_get k now' (bounded_insert iter k v e now b)) = Some v" if "now' < e" for k v e now now'
    using that b(1) by (simp add: bounded_get_spec(1) bounded_insert_spec [OF assms(1)])
  ultimately show ?thesis using b(1) by (simp add: bounded_inv_def)
qed

theorem bounded_refines_store_witness:
  "fst (bounded_get [1] 5 (bounded_insert rev [1] (7 :: nat) 9 4
     (fold (cache_step bounded_get (bounded_insert rev) bounded_remove) [Put [2] 3 100 0, Get [2] 200] (bounded_new 1))))
   = Some 7"
proof -
  have "iterates rev" by (simp add: iterates_def)
  from bounded_refines_store [OF this, of 1 "[Put [2] (3 :: nat) 100 0, Get [2] 200]"] show ?thesis by simp
qed

section \<open>Zone cuts\<close>

definition cached_cut :: "nat \<Rightarrow> 'v bounded \<Rightarrow> name \<Rightarrow> 'v option" where
  "cached_cut now g n =
     (case key_of n of None \<Rightarrow> None | Some k \<Rightarrow> fst (bounded_get k now g))"

lemma bounded_get_again:
  "bounded_inv g \<Longrightarrow> fst (bounded_get k now (snd (bounded_get k' now g))) = fst (bounded_get k now g)"
  by (simp add: bounded_get_spec split: option.splits if_splits)

lemma cached_cut_again:
  "bounded_inv g \<Longrightarrow> cached_cut now (snd (bounded_get k now g)) = cached_cut now g"
  by (simp add: cached_cut_def bounded_get_again fun_eq_iff split: option.split)

definition deepest_cut :: "nat \<Rightarrow> 'v bounded \<Rightarrow> byte list list \<Rightarrow> (name \<times> 'v) option \<Rightarrow> bool" where
  "deepest_cut now g ls r \<longleftrightarrow>
     (case r of
        None \<Rightarrow> \<forall>j < length ls. cached_cut now g (suffix_name ls j) = None
      | Some (z, ips) \<Rightarrow> \<exists>k < length ls. z = suffix_name ls k \<and> cached_cut now g z = Some ips \<and>
          (\<forall>j < k. cached_cut now g (suffix_name ls j) = None))"

lemma deepest_cut_Cons:
  "cached_cut now g (suffix_name (l # ls) 0) = None \<Longrightarrow> deepest_cut now g ls r \<Longrightarrow> deepest_cut now g (l # ls) r"
  by (fastforce simp: deepest_cut_def suffix_name_def All_less_Suc2 Ex_less_Suc2 split: option.splits)

lemma zone_cut_loop_deepest:
  assumes "list_all label_ok ls" "bounded_inv g"
  shows "\<exists>r g'. zone_cut_loop now (Name (wire_of ls)) g = Some (r, g') \<and> deepest_cut now g ls r \<and>
    bounded_inv g' \<and> cached_cut now g' = cached_cut now g"
  using assms
proof (induction ls arbitrary: g)
  case Nil
  then show ?case by (simp add: zone_cut_loop.simps deepest_cut_def del: wire_of.simps)
next
  case (Cons l ls)
  let ?n = "Name (wire_of (l # ls))"
  obtain k where k: "key_of ?n = Some k"
    using Cons.prems(1) by (auto simp: key_of_def to_ascii_wire_of simp del: wire_of.simps)
  obtain r g1 where g1: "bounded_get k now g = (r, g1)" by force
  then have inv1: "bounded_inv g1" and same: "cached_cut now g1 = cached_cut now g"
    using Cons.prems(2) bounded_get_spec(3) [of g k now] cached_cut_again [of g now k] by auto
  show ?case
  proof (cases r)
    case (Some ips)
    then have "zone_cut_loop now ?n g = Some (Some (?n, ips), g1)"
      by (subst zone_cut_loop.simps) (simp add: k g1 del: wire_of.simps)
    moreover have "deepest_cut now g (l # ls) (Some (?n, ips))"
      using Some k g1 by (auto simp: deepest_cut_def suffix_name_def cached_cut_def simp del: wire_of.simps)
    ultimately show ?thesis using inv1 same by blast
  next
    case None
    then have z: "zone_cut_loop now ?n g = zone_cut_loop now (Name (wire_of ls)) g1"
      using Cons.prems(1) by (subst zone_cut_loop.simps) (simp add: k g1 del: wire_of.simps)
    have "cached_cut now g (suffix_name (l # ls) 0) = None"
      using None k g1 by (simp add: suffix_name_def cached_cut_def del: wire_of.simps)
    moreover have "deepest_cut now g1 ls = deepest_cut now g ls" unfolding deepest_cut_def same ..
    ultimately show ?thesis
      using Cons.IH [OF _ inv1] Cons.prems(1) same by (auto simp: z intro: deepest_cut_Cons simp del: wire_of.simps)
  qed
qed

text \<open>
  C25. Where a descent starts: \<open>zone_cut_start\<close> returns, without a panic, the deepest ancestor of the
  query name (the name itself included, the root excluded) that has an unexpired cut, with the
  addresses cached for it, or nothing exactly when no ancestor has one. Looking does not lose any
  unexpired cut.
\<close>

theorem zone_cut_start_deepest:
  assumes "valid_name qn" "bounded_inv (cuts c)"
  shows "\<exists>r c'. zone_cut_start now qn c = Some (r, c') \<and> deepest_cut now (cuts c) (labels qn) r \<and>
    bounded_inv (cuts c') \<and> cached_cut now (cuts c') = cached_cut now (cuts c) \<and> dkeys c' = dkeys c"
proof -
  from assms(1) obtain ls where n: "qn = Name (wire_of ls)" "list_all label_ok ls" by (rule valid_nameE)
  from zone_cut_loop_deepest [OF n(2) assms(2), of now] obtain r g where
    "zone_cut_loop now qn (cuts c) = Some (r, g)" "deepest_cut now (cuts c) ls r" "bounded_inv g"
    "cached_cut now g = cached_cut now (cuts c)" unfolding n by blast
  then show ?thesis by (simp add: zone_cut_start_def n)
qed

lemma CACHE_inv: "bounded_inv (cuts CACHE)" "bounded_inv (dkeys CACHE)"
  by (simp_all add: CACHE_def bounded_new_inv)

theorem zone_cut_start_deepest_witness:
  "\<exists>r c'. zone_cut_start 7 (Name [1, 97, 0]) CACHE = Some (r, c') \<and>
     deepest_cut 7 (cuts CACHE) (labels (Name [1, 97, 0])) r"
proof -
  have "valid_name (Name [1, 97, 0])" by code_simp
  from zone_cut_start_deepest [OF this CACHE_inv(1)] show ?thesis by blast
qed

lemma clamp_ttl_bounds: "TTL_FLOOR \<le> clamp_ttl ttl" "clamp_ttl ttl \<le> TTL_CAP"
  by (auto simp: clamp_ttl_def)

lemma cached_cut_case:
  "eq_ignore_ascii_case a b \<Longrightarrow> valid_name a \<Longrightarrow> valid_name b \<Longrightarrow> cached_cut now g a = cached_cut now g b"
  unfolding cached_cut_def by (simp only: key_of_eq_iff [THEN iffD2])

lemma deepest_cut_above:
  assumes "deepest_cut now g ls r" "k < length ls" "cached_cut now g (suffix_name ls k) = Some ips"
  obtains j ips' where "j \<le> k" "r = Some (suffix_name ls j, ips')" "cached_cut now g (suffix_name ls j) = Some ips'"
proof -
  from assms obtain z ips' j where r: "r = Some (z, ips')" "z = suffix_name ls j" "cached_cut now g z = Some ips'"
    "\<forall>i < j. cached_cut now g (suffix_name ls i) = None"
    by (cases r) (auto simp: deepest_cut_def)
  then have "j \<le> k" using assms(3) by (metis not_le option.distinct(1))
  with r that show thesis by blast
qed

text \<open>
  What may happen to a cut: descents before a deadline, which drop only expired cuts, and the learning and
  forgetting of other zones, the learning while the table is not full.
\<close>

inductive cut_history :: "name \<Rightarrow> nat \<Rightarrow> infra_cache \<Rightarrow> infra_cache \<Rightarrow> bool" for zone deadline c where
  none: "cut_history zone deadline c c"
| start: "cut_history zone deadline c c1 \<Longrightarrow> t < deadline \<Longrightarrow> zone_cut_start t q c1 = Some (r, c2) \<Longrightarrow> cut_history zone deadline c c2"
| learn: "cut_history zone deadline c c1 \<Longrightarrow> iterates iter \<Longrightarrow> valid_name z \<Longrightarrow> \<not> eq_ignore_ascii_case z zone \<Longrightarrow>
    length (bmap (cuts c1)) < bcap (cuts c1) \<Longrightarrow> zone_cut_learn iter t z ips ttl c1 = Some c2 \<Longrightarrow> cut_history zone deadline c c2"
| forget: "cut_history zone deadline c c1 \<Longrightarrow> valid_name z \<Longrightarrow> \<not> eq_ignore_ascii_case z zone \<Longrightarrow>
    zone_cut_forget z c1 = Some c2 \<Longrightarrow> cut_history zone deadline c c2"

lemma bounded_get_keeps:
  "bounded_inv g \<Longrightarrow> bounded_look g k = Some (v, e) \<Longrightarrow> t < e \<Longrightarrow> bounded_look (snd (bounded_get k' t g)) k = Some (v, e)"
  by (auto simp: bounded_get_spec(2) bounded_get_spec(1) split: option.splits if_splits)

lemma zone_cut_loop_keeps:
  "zone_cut_loop t n g = Some (r, g') \<Longrightarrow> bounded_inv g \<Longrightarrow> bounded_look g k = Some (v, e) \<Longrightarrow> t < e \<Longrightarrow>
     bounded_inv g' \<and> bounded_look g' k = Some (v, e)"
proof (induction t n g arbitrary: r g' rule: zone_cut_loop.induct)
  case (1 t cur g)
  show ?case
  proof (cases "is_root cur")
    case True
    with 1 show ?thesis by (simp add: zone_cut_loop.simps)
  next
    case False
    then obtain k' where k': "key_of cur = Some k'" using 1(2) by (auto simp: zone_cut_loop.simps split: option.splits)
    obtain x g1 where g1: "bounded_get k' t g = (x, g1)" by force
    have keep: "bounded_inv g1" "bounded_look g1 k = Some (v, e)"
      using bounded_get_spec(3) [OF 1(3), of k' t] bounded_get_keeps [OF 1(3-5), of k'] g1 by simp_all
    show ?thesis using 1(1) [OF False k' g1 [symmetric]] 1(2,5) keep False k' g1
      by (auto simp: zone_cut_loop.simps [of t cur] split: option.splits)
  qed
qed

lemma cut_history_keeps:
  assumes "cut_history zone e c c2" "valid_name zone" "key_of zone = Some k"
    and "bounded_inv (cuts c)" "bounded_look (cuts c) k = Some (v, e)"
  shows "bounded_inv (cuts c2) \<and> bounded_look (cuts c2) k = Some (v, e)"
  using assms
proof induction
  case (start c1 t q r c2)
  then obtain g where "zone_cut_loop t q (cuts c1) = Some (r, g)" "c2 = c1\<lparr>cuts := g\<rparr>" by (auto simp: zone_cut_start_def)
  with zone_cut_loop_keeps [of t q "cuts c1" r g k v e] start show ?case by simp
next
  case (learn c1 iter z t ips ttl c2)
  obtain k' where k': "key_of z = Some k'" using key_of_Some [OF learn(3)] by blast
  then have "k' \<noteq> k" using key_of_eq_iff [OF learn(3,8)] learn(4,9) by auto
  then have "bounded_look (bounded_insert iter k' ips x t (cuts c1)) k = Some (v, e)" for x
    using learn by (simp add: bounded_insert_def Let_def bounded_look_def update_conv')
  then show ?case using learn k' bounded_insert_spec(3) [OF learn(2)] by (auto simp: zone_cut_learn_def Let_def split: if_splits)
next
  case (forget c1 z c2)
  obtain k' where k': "key_of z = Some k'" using key_of_Some [OF forget(2)] by blast
  then have "k' \<noteq> k" using key_of_eq_iff [OF forget(2,6)] forget(3,7) by auto
  moreover have "bounded_inv (bounded_remove k' (cuts c1))"
    using forget length_delete_le [of k' "bmap (cuts c1)"] by (auto simp: bounded_inv_def bounded_remove_def distinct_delete)
  ultimately show ?case using forget k' by (auto simp: zone_cut_forget_def bounded_remove_def bounded_look_delete)
qed simp

lemma held_cut_used:
  assumes "valid_name zone" "valid_name qn" "bounded_inv (cuts c)" "key_of zone = Some k" "bounded_look (cuts c) k = Some (ips, e)"
    and "\<not> is_root zone" "is_in_zone qn zone = Some True" "now < e"
  shows "\<exists>c' z ips'. zone_cut_start now qn c = Some (Some (z, ips'), c') \<and>
    is_in_zone z zone = Some True \<and> (eq_ignore_ascii_case z zone \<longrightarrow> ips' = ips)"
proof -
  obtain ls where n: "qn = Name (wire_of ls)" and ls: "list_all label_ok ls" using assms(2) by (rule valid_nameE)
  obtain zs where z: "zone = Name (wire_of zs)" and zs: "list_all label_ok zs" using assms(1) by (rule valid_nameE)
  have cut: "cached_cut now (cuts c) zone = Some ips"
    using assms(3-5,8) by (simp add: cached_cut_def bounded_get_spec(1))
  from assms(7) obtain k where k: "k \<le> length ls" "map lower (drop k ls) = map lower zs"
    unfolding n z is_in_zone_labels [OF ls zs] by auto
  then have "k < length ls" using assms(6) z by (cases "k = length ls") (auto simp del: wire_of.simps)
  have eqk: "eq_ignore_ascii_case (suffix_name ls k) zone"
    using k(2) ls zs unfolding z suffix_name_def
    by (subst eq_ignore_ascii_case_labels) (auto simp: list_all_iff dest: in_set_dropD)
  note vs = valid_suffix [OF assms(2) [unfolded n] ls]
  obtain r c'' where st: "zone_cut_start now qn c = Some (r, c'')" "deepest_cut now (cuts c) ls r"
    using zone_cut_loop_deepest [OF ls assms(3), of now] unfolding zone_cut_start_def n by auto
  have "cached_cut now (cuts c) (suffix_name ls k) = Some ips"
    using cut by (simp add: cached_cut_case [OF eqk vs assms(1)])
  then obtain j ips' where j: "j \<le> k" "r = Some (suffix_name ls j, ips')" "cached_cut now (cuts c) (suffix_name ls j) = Some ips'"
    by (rule deepest_cut_above [OF st(2) \<open>k < length ls\<close>])
  have ok: "list_all label_ok (drop j ls)" using ls by (auto simp: list_all_iff dest: in_set_dropD)
  have "k - j \<le> length (drop j ls) \<and> map lower (drop (k - j) (drop j ls)) = map lower zs" using j(1) k by simp
  then have "is_in_zone (suffix_name ls j) zone = Some True"
    unfolding suffix_name_def z is_in_zone_labels [OF ok zs] option.inject by blast
  moreover have "ips' = ips" if "eq_ignore_ascii_case (suffix_name ls j) zone"
    using cut j(3) by (simp add: cached_cut_case [OF that vs assms(1)])
  ultimately show ?thesis using st(1) j(2) by (intro exI conjI) auto
qed

text \<open>
  C26. A learned cut is used: once the addresses of a zone have been learned at a time whose sum with the
  (clamped) time to live fits 32 bits, and whatever descents before they expire, learning of other zones while
  the table is not full and forgetting of other zones come after, every descent before they expire for a name
  in that zone starts at that zone or at a deeper one, and with the learned addresses when it starts at that zone
  itself. (A full table may evict the cut, and forgetting the zone removes it.)
\<close>

theorem learned_cut_used:
  assumes "valid_name zone" "valid_name qn" "iterates iter" "bounded_inv (cuts c)"
    and "ips \<noteq> []" "\<not> is_root zone" "is_in_zone qn zone = Some True"
    and "now + clamp_ttl ttl \<le> U32_MAX" "now' < now + clamp_ttl ttl"
  shows "\<exists>c'. zone_cut_learn iter now zone ips ttl c = Some c' \<and>
    (\<forall>c2. cut_history zone (now + clamp_ttl ttl) c' c2 \<longrightarrow>
       (\<exists>c'' z ips'. zone_cut_start now' qn c2 = Some (Some (z, ips'), c'') \<and>
          is_in_zone z zone = Some True \<and> (eq_ignore_ascii_case z zone \<longrightarrow> ips' = ips)))"
proof -
  obtain k where k: "key_of zone = Some k" using key_of_Some [OF assms(1)] by blast
  define c' where "c' = c\<lparr>cuts := bounded_insert iter k ips (now + clamp_ttl ttl) now (cuts c)\<rparr>"
  have l: "zone_cut_learn iter now zone ips ttl c = Some c'"
    using k assms(5,6,8) by (simp add: zone_cut_learn_def saturating_u32_def c'_def)
  have h: "bounded_inv (cuts c')" "bounded_look (cuts c') k = Some (ips, now + clamp_ttl ttl)"
    using bounded_insert_spec [OF assms(3,4)] by (simp_all add: c'_def)
  show ?thesis
    using l cut_history_keeps [OF _ assms(1) k h] held_cut_used [OF assms(1,2) _ k _ assms(6,7,9)] by blast
qed

theorem learned_cut_used_witness:
  "\<exists>c' c2 c'' z ips'. zone_cut_learn rev 0 (Name [1, 97, 0]) [V4 1] 60 CACHE = Some c' \<and>
     zone_cut_forget (Name [1, 99, 0]) c' = Some c2 \<and>
     zone_cut_start 59 (Name [1, 98, 1, 65, 0]) c2 = Some (Some (z, ips'), c'') \<and>
     is_in_zone z (Name [1, 97, 0]) = Some True"
proof -
  have v: "valid_name (Name [1, 97, 0])" "valid_name (Name [1, 98, 1, 65, 0])" "\<not> is_root (Name [1, 97, 0])"
    "is_in_zone (Name [1, 98, 1, 65, 0]) (Name [1, 97, 0]) = Some True" by code_simp+
  have f: "valid_name (Name [1, 99, 0])" "\<not> eq_ignore_ascii_case (Name [1, 99, 0]) (Name [1, 97, 0])"
    "key_of (Name [1, 99, 0]) = Some [99, 46]" by code_simp+
  have i: "iterates rev" by (simp add: iterates_def)
  obtain c' where c': "zone_cut_learn rev 0 (Name [1, 97, 0]) [V4 1] 60 CACHE = Some c'"
    "\<forall>c2. cut_history (Name [1, 97, 0]) 60 c' c2 \<longrightarrow>
       (\<exists>c'' z ips'. zone_cut_start 59 (Name [1, 98, 1, 65, 0]) c2 = Some (Some (z, ips'), c'') \<and>
          is_in_zone z (Name [1, 97, 0]) = Some True)"
  proof -
    have t: "0 + clamp_ttl 60 = 60" by (simp add: clamp_ttl_def)
    show thesis using learned_cut_used [OF v(1,2) i CACHE_inv(1) _ v(3,4), of "[V4 1]" 0 60 59] that unfolding t by fastforce
  qed
  obtain c2 where c2: "zone_cut_forget (Name [1, 99, 0]) c' = Some c2" using f(3) by (simp add: zone_cut_forget_def)
  have "cut_history (Name [1, 97, 0]) 60 c' c2" by (rule cut_history.forget [OF cut_history.none f(1,2) c2])
  with c' c2 show ?thesis by blast
qed

section \<open>Round-trip times\<close>

text \<open>
  The table of round-trip times never exceeds its bound, a first sample is stored as it is, and a
  later one moves the estimate to a value between the old estimate and the sample (when the weighted
  sum fits 32 bits), never above the larger of the two.
\<close>

theorem record_rtt_bounds:
  assumes "length m \<le> RTT_MAX_ENTRIES" "distinct (map fst m)" "r \<le> U32_MAX" "s \<le> U32_MAX"
  shows "length (record_rtt ip s m) \<le> RTT_MAX_ENTRIES \<and> distinct (map fst (record_rtt ip s m)) \<and>
    (rtt_of ip m = None \<longrightarrow> rtt_of ip (record_rtt ip s m) = Some s) \<and>
    (rtt_of ip m = Some r \<longrightarrow> (\<exists>r'. rtt_of ip (record_rtt ip s m) = Some r' \<and> r' \<le> max r s \<and>
       (3 * r + s \<le> U32_MAX \<longrightarrow> min r s \<le> r'))) \<and>
    (ip' \<noteq> ip \<longrightarrow> rtt_of ip m \<noteq> None \<longrightarrow> rtt_of ip' (record_rtt ip s m) = rtt_of ip' m)"
proof (cases "map_of m ip")
  case None
  then show ?thesis using assms
    by (simp add: record_rtt_def rtt_of_def Let_def update_conv' distinct_update length_update_key
        del: map_of_eq_Some_iff)
next
  case (Some r0)
  have "min (min (r * 3) U32_MAX + s) U32_MAX div 4 \<le> max r s" by (simp add: min_def max_def) linarith
  with Some show ?thesis using assms
    by (auto simp: record_rtt_def rtt_of_def Let_def update_conv' distinct_update length_update_key
        saturating_u32_def)
qed

theorem record_rtt_bounds_witness:
  "rtt_of (V4 1) (record_rtt (V4 1) 8 [(V4 1, 4)]) = Some 5"
  using record_rtt_bounds [of "[(V4 1, 4)]" 4 8 "V4 1" "V4 2"] by (simp add: rtt_of_def record_rtt_def saturating_u32_def)

end
