(* ===== verification/Dnssec_Chain.thy ===== *)
theory Dnssec_Chain
  imports Denial_Facts Infra_Cache
begin

unbundle bit_operations_syntax

text \<open>
  The walk along the chain of trust, \<open>dns/dnssec_chain.rs\<close>. The \<open>Fetcher\<close> is an argument: a function
  from a name and a type to the message it returns, if any. Within one walk no name and type is fetched
  twice, so a function loses nothing. The key cache is threaded as state; \<open>clk i\<close> is the \<open>i\<close>th reading of
  the wall clock by the cache. The outer \<open>option\<close> of a result is a panic.
\<close>

section \<open>The code\<close>

datatype verdict = Secure | Insecure | Bogus

type_synonym fetcher = "name \<Rightarrow> u16 \<Rightarrow> message option"

definition rdata_octets :: "rdata \<Rightarrow> byte list" where
  "rdata_octets rd = ebuf (rdata_emit rd enc_uncompressed)"

text \<open>The octets of a record kept opaque, and the test of the type an RRSIG covers.\<close>

definition opaque :: "rr \<Rightarrow> byte list option" where
  "opaque r = (case rr_data r of Unknown _ data \<Rightarrow> Some data | _ \<Rightarrow> None)"

definition covers_type :: "u16 \<Rightarrow> byte list \<Rightarrow> bool" where
  "covers_type rtype d \<longleftrightarrow> length d \<ge> 2 \<and> u16_from_be (d ! 0) (d ! 1) = rtype"

definition split_section :: "rr list \<Rightarrow> u16 \<Rightarrow> byte list list \<times> byte list list" where
  "split_section sec rtype =
     (map (\<lambda>r. rdata_octets (rr_data r)) (filter (\<lambda>r. rr_type r = rtype) sec),
      filter (covers_type rtype) (List.map_filter opaque (filter (\<lambda>r. rr_type r = rtype_RRSIG) sec)))"

fun iter_min :: "'a::linorder list \<Rightarrow> 'a option" where
  "iter_min [] = None"
| "iter_min (x # xs) = Some (fold min xs x)"

definition dnskey_ttl :: "rr list \<Rightarrow> u32" where
  "dnskey_ttl sec =
     (case iter_min (map rr_ttl (filter (\<lambda>r. rr_type r = rtype_DNSKEY) sec)) of
        Some t \<Rightarrow> t | None \<Rightarrow> 3600)"

definition sig_expiry :: "byte list \<Rightarrow> u32 option" where
  "sig_expiry d = (if length d \<ge> 12 then Some (u32_at d 8) else None)"

definition min_rrsig_expiration :: "byte list list \<Rightarrow> u32 option" where
  "min_rrsig_expiration sigs = iter_min (List.map_filter sig_expiry sigs)"

definition saturating_sub :: "u32 \<Rightarrow> u32 \<Rightarrow> u32" where
  "saturating_sub a b = (if b \<le> a then a - b else 0)"

definition dnskey_cache_ttl :: "u32 \<Rightarrow> byte list list \<Rightarrow> u32 \<Rightarrow> u32" where
  "dnskey_cache_ttl rrset_ttl sigs now =
     (case min_rrsig_expiration sigs of
        Some ex \<Rightarrow> min rrset_ttl (saturating_sub ex now)
      | None \<Rightarrow> rrset_ttl)"

definition as_unknown :: "byte list list \<Rightarrow> u16 \<Rightarrow> rdata list" where
  "as_unknown rdatas rtype = map (Unknown rtype) rdatas"

function delegation_loop :: "name \<Rightarrow> name list \<Rightarrow> name list option" where
  "delegation_loop cur up =
     (if is_root cur then Some up
      else (case name_parent cur of
              None \<Rightarrow> None
            | Some None \<Rightarrow> Some (up @ [cur])
            | Some (Some p) \<Rightarrow> delegation_loop p (up @ [cur])))"
  by pat_completeness auto
termination
  by (relation "measure (\<lambda>(cur, up). length (name_wire cur))") (auto simp: name_parent_shorter)

declare delegation_loop.simps [simp del]

definition delegation_path :: "name \<Rightarrow> name list option" where
  "delegation_path zone = map_option rev (delegation_loop zone [])"

text \<open>The pool of fetched messages, a hash table whose keys compare without case.\<close>

type_synonym fetch_map = "((name \<times> u16) \<times> message option) list"

definition same_key :: "name \<Rightarrow> u16 \<Rightarrow> (name \<times> u16) \<times> message option \<Rightarrow> bool" where
  "same_key nm t e \<longleftrightarrow> eq_ignore_ascii_case (fst (fst e)) nm \<and> snd (fst e) = t"

definition fetch_insert :: "(name \<times> u16) \<times> message option \<Rightarrow> fetch_map \<Rightarrow> fetch_map" where
  "fetch_insert e m = e # filter (\<lambda>e'. \<not> same_key (fst (fst e)) (snd (fst e)) e') m"

definition take_or_fetch :: "fetcher \<Rightarrow> fetch_map \<Rightarrow> name \<Rightarrow> u16 \<Rightarrow> message option \<times> fetch_map" where
  "take_or_fetch fetch m nm t =
     (case find (same_key nm t) m of
        Some e \<Rightarrow> (snd e, filter (\<lambda>e'. \<not> same_key nm t e') m)
      | None \<Rightarrow> (fetch nm t, m))"

text \<open>The cache as the walk uses it, with the clock read at each call.\<close>

record chain_state =
  cs_cache :: infra_cache
  cs_reads :: nat

definition cached_keys :: "(nat \<Rightarrow> nat) \<Rightarrow> name \<Rightarrow> chain_state \<Rightarrow> (byte list list option \<times> chain_state) option" where
  "cached_keys clk nm st = do {
     (v, c) \<leftarrow> dnskey_get (clk (cs_reads st)) nm (cs_cache st);
     Some (v, \<lparr>cs_cache = c, cs_reads = cs_reads st + 1\<rparr>)
   }"

type_synonym key_iter = "(byte list \<times> byte list list entry) list \<Rightarrow> (byte list \<times> byte list list entry) list"

definition learn_keys ::
    "key_iter \<Rightarrow> (nat \<Rightarrow> nat) \<Rightarrow> name \<Rightarrow> byte list list \<Rightarrow> u32 \<Rightarrow> chain_state \<Rightarrow> chain_state option" where
  "learn_keys iter clk nm ks ttl st = do {
     c \<leftarrow> dnskey_learn iter (clk (cs_reads st)) nm ks (unat ttl) (cs_cache st);
     Some \<lparr>cs_cache = c, cs_reads = cs_reads st + 1\<rparr>
   }"

text \<open>Iterator adaptors whose closures may panic.\<close>

fun filter_map_opt :: "('a \<Rightarrow> 'b option option) \<Rightarrow> 'a list \<Rightarrow> 'b list option" where
  "filter_map_opt f [] = Some []"
| "filter_map_opt f (x # xs) = do {
     y \<leftarrow> f x;
     ys \<leftarrow> filter_map_opt f xs;
     Some (case y of None \<Rightarrow> ys | Some y \<Rightarrow> y # ys)
   }"

fun find_opt :: "('a \<Rightarrow> bool option) \<Rightarrow> 'a list \<Rightarrow> 'a option option" where
  "find_opt f [] = Some None"
| "find_opt f (x # xs) = do { b \<leftarrow> f x; if b then Some (Some x) else find_opt f xs }"

definition rrset_validated :: "ring \<Rightarrow> message \<Rightarrow> name \<Rightarrow> u16 \<Rightarrow> byte list list \<Rightarrow> u32 \<Rightarrow> bool option" where
  "rrset_validated r msg owner rtype ks now =
     (let rdatas = map (\<lambda>x. case rr_data x of Unknown _ data \<Rightarrow> Unknown rtype data | rd \<Rightarrow> rd)
            (filter (\<lambda>x. rr_type x = rtype \<and> eq_ignore_ascii_case (rr_name x) owner) (authority msg));
          sigs = filter (covers_type rtype) (List.map_filter opaque
            (filter (\<lambda>x. rr_type x = rtype_RRSIG \<and> eq_ignore_ascii_case (rr_name x) owner) (authority msg)))
      in validate_rrset r owner class_IN rtype rdatas sigs ks now)"

definition collect_validated_nsec :: "ring \<Rightarrow> message \<Rightarrow> byte list list \<Rightarrow> u32 \<Rightarrow> nsec list option" where
  "collect_validated_nsec r msg ks now =
     filter_map_opt (\<lambda>x.
       if rr_type x \<noteq> rtype_NSEC then Some None
       else do {
         ok \<leftarrow> rrset_validated r msg (rr_name x) rtype_NSEC ks now;
         if \<not> ok then Some None
         else (case rr_data x of
                 Unknown _ data \<Rightarrow> Some (nsec_parse (rr_name x) data)
               | _ \<Rightarrow> Some None)
       }) (authority msg)"

definition collect_validated_nsec3 :: "ring \<Rightarrow> message \<Rightarrow> byte list list \<Rightarrow> u32 \<Rightarrow> nsec3 list option" where
  "collect_validated_nsec3 r msg ks now =
     filter_map_opt (\<lambda>x.
       if rr_type x \<noteq> rtype_NSEC3 then Some None
       else do {
         ok \<leftarrow> rrset_validated r msg (rr_name x) rtype_NSEC3 ks now;
         if \<not> ok then Some None
         else (case rr_data x of
                 Unknown _ data \<Rightarrow> nsec3_parse (rr_name x) data
               | _ \<Rightarrow> Some None)
       }) (authority msg)"

definition denial_secure :: "ring \<Rightarrow> message \<Rightarrow> name \<Rightarrow> byte list list \<Rightarrow> u32 \<Rightarrow> bool option" where
  "denial_secure r msg nm ks now = do {
     nsecs \<leftarrow> collect_validated_nsec r msg ks now;
     if nsecs \<noteq> [] then Some (nsec_proves_no_ds nsecs nm)
     else do {
       nsec3s \<leftarrow> collect_validated_nsec3 r msg ks now;
       Some (nsec3s \<noteq> [] \<and> nsec3_proves_no_ds r nsec3s nm)
     }
   }"

text \<open>The loop of \<open>trusted_keys_for\<close> over the zone cuts below the root.\<close>

fun descend ::
    "ring \<Rightarrow> key_iter \<Rightarrow> (nat \<Rightarrow> nat) \<Rightarrow> fetcher \<Rightarrow> u32 \<Rightarrow> name list \<Rightarrow> name \<Rightarrow> byte list list \<Rightarrow> fetch_map \<Rightarrow>
       chain_state \<Rightarrow> ((verdict \<times> byte list list) \<times> chain_state) option" where
  "descend r iter clk fetch now [] current ks pre st = Some ((Secure, ks), st)"
| "descend r iter clk fetch now (child # path) current ks pre st =
     (if eq_ignore_ascii_case child current then descend r iter clk fetch now path current ks pre st
      else (case cached_keys clk child st of
        None \<Rightarrow> None
      | Some (Some ck, st) \<Rightarrow> descend r iter clk fetch now path child ck pre st
      | Some (None, st) \<Rightarrow>
        (case take_or_fetch fetch pre child rtype_DS of
           (None, pre) \<Rightarrow> Some ((Bogus, []), st)
         | (Some ds_msg, pre) \<Rightarrow>
           (case split_section (answers ds_msg) rtype_DS of (ds_rd, ds_sig) \<Rightarrow>
            if ds_rd = [] then
              (case take_or_fetch fetch pre child rtype_NS of (ns_msg, pre) \<Rightarrow>
               if \<not> (case ns_msg of
                       None \<Rightarrow> False
                     | Some m \<Rightarrow> list_ex (\<lambda>x. rr_type x = rtype_NS \<and> eq_ignore_ascii_case (rr_name x) child) (answers m))
               then descend r iter clk fetch now path current ks pre st
               else do {
                 proven \<leftarrow> denial_secure r ds_msg child ks now;
                 Some ((if proven then Insecure else Bogus, []), st)
               })
            else
              (case validate_rrset r child class_IN rtype_DS (as_unknown ds_rd rtype_DS) ds_sig ks now of
                 None \<Rightarrow> None
               | Some False \<Rightarrow> Some ((Bogus, []), st)
               | Some True \<Rightarrow>
                 (case take_or_fetch fetch pre child rtype_DNSKEY of
                    (None, pre) \<Rightarrow> Some ((Bogus, []), st)
                  | (Some km, pre) \<Rightarrow>
                    (case split_section (answers km) rtype_DNSKEY of (ck, cs) \<Rightarrow>
                     (case validate_dnskey_rrset r child ck cs (List.map_filter parse_ds ds_rd) now of
                        None \<Rightarrow> None
                      | Some None \<Rightarrow> Some ((Bogus, []), st)
                      | Some (Some child_keys) \<Rightarrow>
                        (case learn_keys iter clk child child_keys
                                (dnskey_cache_ttl (dnskey_ttl (answers km)) cs now) st of
                           None \<Rightarrow> None
                         | Some st \<Rightarrow> descend r iter clk fetch now path child child_keys pre st))))))))) "

declare descend.simps [simp del]

text \<open>The keys to fetch ahead: every level that is not cached.\<close>

fun prefetch_keys ::
    "(nat \<Rightarrow> nat) \<Rightarrow> name list \<Rightarrow> chain_state \<Rightarrow> ((name \<times> u16) list \<times> chain_state) option" where
  "prefetch_keys clk [] st = Some ([], st)"
| "prefetch_keys clk (child # path) st = do {
     (v, st) \<leftarrow> cached_keys clk child st;
     (rest, st) \<leftarrow> prefetch_keys clk path st;
     Some ((if v = None then [(child, rtype_DS), (child, rtype_DNSKEY)] else []) @ rest, st)
   }"

definition root_keys ::
    "ring \<Rightarrow> key_iter \<Rightarrow> (nat \<Rightarrow> nat) \<Rightarrow> fetcher \<Rightarrow> u32 \<Rightarrow> fetch_map \<Rightarrow> chain_state \<Rightarrow>
       (byte list list option \<times> fetch_map \<times> chain_state) option" where
  "root_keys r iter clk fetch now pre st = do {
     (rk, st) \<leftarrow> cached_keys clk name_root st;
     (case rk of
        Some rk \<Rightarrow> Some (Some rk, pre, st)
      | None \<Rightarrow>
        (case take_or_fetch fetch pre name_root rtype_DNSKEY of
           (None, pre) \<Rightarrow> Some (None, pre, st)
         | (Some root_msg, pre) \<Rightarrow> do {
             let (rk, rs) = split_section (answers root_msg) rtype_DNSKEY;
             v \<leftarrow> validate_dnskey_rrset r name_root rk rs ROOT_ANCHORS now;
             (case v of
                None \<Rightarrow> Some (None, pre, st)
              | Some owned \<Rightarrow> do {
                  st \<leftarrow> learn_keys iter clk name_root owned (dnskey_cache_ttl (dnskey_ttl (answers root_msg)) rs now) st;
                  Some (Some owned, pre, st)
                })
           }))
   }"

definition trusted_keys_for ::
    "ring \<Rightarrow> key_iter \<Rightarrow> (nat \<Rightarrow> nat) \<Rightarrow> fetcher \<Rightarrow> name \<Rightarrow> u32 \<Rightarrow> chain_state \<Rightarrow>
       ((verdict \<times> byte list list) \<times> chain_state) option" where
  "trusted_keys_for r iter clk fetch zone now st = do {
     (hit, st) \<leftarrow> cached_keys clk zone st;
     (case hit of
        Some ks \<Rightarrow> Some ((Secure, ks), st)
      | None \<Rightarrow> do {
          path \<leftarrow> delegation_path zone;
          (rv, st) \<leftarrow> cached_keys clk name_root st;
          (rest, st) \<leftarrow> prefetch_keys clk path st;
          let fetch_keys = (if rv = None then [(name_root, rtype_DNSKEY)] else []) @ rest;
          let prefetched = fold (\<lambda>(nm, t). fetch_insert ((nm, t), fetch nm t)) fetch_keys [];
          (ks, pre, st) \<leftarrow> root_keys r iter clk fetch now prefetched st;
          (case ks of
             None \<Rightarrow> Some ((Bogus, []), st)
           | Some ks \<Rightarrow> descend r iter clk fetch now path name_root ks pre st)
        })
   }"

definition rrsig_signers :: "rr list \<Rightarrow> name list" where
  "rrsig_signers rs =
     List.map_filter (\<lambda>r. case opaque r of None \<Rightarrow> None | Some data \<Rightarrow> rrsig_signer data) rs"

definition zone_apex :: "message \<Rightarrow> name option" where
  "zone_apex msg =
     (case rrsig_signers (filter (\<lambda>r. rr_type r = rtype_RRSIG) (answers msg @ authority msg)) of
        [] \<Rightarrow> None
      | z # _ \<Rightarrow> Some z)"

definition answer_zone :: "message \<Rightarrow> name \<Rightarrow> name option option" where
  "answer_zone msg qn =
     find_opt (\<lambda>z. is_in_zone qn z)
       (rrsig_signers (filter (\<lambda>r. rr_type r = rtype_RRSIG \<and> eq_ignore_ascii_case (rr_name r) qn) (answers msg)))"

definition soa_owner :: "message \<Rightarrow> name option" where
  "soa_owner msg = map_option rr_name (find (\<lambda>r. rr_type r = rtype_SOA) (authority msg))"

definition proves_no_exact_match ::
    "ring \<Rightarrow> message \<Rightarrow> name \<Rightarrow> name \<Rightarrow> byte list list \<Rightarrow> u32 \<Rightarrow> bool option" where
  "proves_no_exact_match r msg qn zone ks now = do {
     nsecs \<leftarrow> collect_validated_nsec r msg ks now;
     p \<leftarrow> nsec_proves_nonexistence nsecs qn;
     if p then Some True
     else do {
       nsec3s \<leftarrow> collect_validated_nsec3 r msg ks now;
       nsec3_proves_name_nonexistent r nsec3s qn zone
     }
   }"

definition validate_denial ::
    "ring \<Rightarrow> message \<Rightarrow> name \<Rightarrow> u16 \<Rightarrow> name \<Rightarrow> byte list list \<Rightarrow> u32 \<Rightarrow> bool option" where
  "validate_denial r msg qn qt zone ks now = do {
     nsecs \<leftarrow> collect_validated_nsec r msg ks now;
     nsec3s \<leftarrow> collect_validated_nsec3 r msg ks now;
     if nsecs = [] \<and> nsec3s = [] then Some False
     else if rcode_low (msg_header msg) = rcode_NXDOMAIN then
       or_else (nsec_proves_nxdomain nsecs qn zone) (nsec3_proves_nxdomain r nsec3s qn zone)
     else
       Some (list_ex (\<lambda>nz. nsec_proves_nodata (nsec_owner nz) (nsec_bitmap nz) qn qt) nsecs \<or>
             nsec3_proves_nodata r nsec3s qn qt)
   }"

definition inbailiwick_soa :: "message \<Rightarrow> name \<Rightarrow> rr list option" where
  "inbailiwick_soa msg qn =
     filter_map_opt (\<lambda>r.
       if rr_type r \<noteq> rtype_SOA then Some None
       else map_option (\<lambda>inz. if inz then Some r else None) (is_in_zone qn (rr_name r))) (authority msg)"

definition validated_negative_authority ::
    "ring \<Rightarrow> message \<Rightarrow> name \<Rightarrow> byte list list \<Rightarrow> u32 \<Rightarrow> rr list option" where
  "validated_negative_authority r msg zone ks now = do {
     let soas = filter (\<lambda>x. rr_type x = rtype_SOA \<and> eq_ignore_ascii_case (rr_name x) zone) (authority msg);
     let (_, soa_sigs) = split_section (authority msg) rtype_SOA;
     ok \<leftarrow> (if soas = [] then Some False
           else validate_rrset r zone class_IN rtype_SOA (map rr_data soas) soa_sigs ks now);
     proofs \<leftarrow> filter_map_opt (\<lambda>x.
       if rr_type x = rtype_NSEC \<or> rr_type x = rtype_NSEC3 \<or> rr_type x = rtype_RRSIG
       then map_option (\<lambda>inz. if inz then Some x else None) (is_in_zone (rr_name x) zone)
       else Some None) (authority msg);
     Some ((if ok then soas else []) @ proofs)
   }"

text \<open>The records of the answer section for a name and type.\<close>

definition owned :: "name \<Rightarrow> u16 \<Rightarrow> rr list \<Rightarrow> rr list" where
  "owned qn t rs = filter (\<lambda>x. rr_type x = t \<and> eq_ignore_ascii_case (rr_name x) qn) rs"

definition answer_type :: "message \<Rightarrow> name \<Rightarrow> u16 \<Rightarrow> u16 option" where
  "answer_type msg qn qt =
     (if owned qn qt (answers msg) \<noteq> [] then Some qt
      else if owned qn rtype_CNAME (answers msg) \<noteq> [] then Some rtype_CNAME
      else None)"

text \<open>The signing zone: of the answer's own RRSIG, else of any RRSIG, if it encloses the name.\<close>

definition signing_zone :: "message \<Rightarrow> name \<Rightarrow> name option option" where
  "signing_zone msg qn = do {
     z \<leftarrow> answer_zone msg qn;
     (case z of
        Some z \<Rightarrow> Some (Some z)
      | None \<Rightarrow>
        (case zone_apex msg of
           None \<Rightarrow> Some None
         | Some z \<Rightarrow> map_option (\<lambda>inz. if inz then Some z else None) (is_in_zone qn z)))
   }"

text \<open>The data check under the keys of the zone: the answer, or the proof that there is none.\<close>

definition validate_data ::
    "ring \<Rightarrow> name \<Rightarrow> u16 \<Rightarrow> message \<Rightarrow> u32 \<Rightarrow> name \<Rightarrow> byte list list \<Rightarrow> (verdict \<times> rr list) option" where
  "validate_data r qn qt msg now zone ks =
     (case answer_type msg qn qt of
        Some t \<Rightarrow> do {
          v \<leftarrow> validate_rrset_wc r qn class_IN t (map rr_data (owned qn t (answers msg)))
                (snd (split_section (answers msg) t)) ks now;
          (case v of
             None \<Rightarrow> Some (Bogus, [])
           | Some False \<Rightarrow> Some (Secure, [])
           | Some True \<Rightarrow> do {
               p \<leftarrow> proves_no_exact_match r msg qn zone ks now;
               Some (if p then Secure else Bogus, [])
             })
        }
      | None \<Rightarrow> do {
          d \<leftarrow> validate_denial r msg qn qt zone ks now;
          if d then do {
            auth \<leftarrow> validated_negative_authority r msg zone ks now;
            Some (Secure, auth)
          } else Some (Bogus, [])
        })"

definition validate_full ::
    "ring \<Rightarrow> key_iter \<Rightarrow> (nat \<Rightarrow> nat) \<Rightarrow> fetcher \<Rightarrow> name \<Rightarrow> u16 \<Rightarrow> message \<Rightarrow> u32 \<Rightarrow> chain_state \<Rightarrow>
       ((verdict \<times> rr list) \<times> chain_state) option" where
  "validate_full r iter clk fetch qn qt msg now st = do {
     sz \<leftarrow> signing_zone msg qn;
     (case sz of
        None \<Rightarrow> do {
          z \<leftarrow> (case soa_owner msg of
                 None \<Rightarrow> Some qn
               | Some z \<Rightarrow> map_option (\<lambda>inz. if inz then z else qn) (is_in_zone qn z));
          ((v, _), st) \<leftarrow> trusted_keys_for r iter clk fetch z now st;
          (case v of
             Insecure \<Rightarrow> do { soa \<leftarrow> inbailiwick_soa msg qn; Some ((Insecure, soa), st) }
           | _ \<Rightarrow> Some ((Bogus, []), st))
        }
      | Some zone \<Rightarrow> do {
          ((v, ks), st) \<leftarrow> trusted_keys_for r iter clk fetch zone now st;
          (case v of
             Bogus \<Rightarrow> Some ((Bogus, []), st)
           | Insecure \<Rightarrow> do { soa \<leftarrow> inbailiwick_soa msg qn; Some ((Insecure, soa), st) }
           | Secure \<Rightarrow> do { res \<leftarrow> validate_data r qn qt msg now zone ks; Some (res, st) })
        })
   }"

definition validate ::
    "ring \<Rightarrow> key_iter \<Rightarrow> (nat \<Rightarrow> nat) \<Rightarrow> fetcher \<Rightarrow> name \<Rightarrow> u16 \<Rightarrow> message \<Rightarrow> u32 \<Rightarrow> chain_state \<Rightarrow>
       (verdict \<times> chain_state) option" where
  "validate r iter clk fetch qn qt msg now st =
     map_option (\<lambda>((v, _), st). (v, st)) (validate_full r iter clk fetch qn qt msg now st)"

end
