(* ===== verification/Signed_Proofs.thy ===== *)
theory Signed_Proofs
  imports Dnssec_Chain
begin

unbundle bit_operations_syntax

text \<open>
  The ground of the DNSSEC verdicts. No check of the validator panics on messages whose owner names are
  well formed. What the checks accept is stated without them: a signature record of the message that
  fits the record set and that the library accepts under one of the keys, and NSEC and NSEC3 records
  of the authority section that carry such a signature and that speak about the name in question.
\<close>

section \<open>No panic\<close>

lemma verify_rrsig_returns [no_panic]: "valid_name owner \<Longrightarrow> returns (verify_rrsig r owner cls t rds sig key now)"
  using verify_rrsig_total by (simp add: returns_def)

lemma is_in_zone_returns [no_panic]: "valid_name n \<Longrightarrow> valid_name z \<Longrightarrow> returns (is_in_zone n z)"
  using is_in_zone_total by (simp add: returns_def)

lemma any_opt_returns: "(\<And>x. x \<in> set xs \<Longrightarrow> returns (f x)) \<Longrightarrow> returns (any_opt f xs)"
  by (induction xs) (auto intro!: no_panic)

lemma filter_map_opt_returns: "(\<And>x. x \<in> set xs \<Longrightarrow> returns (f x)) \<Longrightarrow> returns (filter_map_opt f xs)"
  by (induction xs) (auto intro!: no_panic)

lemma find_opt_returns: "(\<And>x. x \<in> set xs \<Longrightarrow> returns (f x)) \<Longrightarrow> returns (find_opt f xs)"
  by (induction xs) (auto intro!: no_panic)

lemma filter_map_opt_mem:
  "filter_map_opt f xs = Some ys \<Longrightarrow> y \<in> set ys \<longleftrightarrow> (\<exists>x \<in> set xs. f x = Some (Some y))"
  by (induction xs arbitrary: ys) (auto split: bind_splits option.splits)

lemma find_opt_mem: "find_opt f xs = Some (Some x) \<Longrightarrow> x \<in> set xs \<and> f x = Some True"
  by (induction xs) (auto split: bind_splits if_splits)

lemma validate_sigs_returns [no_panic]:
  "valid_name owner \<Longrightarrow> returns (validate_sigs r owner cls t rds ks now sigs)"
  by (induction sigs) (auto intro!: no_panic any_opt_returns simp: label_count_valid)

lemma validate_rrset_wc_returns [no_panic]:
  "valid_name owner \<Longrightarrow> returns (validate_rrset_wc r owner cls t rds sigs ks now)"
  unfolding validate_rrset_wc_def by (rule validate_sigs_returns)

lemma validate_rrset_returns [no_panic]:
  "valid_name owner \<Longrightarrow> returns (validate_rrset r owner cls t rds sigs ks now)"
  unfolding validate_rrset_def returns_simps by (rule validate_rrset_wc_returns)

lemma dnskey_loop_returns [no_panic]: "valid_name owner \<Longrightarrow> returns (dnskey_loop r owner refs sigs tds now ks)"
  by (induction ks) (auto intro!: no_panic any_opt_returns)

lemma validate_dnskey_rrset_returns [no_panic]:
  "valid_name owner \<Longrightarrow> returns (validate_dnskey_rrset r owner dnskeys sigs tds now)"
  unfolding validate_dnskey_rrset_def by (auto simp: Let_def intro!: no_panic)

text \<open>A message whose records in the answer and authority sections have well-formed owner names.\<close>

definition named :: "message \<Rightarrow> bool" where
  "named m \<longleftrightarrow> (\<forall>x \<in> set (answers m) \<union> set (authority m). valid_name (rr_name x))"

lemma rrset_validated_returns [no_panic]: "valid_name owner \<Longrightarrow> returns (rrset_validated r msg owner t ks now)"
  unfolding rrset_validated_def Let_def by (rule validate_rrset_returns)

lemma nsec3_parse_returns [no_panic]: "valid_name owner \<Longrightarrow> returns (nsec3_parse owner data)"
  by (simp add: nsec3_parse_def Let_def labels_lower_valid)

lemma collect_validated_nsec_returns [no_panic]: "named msg \<Longrightarrow> returns (collect_validated_nsec r msg ks now)"
  unfolding collect_validated_nsec_def named_def
  by (intro filter_map_opt_returns) (auto split: rdata.split intro!: no_panic)

lemma collect_validated_nsec3_returns [no_panic]: "named msg \<Longrightarrow> returns (collect_validated_nsec3 r msg ks now)"
  unfolding collect_validated_nsec3_def named_def
  by (intro filter_map_opt_returns) (auto split: rdata.split intro!: no_panic)

lemma denial_secure_returns [no_panic]: "named msg \<Longrightarrow> returns (denial_secure r msg nm ks now)"
  unfolding denial_secure_def by (auto intro!: no_panic)

text \<open>The denial checks.\<close>

definition nsecs_valid :: "nsec list \<Rightarrow> bool" where
  "nsecs_valid nsecs \<longleftrightarrow> (\<forall>nz \<in> set nsecs. valid_name (nsec_owner nz) \<and> valid_name (nsec_next nz))"

lemma collect_nsec_valid:
  assumes "named msg" "collect_validated_nsec r msg ks now = Some nsecs"
  shows "nsecs_valid nsecs"
  unfolding nsecs_valid_def
proof
  fix nz
  assume "nz \<in> set nsecs"
  then obtain x where x: "x \<in> set (authority msg)"
    "(if rr_type x \<noteq> rtype_NSEC then Some None
      else do {
        ok \<leftarrow> rrset_validated r msg (rr_name x) rtype_NSEC ks now;
        if \<not> ok then Some None
        else (case rr_data x of Unknown _ data \<Rightarrow> Some (nsec_parse (rr_name x) data) | _ \<Rightarrow> Some None) }) = Some (Some nz)"
    unfolding filter_map_opt_mem [OF assms(2) [unfolded collect_validated_nsec_def]] by (elim bexE)
  then obtain data where "nsec_parse (rr_name x) data = Some nz"
    by (cases "rr_data x") (simp_all split: if_splits bind_splits)
  with x(1) assms(1) show "valid_name (nsec_owner nz) \<and> valid_name (nsec_next nz)"
    by (auto simp: named_def nsec_parse_def parse_nsec_def Let_def name_parse_valid
        split: if_splits bind_splits sum.splits)
qed

lemma nsec_covers_returns [no_panic]:
  "valid_name a \<Longrightarrow> valid_name b \<Longrightarrow> valid_name q \<Longrightarrow> returns (nsec_covers a b q)"
  by (simp add: nsec_covers_key)

lemma nsec_proves_nonexistence_returns [no_panic]:
  "nsecs_valid nsecs \<Longrightarrow> valid_name q \<Longrightarrow> returns (nsec_proves_nonexistence nsecs q)"
  unfolding nsec_proves_nonexistence_def nsecs_valid_def by (intro any_opt_returns no_panic) auto

lemma wildcard_of_returns [no_panic]: "valid_name nm \<Longrightarrow> returns (wildcard_of nm)"
  using to_ascii_valid [of nm] by (auto simp: wildcard_of_def)

lemma wildcard_of_valid: "wildcard_of nm = Some (Some w) \<Longrightarrow> valid_name w"
  by (auto simp: wildcard_of_def from_ascii_valid split: bind_splits sum.splits)

lemma name_parent_cases:
  assumes "valid_name n"
  obtains (root) "name_parent n = Some None"
  | (parent) p where "name_parent n = Some (Some p)" "valid_name p" "is_in_zone n p = Some True"
proof -
  obtain ls where n: "n = Name (wire_of ls)" "list_all label_ok ls" using assms by (elim valid_nameE)
  have p: "name_parent n = Some (if 0 < length ls then Some (suffix_name ls 1) else None)"
    using name_parent_suffix [OF n(2), of 0] n(1) by (simp add: suffix_name_0)
  have v: "valid_name (suffix_name ls 1)" using valid_suffix [OF _ n(2)] assms n(1) by simp
  have "is_in_zone n (suffix_name ls 1) = Some True" if "0 < length ls"
    using in_zone_suffix [OF n(2) v, of 1 0] n(1) that by (simp add: suffix_name_0 eq_ignore_ascii_case_iff)
  with p v root parent show ?thesis by (cases "ls = []") auto
qed

lemma ancestor_chain_returns [no_panic]: "valid_name q \<Longrightarrow> returns (ancestor_chain q zone acc)"
proof (induction q zone acc rule: ancestor_chain.induct)
  case (1 cur zone acc)
  from 1(2) show ?case by (cases rule: name_parent_cases) (use 1 in \<open>simp_all add: ancestor_chain.simps [of cur]\<close>)
qed

lemma ancestor_chain_valid:
  "ancestor_chain q zone acc = Some (Some ch) \<Longrightarrow> valid_name q \<Longrightarrow> list_all valid_name acc \<Longrightarrow> list_all valid_name ch"
proof (induction q zone acc rule: ancestor_chain.induct)
  case (1 cur zone acc)
  from 1(3) show ?case
    by (cases rule: name_parent_cases) (use 1 in \<open>auto simp: ancestor_chain.simps [of cur] split: if_splits\<close>)
qed

lemma nxdomain_loop_returns:
  "(\<And>nc ce. (nc, ce) \<in> set ps \<Longrightarrow> valid_name ce) \<Longrightarrow> returns (nxdomain_loop r n3s ps)"
proof (induction ps)
  case (Cons p ps)
  then show ?case by (cases p) (auto intro!: no_panic)
qed simp

lemma nsec3_proves_nxdomain_returns [no_panic]: "valid_name q \<Longrightarrow> returns (nsec3_proves_nxdomain r n3s q zone)"
  unfolding nsec3_proves_nxdomain_def
proof (intro no_panic)
  fix x
  assume "valid_name q" "ancestor_chain q zone [q] = Some x"
  then have "list_all valid_name ch" if "x = Some ch" for ch using ancestor_chain_valid that by simp
  then have "valid_name ce" if "x = Some ch" "(nc, ce) \<in> set (zip ch (tl ch))" for ch nc ce
    using that by (cases ch) (auto simp: list_all_iff dest: set_zip_rightD)
  then show "returns (case x of None \<Rightarrow> Some False | Some ch \<Rightarrow> nxdomain_loop r n3s (zip ch (tl ch)))"
    by (auto split: option.split intro!: nxdomain_loop_returns)
qed

lemma nsec3_proves_name_nonexistent_returns [no_panic]:
  "valid_name q \<Longrightarrow> returns (nsec3_proves_name_nonexistent r n3s q zone)"
  unfolding nsec3_proves_name_nonexistent_def by (auto intro!: no_panic)

lemma nsec_wildcard_loop_returns [no_panic]:
  "nsecs_valid nsecs \<Longrightarrow> valid_name zone \<Longrightarrow> valid_name q \<Longrightarrow> returns (nsec_wildcard_loop nsecs q zone)"
proof (induction nsecs q zone rule: nsec_wildcard_loop.induct)
  case (1 nsecs cur zone)
  from 1(4) show ?case
  proof (cases rule: name_parent_cases)
    case root
    then show ?thesis by (simp add: nsec_wildcard_loop.simps)
  next
    case (parent p)
    let ?found = "do {
      wc \<leftarrow> wildcard_of p;
      (case wc of None \<Rightarrow> Some False
       | Some wc \<Rightarrow> any_opt (\<lambda>nz. nsec_covers (nsec_owner nz) (nsec_next nz) wc) nsecs) }"
    obtain inz where inz: "is_in_zone p zone = Some inz"
      using is_in_zone_returns [OF parent(2) 1(3)] by (rule returnsE)
    have "returns ?found" using 1(2) parent(2) wildcard_of_valid
      by (auto intro!: no_panic any_opt_returns split: option.split simp: nsecs_valid_def)
    then obtain found where f: "(if inz then ?found else Some False) = Some found" by (cases inz) (auto elim: returnsE)
    show ?thesis using 1(1) [OF parent(1) refl inz f] 1(2,3) parent f inz
      by (simp add: nsec_wildcard_loop.simps [of nsecs cur])
  qed
qed

lemma nsec_proves_nxdomain_returns [no_panic]:
  "nsecs_valid nsecs \<Longrightarrow> valid_name zone \<Longrightarrow> valid_name q \<Longrightarrow> returns (nsec_proves_nxdomain nsecs q zone)"
  unfolding nsec_proves_nxdomain_def by (auto intro!: no_panic)

section \<open>Accepted signatures\<close>

text \<open>
  A signature record accepted for a record set under a key: it covers the type, it is valid at the time,
  its signer's zone encloses the owner, the key is of its algorithm, and the library accepts the signature
  over the octets of the set under the owner name, or the wildcard, that it was made for.
\<close>

definition sig_accepted :: "ring \<Rightarrow> name \<Rightarrow> u16 \<Rightarrow> rdata list \<Rightarrow> u32 \<Rightarrow> byte list \<Rightarrow> byte list \<Rightarrow> bool" where
  "sig_accepted r owner t rds now sig key \<longleftrightarrow>
     (\<exists>s tbs. parse_rrsig sig = Some s \<and> sig_type_covered s = t \<and>
        within_validity (sig_inception s) (sig_expiration s) now \<and> is_in_zone owner (sig_signer s) = Some True \<and>
        4 \<le> length key \<and> key ! 3 = sig_algorithm s \<and> rrsig_owner_name owner (sig_labels s) = Some (Some tbs) \<and>
        verify_signature r (sig_algorithm s) (drop 4 key) (signed_data s tbs class_IN rds) (sig_signature s))"

lemma verify_rrsig_accepted: "verify_rrsig r owner class_IN t rds sig key now = Some True \<Longrightarrow> sig_accepted r owner t rds now sig key"
  by (auto simp: verify_rrsig_def sig_accepted_def Let_def split: option.splits if_splits bind_splits)

text \<open>The octets of the signature records of a section, and of those at an owner.\<close>

definition sigs_in :: "rr list \<Rightarrow> byte list set" where
  "sigs_in sec = {d. \<exists>x \<in> set sec. rr_type x = rtype_RRSIG \<and> opaque x = Some d}"

definition sigs_at :: "rr list \<Rightarrow> name \<Rightarrow> byte list set" where
  "sigs_at sec owner = sigs_in (filter (\<lambda>x. eq_ignore_ascii_case (rr_name x) owner) sec)"

definition signs :: "ring \<Rightarrow> name \<Rightarrow> u16 \<Rightarrow> rdata list \<Rightarrow> u32 \<Rightarrow> byte list set \<Rightarrow> byte list list \<Rightarrow> bool" where
  "signs r owner t rds now sigs ks \<longleftrightarrow> (\<exists>sig \<in> sigs. \<exists>key \<in> set ks. sig_accepted r owner t rds now sig key)"

lemma validate_rrset_signed:
  assumes "validate_rrset r owner class_IN t rds sigs ks now = Some True" "set sigs \<subseteq> S"
  shows "signs r owner t rds now S ks"
  using validate_rrset_sound [OF assms(1)] assms(2) verify_rrsig_accepted unfolding signs_def by blast

lemma validate_rrset_wc_signed:
  assumes "validate_rrset_wc r owner class_IN t rds sigs ks now = Some (Some w)" "set sigs \<subseteq> S"
  shows "signs r owner t rds now S ks"
  using validate_rrset_wc_sound [OF assms(1)] assms(2) verify_rrsig_accepted unfolding signs_def by blast

lemma split_sigs: "set (snd (split_section sec t)) \<subseteq> sigs_in sec"
  by (auto simp: split_section_def sigs_in_def List.map_filter_def)

section \<open>Signed denial records\<close>

text \<open>
  The record set of an owner and type in the authority section, as it is signed, and a record of it with
  its octets whose set carries an accepted signature.
\<close>

definition denial_set :: "message \<Rightarrow> name \<Rightarrow> u16 \<Rightarrow> rdata list" where
  "denial_set m owner t =
     map (\<lambda>x. case rr_data x of Unknown _ data \<Rightarrow> Unknown t data | rd \<Rightarrow> rd) (owned owner t (authority m))"

definition signed_denial :: "ring \<Rightarrow> message \<Rightarrow> u16 \<Rightarrow> byte list list \<Rightarrow> u32 \<Rightarrow> rr \<Rightarrow> byte list \<Rightarrow> bool" where
  "signed_denial r m t ks now x data \<longleftrightarrow> x \<in> set (authority m) \<and> rr_type x = t \<and> (\<exists>u. rr_data x = Unknown u data) \<and>
     signs r (rr_name x) t (denial_set m (rr_name x) t) now (sigs_at (authority m) (rr_name x)) ks"

definition signed_nsec :: "ring \<Rightarrow> message \<Rightarrow> byte list list \<Rightarrow> u32 \<Rightarrow> nsec \<Rightarrow> bool" where
  "signed_nsec r m ks now nz \<longleftrightarrow>
     (\<exists>x data. signed_denial r m rtype_NSEC ks now x data \<and> nsec_parse (rr_name x) data = Some nz)"

definition signed_nsec3 :: "ring \<Rightarrow> message \<Rightarrow> byte list list \<Rightarrow> u32 \<Rightarrow> nsec3 \<Rightarrow> bool" where
  "signed_nsec3 r m ks now n3 \<longleftrightarrow>
     (\<exists>x data. signed_denial r m rtype_NSEC3 ks now x data \<and> nsec3_parse (rr_name x) data = Some (Some n3))"

lemma rrset_validated_signs:
  assumes "rrset_validated r m owner t ks now = Some True"
  shows "signs r owner t (denial_set m owner t) now (sigs_at (authority m) owner) ks"
proof -
  let ?sigs = "filter (covers_type t) (List.map_filter opaque
    (filter (\<lambda>x. rr_type x = rtype_RRSIG \<and> eq_ignore_ascii_case (rr_name x) owner) (authority m)))"
  have "validate_rrset r owner class_IN t (denial_set m owner t) ?sigs ks now = Some True"
    using assms by (simp add: rrset_validated_def denial_set_def owned_def)
  moreover have "set ?sigs \<subseteq> sigs_at (authority m) owner"
    by (auto simp: sigs_at_def sigs_in_def List.map_filter_def)
  ultimately show ?thesis by (rule validate_rrset_signed)
qed

lemma collected_nsec_signed:
  assumes "collect_validated_nsec r m ks now = Some nsecs" "nz \<in> set nsecs"
  shows "signed_nsec r m ks now nz"
proof -
  obtain x where x: "x \<in> set (authority m)"
    "(if rr_type x \<noteq> rtype_NSEC then Some None
      else do {
        ok \<leftarrow> rrset_validated r m (rr_name x) rtype_NSEC ks now;
        if \<not> ok then Some None
        else (case rr_data x of Unknown _ data \<Rightarrow> Some (nsec_parse (rr_name x) data) | _ \<Rightarrow> Some None) }) = Some (Some nz)"
    using assms(2) unfolding filter_map_opt_mem [OF assms(1) [unfolded collect_validated_nsec_def]] by (elim bexE)
  then obtain u data where "rr_type x = rtype_NSEC" "rr_data x = Unknown u data" "nsec_parse (rr_name x) data = Some nz"
    "rrset_validated r m (rr_name x) rtype_NSEC ks now = Some True"
    by (cases "rr_data x") (auto split: if_splits bind_splits)
  with x(1) rrset_validated_signs show ?thesis unfolding signed_nsec_def signed_denial_def by blast
qed

lemma collected_nsec3_signed:
  assumes "collect_validated_nsec3 r m ks now = Some nsec3s" "n3 \<in> set nsec3s"
  shows "signed_nsec3 r m ks now n3"
proof -
  obtain x where x: "x \<in> set (authority m)"
    "(if rr_type x \<noteq> rtype_NSEC3 then Some None
      else do {
        ok \<leftarrow> rrset_validated r m (rr_name x) rtype_NSEC3 ks now;
        if \<not> ok then Some None
        else (case rr_data x of Unknown _ data \<Rightarrow> nsec3_parse (rr_name x) data | _ \<Rightarrow> Some None) }) = Some (Some n3)"
    using assms(2) unfolding filter_map_opt_mem [OF assms(1) [unfolded collect_validated_nsec3_def]] by (elim bexE)
  then obtain u data where "rr_type x = rtype_NSEC3" "rr_data x = Unknown u data" "nsec3_parse (rr_name x) data = Some (Some n3)"
    "rrset_validated r m (rr_name x) rtype_NSEC3 ks now = Some True"
    by (cases "rr_data x") (auto split: if_splits bind_splits)
  with x(1) rrset_validated_signs show ?thesis unfolding signed_nsec3_def signed_denial_def by blast
qed

section \<open>What denial records say\<close>

text \<open>
  A NSEC record whose interval holds a name in canonical order, and a NSEC3 record whose hash is that of
  a name or whose interval holds it; the hash algorithm and the iterations are the supported ones.
\<close>

definition nsec_between :: "nsec \<Rightarrow> name \<Rightarrow> bool" where
  "nsec_between nz q \<longleftrightarrow>
     covers_between (lex_cmp bytes_cmp) (order_key (nsec_owner nz)) (order_key (nsec_next nz)) (order_key q)"

definition hashes_to :: "ring \<Rightarrow> nsec3 \<Rightarrow> name \<Rightarrow> byte list \<Rightarrow> bool" where
  "hashes_to r n3 q h \<longleftrightarrow> n3_hash_alg n3 = 1 \<and> n3_iterations n3 \<le> NSEC3_MAX_ITERATIONS \<and>
     h = nsec3_hash r (canonical_name_wire q) (n3_salt n3) (n3_iterations n3)"

definition nsec3_at :: "ring \<Rightarrow> nsec3 \<Rightarrow> name \<Rightarrow> bool" where
  "nsec3_at r n3 q \<longleftrightarrow> hashes_to r n3 q (n3_owner_hash n3)"

definition nsec3_between :: "ring \<Rightarrow> nsec3 \<Rightarrow> name \<Rightarrow> bool" where
  "nsec3_between r n3 q \<longleftrightarrow>
     (\<exists>h. hashes_to r n3 q h \<and> covers_between bytes_cmp (n3_owner_hash n3) (n3_next_hash n3) h)"

lemma n3_matches_at: "n3_matches r n3 q \<longleftrightarrow> nsec3_at r n3 q"
  by (auto simp: n3_matches_def nsec3_at_def hashes_to_def n3_hash_def)

lemma n3_covers_between: "n3_covers r n3 q \<longleftrightarrow> nsec3_between r n3 q"
  by (auto simp: n3_covers_def nsec3_between_def hashes_to_def n3_hash_def cover_hash_def covers_between_def)

lemma nsec_covers_between:
  "nsecs_valid nsecs \<Longrightarrow> nz \<in> set nsecs \<Longrightarrow> valid_name q \<Longrightarrow>
     nsec_covers (nsec_owner nz) (nsec_next nz) q = Some (nsec_between nz q)"
  by (simp add: nsecs_valid_def nsec_covers_key nsec_between_def)

lemma nsec_any_between:
  "nsecs_valid nsecs \<Longrightarrow> valid_name q \<Longrightarrow> any_opt (\<lambda>nz. nsec_covers (nsec_owner nz) (nsec_next nz) q) nsecs = Some True \<Longrightarrow>
     \<exists>nz \<in> set nsecs. nsec_between nz q"
  using any_opt_True nsec_covers_between by (metis (no_types, lifting) option.inject)

text \<open>The types a record at a zone cut lists when the delegation is not signed.\<close>

definition unsigned_cut :: "byte list \<Rightarrow> bool" where
  "unsigned_cut bitmap \<longleftrightarrow> type_in_bitmap bitmap rtype_NS \<and> \<not> type_in_bitmap bitmap rtype_DS \<and>
     \<not> type_in_bitmap bitmap rtype_SOA"

text \<open>
  Signed records that prove that a zone cut has no DS: a NSEC at the cut, a NSEC3 at its hash, or a NSEC3
  with the opt-out flag whose interval holds its hash.
\<close>

definition signed_no_ds :: "ring \<Rightarrow> message \<Rightarrow> name \<Rightarrow> byte list list \<Rightarrow> u32 \<Rightarrow> bool" where
  "signed_no_ds r m child ks now \<longleftrightarrow>
     (\<exists>nz. signed_nsec r m ks now nz \<and> eq_ignore_ascii_case (nsec_owner nz) child \<and> unsigned_cut (nsec_bitmap nz)) \<or>
     (\<exists>n3. signed_nsec3 r m ks now n3 \<and>
        (nsec3_at r n3 child \<and> unsigned_cut (n3_bitmap n3) \<or> bit (n3_flags n3) 0 \<and> nsec3_between r n3 child))"

lemma denial_secure_sound: "denial_secure r m child ks now = Some True \<Longrightarrow> signed_no_ds r m child ks now"
  using collected_nsec_signed [of r m ks now] collected_nsec3_signed [of r m ks now]
  by (fastforce simp: denial_secure_def signed_no_ds_def nsec_proves_no_ds_def nsec3_proves_no_ds_def list_ex_iff
      unsigned_cut_def n3_matches_at n3_covers_between n3_opt_out_def and_one_eq odd_iff_mod_2_eq_one bit_0
      split: bind_splits if_splits)

text \<open>
  Signed NSEC3 records for the closest encloser, \<open>k\<close> labels up from the name and within the zone: one at
  the hash of the encloser and one whose interval holds the hash of the name one label longer.
\<close>

definition encloser_proof :: "ring \<Rightarrow> message \<Rightarrow> name \<Rightarrow> name \<Rightarrow> byte list list \<Rightarrow> u32 \<Rightarrow> nat \<Rightarrow> bool" where
  "encloser_proof r m q zone ks now k \<longleftrightarrow>
     0 < k \<and> k \<le> length (labels q) \<and> is_in_zone (suffix_name (labels q) k) zone = Some True \<and>
     (\<exists>n3. signed_nsec3 r m ks now n3 \<and> nsec3_at r n3 (suffix_name (labels q) k)) \<and>
     (\<exists>n3. signed_nsec3 r m ks now n3 \<and> nsec3_between r n3 (suffix_name (labels q) (k - 1)))"

text \<open>Signed records that prove that a name does not exist, with and without the wildcards above it.\<close>

definition signed_no_name :: "ring \<Rightarrow> message \<Rightarrow> name \<Rightarrow> name \<Rightarrow> byte list list \<Rightarrow> u32 \<Rightarrow> bool" where
  "signed_no_name r m q zone ks now \<longleftrightarrow>
     (\<exists>nz. signed_nsec r m ks now nz \<and> nsec_between nz q) \<or> (\<exists>k. encloser_proof r m q zone ks now k)"

definition signed_nxdomain :: "ring \<Rightarrow> message \<Rightarrow> name \<Rightarrow> name \<Rightarrow> byte list list \<Rightarrow> u32 \<Rightarrow> bool" where
  "signed_nxdomain r m q zone ks now \<longleftrightarrow>
     (\<exists>nz. signed_nsec r m ks now nz \<and> nsec_between nz q) \<and>
     (\<exists>k wc nz. 0 < k \<and> k \<le> length (labels q) \<and> is_in_zone (suffix_name (labels q) k) zone = Some True \<and>
        wildcard_of (suffix_name (labels q) k) = Some (Some wc) \<and> signed_nsec r m ks now nz \<and> nsec_between nz wc) \<or>
     (\<exists>k wc n3. encloser_proof r m q zone ks now k \<and> wildcard_of (suffix_name (labels q) k) = Some (Some wc) \<and>
        signed_nsec3 r m ks now n3 \<and> nsec3_between r n3 wc)"

text \<open>A signed record at the name that lists neither the type nor a CNAME.\<close>

definition lists_neither :: "byte list \<Rightarrow> u16 \<Rightarrow> bool" where
  "lists_neither bitmap t \<longleftrightarrow> \<not> type_in_bitmap bitmap t \<and> \<not> type_in_bitmap bitmap rtype_CNAME"

definition signed_nodata :: "ring \<Rightarrow> message \<Rightarrow> name \<Rightarrow> u16 \<Rightarrow> byte list list \<Rightarrow> u32 \<Rightarrow> bool" where
  "signed_nodata r m q t ks now \<longleftrightarrow>
     (\<exists>nz. signed_nsec r m ks now nz \<and> eq_ignore_ascii_case (nsec_owner nz) q \<and> lists_neither (nsec_bitmap nz) t) \<or>
     (\<exists>n3. signed_nsec3 r m ks now n3 \<and> nsec3_at r n3 q \<and> lists_neither (n3_bitmap n3) t)"

text \<open>The ancestors the NSEC3 loops use.\<close>

lemma ancestor_pairs:
  assumes "valid_name q" "valid_name zone" "ancestor_chain q zone [q] = Some (Some chain)" "(nc, ce) \<in> set (zip chain (tl chain))"
  obtains k where "0 < k" "k \<le> length (labels q)" "is_in_zone (suffix_name (labels q) k) zone = Some True"
    "ce = suffix_name (labels q) k" "nc = suffix_name (labels q) (k - 1)"
proof -
  obtain ls where q: "q = Name (wire_of ls)" "list_all label_ok ls" using assms(1) by (elim valid_nameE)
  then have lb: "labels q = ls" and q0: "q = suffix_name ls 0" by (simp_all add: suffix_name_0)
  obtain m where m: "m \<le> length ls" "chain = [q] @ map (suffix_name ls) [Suc 0..<Suc m]"
    "eq_ignore_ascii_case (suffix_name ls m) zone"
    using ancestor_chain_suffixes [OF q(2), of 0 zone "[q]" chain] assms(3) q0 by auto
  have "chain = map (suffix_name ls) [0..<Suc m]" unfolding m(2) q0 by (simp add: upt_conv_Cons del: upt_Suc)
  then obtain i where "i < m" "nc = suffix_name ls i" "ce = suffix_name ls (Suc i)"
    using assms(4) by (auto simp del: upt_Suc elim!: zip_suffixes)
  with in_zone_suffix [OF q(2) assms(2) m(3)] m(1) show ?thesis by (intro that [of "Suc i"]) (auto simp: lb)
qed

lemma nonexistent_loop_True:
  "nonexistent_loop r n3s ps \<Longrightarrow>
     \<exists>(nc, ce) \<in> set ps. (\<exists>n3 \<in> set n3s. n3_matches r n3 ce) \<and> (\<exists>n3 \<in> set n3s. n3_covers r n3 nc)"
  by (induction ps) (auto simp: list_ex_iff split: if_splits)

lemma nsec_wildcard_loop_True:
  assumes "list_all label_ok ls" "valid_name (Name (wire_of ls))" "nsecs_valid nsecs"
  shows "nsec_wildcard_loop nsecs (suffix_name ls j) zone = Some True \<Longrightarrow> j \<le> length ls \<Longrightarrow>
    \<exists>k wc. \<exists>nz \<in> set nsecs. j < k \<and> k \<le> length ls \<and> is_in_zone (suffix_name ls k) zone = Some True \<and>
      wildcard_of (suffix_name ls k) = Some (Some wc) \<and> nsec_between nz wc"
proof (induction "length ls - j" arbitrary: j)
  case 0
  then show ?case using name_parent_suffix [OF assms(1), of j] by (simp add: nsec_wildcard_loop.simps [of nsecs "suffix_name ls j"])
next
  case (Suc d)
  let ?p = "suffix_name ls (Suc j)"
  have p: "name_parent (suffix_name ls j) = Some (Some ?p)" using Suc.hyps(2) name_parent_suffix [OF assms(1), of j] by simp
  obtain inz where inz: "is_in_zone ?p zone = Some inz" using Suc.prems(1) p
    by (auto simp: nsec_wildcard_loop.simps [of nsecs "suffix_name ls j"] split: option.splits)
  obtain found where f: "(if inz then do {
      wc \<leftarrow> wildcard_of ?p;
      (case wc of None \<Rightarrow> Some False
       | Some wc \<Rightarrow> any_opt (\<lambda>nz. nsec_covers (nsec_owner nz) (nsec_next nz) wc) nsecs) } else Some False) = Some found"
    using Suc.prems(1) p inz by (auto simp: nsec_wildcard_loop.simps [of nsecs "suffix_name ls j"] split: option.splits)
  show ?case
  proof (cases found)
    case True
    with f obtain wc where "inz" "wildcard_of ?p = Some (Some wc)"
      "any_opt (\<lambda>nz. nsec_covers (nsec_owner nz) (nsec_next nz) wc) nsecs = Some True"
      by (auto split: if_splits bind_splits option.splits)
    moreover from this nsec_any_between [OF assms(3) wildcard_of_valid] obtain nz where "nz \<in> set nsecs" "nsec_between nz wc" by blast
    ultimately show ?thesis using inz Suc.hyps(2) by (intro exI [of _ "Suc j"]) auto
  next
    case False
    then have "nsec_wildcard_loop nsecs ?p zone = Some True"
      using Suc.prems(1) p inz f by (simp add: nsec_wildcard_loop.simps [of nsecs "suffix_name ls j"] split: if_splits)
    moreover have "d = length ls - Suc j" "Suc j \<le> length ls" using Suc.hyps(2) by simp_all
    ultimately obtain k wc nz where "nz \<in> set nsecs" "Suc j < k" "k \<le> length ls" "is_in_zone (suffix_name ls k) zone = Some True"
      "wildcard_of (suffix_name ls k) = Some (Some wc)" "nsec_between nz wc" using Suc.hyps(1) [of "Suc j"] by blast
    then show ?thesis by (intro exI [of _ k] exI [of _ wc] bexI [of _ nz]) auto
  qed
qed

lemma nsec3_name_nonexistent_sound:
  assumes "nsec3_proves_name_nonexistent r n3s q zone = Some True" "valid_name q" "valid_name zone"
    "\<And>n3. n3 \<in> set n3s \<Longrightarrow> signed_nsec3 r m ks now n3"
  shows "\<exists>k. encloser_proof r m q zone ks now k"
proof -
  obtain chain where c: "ancestor_chain q zone [q] = Some (Some chain)" "nonexistent_loop r n3s (zip chain (tl chain))"
    using assms(1) by (auto simp: nsec3_proves_name_nonexistent_def split: bind_splits option.splits)
  obtain nc ce n1 n2 where p: "(nc, ce) \<in> set (zip chain (tl chain))" "n1 \<in> set n3s" "nsec3_at r n1 ce"
    "n2 \<in> set n3s" "nsec3_between r n2 nc"
    using nonexistent_loop_True [OF c(2)] by (auto simp: n3_matches_at n3_covers_between)
  obtain k where "0 < k" "k \<le> length (labels q)" "is_in_zone (suffix_name (labels q) k) zone = Some True"
    "ce = suffix_name (labels q) k" "nc = suffix_name (labels q) (k - 1)" by (rule ancestor_pairs [OF assms(2,3) c(1) p(1)])
  with p(2-5) assms(4) show ?thesis unfolding encloser_proof_def by blast
qed

lemma nsec3_nxdomain_signed:
  assumes "nsec3_proves_nxdomain r n3s q zone = Some True" "valid_name q" "valid_name zone"
    "\<And>n3. n3 \<in> set n3s \<Longrightarrow> signed_nsec3 r m ks now n3"
  shows "\<exists>k wc n3. encloser_proof r m q zone ks now k \<and> wildcard_of (suffix_name (labels q) k) = Some (Some wc) \<and>
    signed_nsec3 r m ks now n3 \<and> nsec3_between r n3 wc"
proof -
  obtain chain where c: "ancestor_chain q zone [q] = Some (Some chain)" "nxdomain_loop r n3s (zip chain (tl chain)) = Some True"
    using assms(1) by (auto simp: nsec3_proves_nxdomain_def split: bind_splits option.splits)
  obtain nc ce n1 n2 n3 wc where p: "(nc, ce) \<in> set (zip chain (tl chain))" "n1 \<in> set n3s" "nsec3_at r n1 ce"
    "n2 \<in> set n3s" "nsec3_between r n2 nc" "wildcard_of ce = Some (Some wc)" "n3 \<in> set n3s" "nsec3_between r n3 wc"
    using nxdomain_loop_True [OF c(2)] by (auto simp: n3_matches_at n3_covers_between)
  obtain k where "0 < k" "k \<le> length (labels q)" "is_in_zone (suffix_name (labels q) k) zone = Some True"
    "ce = suffix_name (labels q) k" "nc = suffix_name (labels q) (k - 1)" by (rule ancestor_pairs [OF assms(2,3) c(1) p(1)])
  with p(2-8) assms(4) show ?thesis unfolding encloser_proof_def by blast
qed

lemma nsec_nxdomain_signed:
  assumes "nsec_proves_nxdomain nsecs q zone = Some True" "valid_name q" "nsecs_valid nsecs"
    "\<And>nz. nz \<in> set nsecs \<Longrightarrow> signed_nsec r m ks now nz"
  shows "signed_nxdomain r m q zone ks now"
proof -
  obtain ls where q: "q = Name (wire_of ls)" "list_all label_ok ls" using assms(2) by (elim valid_nameE)
  have l: "labels q = ls" using q by simp
  have w: "nsec_wildcard_loop nsecs (suffix_name ls 0) zone = Some True"
    and n: "any_opt (\<lambda>nz. nsec_covers (nsec_owner nz) (nsec_next nz) q) nsecs = Some True"
    using assms(1) q(1)
    by (auto simp: nsec_proves_nxdomain_def nsec_proves_nonexistence_def suffix_name_0 split: bind_splits if_splits)
  obtain nz where "nz \<in> set nsecs" "nsec_between nz q" using nsec_any_between [OF assms(3,2) n] by blast
  moreover obtain k wc nz' where "nz' \<in> set nsecs" "0 < k" "k \<le> length ls" "is_in_zone (suffix_name ls k) zone = Some True"
    "wildcard_of (suffix_name ls k) = Some (Some wc)" "nsec_between nz' wc"
    using nsec_wildcard_loop_True [OF q(2) _ assms(3) w] assms(2) q(1) by blast
  ultimately show ?thesis unfolding signed_nxdomain_def l using assms(4) by blast
qed

lemma proves_no_exact_match_sound:
  assumes "proves_no_exact_match r m q zone ks now = Some True" "named m" "valid_name q" "valid_name zone"
  shows "signed_no_name r m q zone ks now"
proof -
  obtain nsecs p where n: "collect_validated_nsec r m ks now = Some nsecs" "nsec_proves_nonexistence nsecs q = Some p"
    "\<not> p \<Longrightarrow> \<exists>n3s. collect_validated_nsec3 r m ks now = Some n3s \<and> nsec3_proves_name_nonexistent r n3s q zone = Some True"
    using assms(1) by (auto simp: proves_no_exact_match_def split: bind_splits if_splits)
  show ?thesis
  proof (cases p)
    case True
    with n(2) have "any_opt (\<lambda>nz. nsec_covers (nsec_owner nz) (nsec_next nz) q) nsecs = Some True"
      by (simp add: nsec_proves_nonexistence_def)
    from nsec_any_between [OF collect_nsec_valid [OF assms(2) n(1)] assms(3) this] collected_nsec_signed [OF n(1)]
    show ?thesis unfolding signed_no_name_def by blast
  next
    case False
    with n(3) obtain n3s where "collect_validated_nsec3 r m ks now = Some n3s" "nsec3_proves_name_nonexistent r n3s q zone = Some True"
      by blast
    then show ?thesis using nsec3_name_nonexistent_sound [OF _ assms(3,4)] collected_nsec3_signed unfolding signed_no_name_def by blast
  qed
qed

text \<open>An accepted denial: signed records prove that the name does not exist, or that it lacks the type.\<close>

definition signed_negative :: "ring \<Rightarrow> message \<Rightarrow> name \<Rightarrow> u16 \<Rightarrow> name \<Rightarrow> byte list list \<Rightarrow> u32 \<Rightarrow> bool" where
  "signed_negative r m q t zone ks now =
     (if rcode_low (msg_header m) = rcode_NXDOMAIN then signed_nxdomain r m q zone ks now
      else signed_nodata r m q t ks now)"

lemma validate_denial_sound:
  assumes "validate_denial r m q t zone ks now = Some True" "named m" "valid_name q" "valid_name zone"
  shows "signed_negative r m q t zone ks now"
proof -
  obtain nsecs n3s where n: "collect_validated_nsec r m ks now = Some nsecs" "collect_validated_nsec3 r m ks now = Some n3s"
    using assms(1) by (auto simp: validate_denial_def split: bind_splits)
  note sn = collected_nsec_signed [OF n(1)] and s3 = collected_nsec3_signed [OF n(2)]
  show ?thesis
  proof (cases "rcode_low (msg_header m) = rcode_NXDOMAIN")
    case True
    then have "nsec_proves_nxdomain nsecs q zone = Some True \<or> nsec3_proves_nxdomain r n3s q zone = Some True"
      using assms(1) n by (auto simp: validate_denial_def or_else_def split: bind_splits if_splits)
    then have "signed_nxdomain r m q zone ks now"
      using nsec_nxdomain_signed [OF _ assms(3) collect_nsec_valid [OF assms(2) n(1)] sn]
        nsec3_nxdomain_signed [OF _ assms(3,4) s3] unfolding signed_nxdomain_def by blast
    with True show ?thesis by (simp add: signed_negative_def)
  next
    case False
    then have "signed_nodata r m q t ks now"
      using assms(1) n sn s3
      by (fastforce simp: validate_denial_def signed_nodata_def lists_neither_def nsec_proves_nodata_def
          nsec3_proves_nodata_def list_ex_iff n3_matches_at split: if_splits)
    with False show ?thesis by (simp add: signed_negative_def)
  qed
qed

end
