(* ===== verification/Chain_Facts.thy ===== *)
theory Chain_Facts
  imports Signed_Proofs
begin

unbundle bit_operations_syntax

text \<open>
  What the walk along the chain of trust establishes: it never panics on messages whose owner names are
  well formed, the keys it returns and the keys it caches are linked to the root anchors by signatures in
  the messages received, and an answer is called secure, or insecure, only on the strength of records in
  them that such keys sign.
\<close>

section \<open>The chain of trust\<close>

text \<open>A key set that signs itself with a key that a DS record names.\<close>

definition names_key :: "ring \<Rightarrow> name \<Rightarrow> ds \<Rightarrow> byte list \<Rightarrow> bool" where
  "names_key r owner d key \<longleftrightarrow> 4 \<le> length key \<and> key ! 3 = ds_algorithm d \<and> key_tag key = ds_key_tag d \<and>
     compute_ds_digest r owner key (ds_digest_type d) = Some (ds_digest d)"

definition anchored :: "ring \<Rightarrow> name \<Rightarrow> u32 \<Rightarrow> byte list set \<Rightarrow> byte list list \<Rightarrow> ds list \<Rightarrow> bool" where
  "anchored r owner now sigs ks tds \<longleftrightarrow>
     (\<exists>key \<in> set ks. (\<exists>d \<in> set tds. names_key r owner d key) \<and>
        (\<exists>sig \<in> sigs. sig_accepted r owner rtype_DNSKEY (as_unknown ks rtype_DNSKEY) now sig key))"

text \<open>
  The keys of a zone that the root anchors vouch for, link by link: the keys and the DS records of each
  link, and the signatures over them, stand in the answer sections of messages in \<open>M\<close>.
\<close>

definition rdatas_in :: "message \<Rightarrow> u16 \<Rightarrow> byte list list" where
  "rdatas_in m t = map (\<lambda>x. rdata_octets (rr_data x)) (filter (\<lambda>x. rr_type x = t) (answers m))"

inductive trusted :: "ring \<Rightarrow> message set \<Rightarrow> name \<Rightarrow> byte list list \<Rightarrow> bool" for r M where
  root: "m \<in> M \<Longrightarrow> anchored r name_root now (sigs_in (answers m)) (rdatas_in m rtype_DNSKEY) ROOT_ANCHORS \<Longrightarrow>
    trusted r M name_root (rdatas_in m rtype_DNSKEY)"
| cut: "trusted r M parent pk \<Longrightarrow> is_in_zone child parent = Some True \<Longrightarrow> m \<in> M \<Longrightarrow>
    signs r child rtype_DS (as_unknown (rdatas_in m rtype_DS) rtype_DS) now (sigs_in (answers m)) pk \<Longrightarrow> km \<in> M \<Longrightarrow>
    anchored r child now (sigs_in (answers km)) (rdatas_in km rtype_DNSKEY) (List.map_filter parse_ds (rdatas_in m rtype_DS)) \<Longrightarrow>
    trusted r M child (rdatas_in km rtype_DNSKEY)"
| same: "trusted r M z ks \<Longrightarrow> eq_ignore_ascii_case z z' \<Longrightarrow> trusted r M z' ks"

lemma split_section_in: "split_section (answers m) t = (rds, sigs) \<Longrightarrow> rds = rdatas_in m t \<and> set sigs \<subseteq> sigs_in (answers m)"
  using split_sigs [of "answers m" t] by (auto simp: split_section_def rdatas_in_def)

lemma dnskey_matches_names: "dnskey_matches_ds r owner key d \<longleftrightarrow> names_key r owner d key"
  by (auto simp: dnskey_matches_ds_def names_key_def split: option.splits)

lemma validate_dnskey_rrset_anchored:
  assumes "validate_dnskey_rrset r owner dnskeys sigs tds now = Some (Some ks)" "set sigs \<subseteq> S"
  shows "ks = dnskeys \<and> anchored r owner now S ks tds"
  using validate_dnskey_rrset_sound [OF assms(1)] assms(2) verify_rrsig_accepted
  unfolding anchored_def as_unknown_def dnskey_matches_names by blast

text \<open>Every key set in the cache is trusted.\<close>

definition keys_trusted :: "ring \<Rightarrow> message set \<Rightarrow> chain_state \<Rightarrow> bool" where
  "keys_trusted r M st \<longleftrightarrow> bounded_inv (dkeys (cs_cache st)) \<and>
     (\<forall>z k v e. valid_name z \<longrightarrow> key_of z = Some k \<longrightarrow> bounded_look (dkeys (cs_cache st)) k = Some (v, e) \<longrightarrow> trusted r M z v)"

lemma cached_keys_trusted:
  assumes "keys_trusted r M st" "valid_name z"
  obtains v st' where "cached_keys clk z st = Some (v, st')" "keys_trusted r M st'" "\<forall>ks. v = Some ks \<longrightarrow> trusted r M z ks"
proof -
  let ?b = "dkeys (cs_cache st)" and ?t = "clk (cs_reads st)"
  obtain k where k: "key_of z = Some k" using key_of_Some [OF assms(2)] by blast
  obtain v b' where g: "bounded_get k ?t ?b = (v, b')" by force
  have inv: "bounded_inv ?b" using assms(1) by (simp add: keys_trusted_def)
  have b': "bounded_inv b'" "\<And>k' x. bounded_look b' k' = Some x \<Longrightarrow> bounded_look ?b k' = Some x"
    using bounded_get_spec [OF inv, of k ?t] g by (auto split: if_splits)
  have v: "\<exists>e. bounded_look ?b k = Some (ks, e)" if "v = Some ks" for ks
    using bounded_get_spec(1) [OF inv, of k ?t] g that by (auto split: option.splits if_splits)
  show ?thesis
  proof (rule that)
    show "cached_keys clk z st = Some (v, \<lparr>cs_cache = (cs_cache st)\<lparr>dkeys := b'\<rparr>, cs_reads = cs_reads st + 1\<rparr>)"
      by (simp add: cached_keys_def dnskey_get_def k g)
    show "keys_trusted r M \<lparr>cs_cache = (cs_cache st)\<lparr>dkeys := b'\<rparr>, cs_reads = cs_reads st + 1\<rparr>"
      using assms(1) b' unfolding keys_trusted_def by fastforce
    show "\<forall>ks. v = Some ks \<longrightarrow> trusted r M z ks"
      using v assms k unfolding keys_trusted_def by blast
  qed
qed

lemma learn_keys_trusted:
  assumes "iterates iter" "keys_trusted r M st" "valid_name z" "trusted r M z ks"
  obtains st' where "learn_keys iter clk z ks ttl st = Some st'" "keys_trusted r M st'"
proof (cases "ks = []")
  case True
  with assms(2) that show ?thesis by (auto simp: learn_keys_def dnskey_learn_def keys_trusted_def)
next
  case False
  let ?b = "dkeys (cs_cache st)" and ?t = "clk (cs_reads st)"
  let ?e = "saturating_u32 (?t + clamp_ttl (unat ttl))"
  obtain k where k: "key_of z = Some k" using key_of_Some [OF assms(3)] by blast
  define b' where "b' = bounded_insert iter k ks ?e ?t ?b"
  have inv: "bounded_inv ?b" using assms(2) by (simp add: keys_trusted_def)
  note spec = bounded_insert_spec [OF assms(1) inv, where k = k and v = ks and e = ?e and now = ?t, folded b'_def]
  have tr: "trusted r M z' v" if "valid_name z'" "key_of z' = Some k'" "bounded_look b' k' = Some (v, e)" for z' k' v e
  proof (cases "k' = k")
    case True
    then have "eq_ignore_ascii_case z z'" using key_of_eq_iff [OF assms(3) that(1)] that(2) k by simp
    with True spec(1) that(3) assms(4) show ?thesis by (auto intro: trusted.same)
  next
    case False
    with spec(2) that assms(2) show ?thesis unfolding keys_trusted_def by blast
  qed
  show ?thesis
  proof (rule that)
    show "learn_keys iter clk z ks ttl st = Some \<lparr>cs_cache = (cs_cache st)\<lparr>dkeys := b'\<rparr>, cs_reads = cs_reads st + 1\<rparr>"
      using False by (simp add: learn_keys_def dnskey_learn_def k b'_def Let_def)
    show "keys_trusted r M \<lparr>cs_cache = (cs_cache st)\<lparr>dkeys := b'\<rparr>, cs_reads = cs_reads st + 1\<rparr>"
      using tr spec(3) by (simp add: keys_trusted_def)
  qed
qed

text \<open>The zone cuts: the ancestors of the zone, from just below the root down to it.\<close>

lemma delegation_loop_suffix:
  assumes "list_all label_ok ls" "k \<le> length ls"
  shows "delegation_loop (suffix_name ls k) up = Some (up @ map (suffix_name ls) [k..<length ls])"
  using assms(2)
proof (induction "length ls - k" arbitrary: k up)
  case 0
  then show ?case by (subst delegation_loop.simps) (simp add: suffix_name_def is_root_def)
next
  case (Suc d)
  then have k: "k < length ls" by simp
  then have "\<not> is_root (suffix_name ls k)" by (simp add: suffix_name_def)
  then have "delegation_loop (suffix_name ls k) up = delegation_loop (suffix_name ls (Suc k)) (up @ [suffix_name ls k])"
    using k by (subst delegation_loop.simps) (simp add: name_parent_suffix assms(1))
  with Suc.hyps(1) [of "Suc k"] Suc.hyps(2) k show ?case by (simp add: upt_conv_Cons)
qed

lemma eq_in_zone:
  assumes "valid_name a" "valid_name z" "eq_ignore_ascii_case a z"
  shows "is_in_zone a z = Some True"
proof -
  obtain ls where "a = suffix_name ls 0" "list_all label_ok ls" using assms(1) by (metis valid_nameE suffix_name_0)
  with in_zone_suffix [of ls z 0 0] assms(2,3) show ?thesis by simp
qed

definition below :: "name \<Rightarrow> name \<Rightarrow> bool" where
  "below a b \<longleftrightarrow> valid_name a \<and> valid_name b \<and> is_in_zone b a = Some True"

lemma delegation_path_below:
  assumes "valid_name zone"
  obtains path where "delegation_path zone = Some path" "sorted_wrt below (name_root # path @ [zone])"
proof -
  obtain ls where n: "zone = Name (wire_of ls)" "list_all label_ok ls" using assms by (elim valid_nameE)
  have v: "valid_name (suffix_name ls k)" for k using valid_suffix [OF _ n(2)] assms n(1) by simp
  have zr: "zone = suffix_name ls 0" "name_root = suffix_name ls (length ls)"
    by (simp_all add: n(1) suffix_name_0 suffix_name_def name_root_def)
  have b: "below (suffix_name ls m) (suffix_name ls i)" if "i \<le> m" "m \<le> length ls" for i m
    using in_zone_suffix [OF n(2) v _ that] v by (simp add: below_def eq_ignore_ascii_case_iff)
  show ?thesis
  proof (rule that)
    show "delegation_path zone = Some (map (suffix_name ls) (rev [0..<length ls]))"
      using delegation_loop_suffix [OF n(2), of 0 "[]"] zr(1) by (simp add: delegation_path_def rev_map)
    show "sorted_wrt below (name_root # map (suffix_name ls) (rev [0..<length ls]) @ [zone])"
      unfolding zr using b by (auto simp: sorted_wrt_append sorted_wrt_map sorted_wrt_rev
          intro!: sorted_wrt_mono_rel [OF _ sorted_wrt_upt])
  qed
qed

text \<open>What was fetched: messages of \<open>M\<close> with well-formed owner names.\<close>

definition pool_ok :: "message set \<Rightarrow> fetch_map \<Rightarrow> bool" where
  "pool_ok M pool \<longleftrightarrow> (\<forall>e \<in> set pool. \<forall>m. snd e = Some m \<longrightarrow> named m \<and> m \<in> M)"

definition fetch_ok :: "message set \<Rightarrow> fetcher \<Rightarrow> bool" where
  "fetch_ok M fetch \<longleftrightarrow> (\<forall>nm t m. fetch nm t = Some m \<longrightarrow> named m \<and> m \<in> M)"

lemma take_or_fetch_ok:
  "fetch_ok M fetch \<Longrightarrow> pool_ok M pool \<Longrightarrow> take_or_fetch fetch pool nm t = (v, pool') \<Longrightarrow>
     pool_ok M pool' \<and> (\<forall>m. v = Some m \<longrightarrow> named m \<and> m \<in> M)"
  by (auto simp: take_or_fetch_def pool_ok_def fetch_ok_def find_Some_iff split: option.splits)

text \<open>
  What each verdict of the walk rests on: keys of an enclosing zone, or a signed proof under such keys
  that a cut at or above the zone has no DS.
\<close>

definition proven_unsigned :: "ring \<Rightarrow> message set \<Rightarrow> name \<Rightarrow> u32 \<Rightarrow> bool" where
  "proven_unsigned r M zone now \<longleftrightarrow>
     (\<exists>parent pk child m. trusted r M parent pk \<and> below parent child \<and> below child zone \<and>
        m \<in> M \<and> rdatas_in m rtype_DS = [] \<and> signed_no_ds r m child pk now)"

definition justified :: "ring \<Rightarrow> message set \<Rightarrow> name \<Rightarrow> u32 \<Rightarrow> verdict \<Rightarrow> byte list list \<Rightarrow> bool" where
  "justified r M zone now v ks =
     (case v of
        Secure \<Rightarrow> \<exists>z. below z zone \<and> trusted r M z ks
      | Insecure \<Rightarrow> proven_unsigned r M zone now
      | Bogus \<Rightarrow> True)"

lemma justified_simps [simp]:
  "justified r M zone now Bogus ks"
  "justified r M zone now Secure ks \<longleftrightarrow> (\<exists>z. below z zone \<and> trusted r M z ks)"
  by (simp_all add: justified_def)

definition sound_result :: "ring \<Rightarrow> message set \<Rightarrow> name \<Rightarrow> u32 \<Rightarrow> ((verdict \<times> byte list list) \<times> chain_state) option \<Rightarrow> bool" where
  "sound_result r M zone now res \<longleftrightarrow>
     (\<exists>v ks st. res = Some ((v, ks), st) \<and> keys_trusted r M st \<and> justified r M zone now v ks)"

lemma sound_Bogus [simp]: "keys_trusted r M st \<Longrightarrow> sound_result r M zone now (Some ((Bogus, []), st))"
  by (simp add: sound_result_def)

lemma descend_sound:
  assumes "iterates iter" "fetch_ok M fetch"
  shows "sorted_wrt below (current # path @ [zone]) \<Longrightarrow> trusted r M current ks \<Longrightarrow> keys_trusted r M st \<Longrightarrow> pool_ok M pre \<Longrightarrow>
    sound_result r M zone now (descend r iter clk fetch now path current ks pre st)"
proof (induction path arbitrary: current ks pre st)
  case Nil
  then show ?case by (auto simp: descend.simps sound_result_def)
next
  case (Cons child path)
  have cc: "below current child" "below child zone" "sorted_wrt below (child # path @ [zone])"
    "sorted_wrt below (current # path @ [zone])" using Cons.prems(1) by auto
  then have vc: "valid_name child" by (simp add: below_def)
  obtain hit st1 where hit: "cached_keys clk child st = Some (hit, st1)" "keys_trusted r M st1"
    "\<forall>ck. hit = Some ck \<longrightarrow> trusted r M child ck" using Cons.prems(3) vc by (rule cached_keys_trusted)
  obtain ds_msg pre1 where d: "take_or_fetch fetch pre child rtype_DS = (ds_msg, pre1)" by force
  then have pre1: "pool_ok M pre1" "\<And>m. ds_msg = Some m \<Longrightarrow> named m \<and> m \<in> M" using take_or_fetch_ok [OF assms(2) Cons.prems(4)] by auto
  obtain ns_msg pre2 where n: "take_or_fetch fetch pre1 child rtype_NS = (ns_msg, pre2)" by force
  then have pre2: "pool_ok M pre2" using take_or_fetch_ok [OF assms(2) pre1(1)] by auto
  obtain km pre3 where km: "take_or_fetch fetch pre1 child rtype_DNSKEY = (km, pre3)" by force
  then have pre3: "pool_ok M pre3" "\<And>m. km = Some m \<Longrightarrow> m \<in> M" using take_or_fetch_ok [OF assms(2) pre1(1)] by auto
  note step = descend.simps(2) [of r iter clk fetch now child path current ks pre st]
  show ?case
  proof (cases "eq_ignore_ascii_case child current \<or> hit \<noteq> None \<or> ds_msg = None")
    case True
    then show ?thesis using Cons.IH [OF cc(4) Cons.prems(2-4)] Cons.IH [OF cc(3) _ hit(2) Cons.prems(4)] hit d
      by (cases hit) (auto simp: step)
  next
    case False
    then obtain m where m: "ds_msg = Some m" "named m" "m \<in> M" and hit0: "hit = None" using pre1(2) by auto
    obtain ds_rd ds_sig where sp: "split_section (answers m) rtype_DS = (ds_rd, ds_sig)" by force
    note in_m = split_section_in [OF sp]
    obtain proven where pr: "denial_secure r m child ks now = Some proven"
      using denial_secure_returns [OF m(2)] by (rule returnsE)
    obtain ok where ok: "validate_rrset r child class_IN rtype_DS (as_unknown ds_rd rtype_DS) ds_sig ks now = Some ok"
      using validate_rrset_returns [OF vc] by (rule returnsE)
    show ?thesis
    proof (cases "ds_rd = []")
      case True
      have "justified r M zone now Insecure []" if proven
      proof -
        have "signed_no_ds r m child ks now" using that pr by (simp add: denial_secure_sound)
        moreover have "rdatas_in m rtype_DS = []" using in_m True by simp
        ultimately have "proven_unsigned r M zone now"
          unfolding proven_unsigned_def using cc(1,2) Cons.prems(2) m(3) by blast
        then show ?thesis by (simp add: justified_def)
      qed
      with True show ?thesis using False hit0 m(1) hit d sp n pr Cons.IH [OF cc(4) Cons.prems(2) hit(2) pre2]
        by (simp add: step sound_result_def)
    next
      case rd: False
      show ?thesis
      proof (cases "ok \<and> km \<noteq> None")
        case True
        then obtain kmsg where kmsg: "km = Some kmsg" and ok1: ok by auto
        obtain ck cs where sk: "split_section (answers kmsg) rtype_DNSKEY = (ck, cs)" by force
        note in_k = split_section_in [OF sk]
        obtain v where v: "validate_dnskey_rrset r child ck cs (List.map_filter parse_ds ds_rd) now = Some v"
          using validate_dnskey_rrset_returns [OF vc] by (rule returnsE)
        note res = step hit0 m(1) hit(1) d sp rd ok ok1 km kmsg sk v
        show ?thesis
        proof (cases v)
          case None
          with hit(2) False show ?thesis by (simp add: res)
        next
          case (Some child_keys)
          have "signs r child rtype_DS (as_unknown (rdatas_in m rtype_DS) rtype_DS) now (sigs_in (answers m)) ks"
            using validate_rrset_signed [of r child rtype_DS] ok ok1 in_m by simp
          moreover have "child_keys = rdatas_in kmsg rtype_DNSKEY" "anchored r child now (sigs_in (answers kmsg))
              (rdatas_in kmsg rtype_DNSKEY) (List.map_filter parse_ds (rdatas_in m rtype_DS))"
            using validate_dnskey_rrset_anchored [of r child ck cs _ now child_keys] v Some in_k in_m by auto
          ultimately have "trusted r M child child_keys"
            using trusted.cut [OF Cons.prems(2) _ m(3) _ pre3(2)] cc(1) kmsg by (auto simp: below_def)
          moreover from learn_keys_trusted [OF assms(1) hit(2) vc this] obtain st2 where
            "learn_keys iter clk child child_keys (dnskey_cache_ttl (dnskey_ttl (answers kmsg)) cs now) st1 = Some st2"
            "keys_trusted r M st2" .
          ultimately show ?thesis using Cons.IH [OF cc(3) _ _ pre3(1)] False Some by (simp add: res)
        qed
      next
        case bad: False
        with hit(2) False show ?thesis by (cases ok) (auto simp: step hit0 m(1) hit(1) d sp rd ok km)
      qed
    qed
  qed
qed


text \<open>The keys fetched ahead change nothing: the pool holds what the fetcher returned.\<close>

lemma prefetch_keys_trusted:
  "keys_trusted r M st \<Longrightarrow> list_all valid_name path \<Longrightarrow>
     \<exists>fk st'. prefetch_keys clk path st = Some (fk, st') \<and> keys_trusted r M st'"
proof (induction path arbitrary: st)
  case (Cons child path)
  have "valid_name child" using Cons.prems(2) by simp
  obtain v st1 where 1: "cached_keys clk child st = Some (v, st1)" "keys_trusted r M st1"
    by (rule cached_keys_trusted [OF Cons.prems(1) \<open>valid_name child\<close>])
  from Cons.IH [OF 1(2)] Cons.prems(2) obtain fk st2 where "prefetch_keys clk path st1 = Some (fk, st2)" "keys_trusted r M st2"
    by auto
  with 1(1) show ?case by simp
qed simp

lemma pool_ok_fold: "fetch_ok M fetch \<Longrightarrow> pool_ok M pool \<Longrightarrow> pool_ok M (fold (\<lambda>(nm, t). fetch_insert ((nm, t), fetch nm t)) fks pool)"
proof (induction fks arbitrary: pool)
  case (Cons fk fks)
  have "pool_ok M (fetch_insert (fk, fetch (fst fk) (snd fk)) pool)"
    using Cons.prems by (auto simp: pool_ok_def fetch_ok_def fetch_insert_def)
  from Cons.IH [OF Cons.prems(1) this] show ?case by (simp add: case_prod_beta)
qed simp

lemma root_keys_sound:
  assumes "iterates iter" "fetch_ok M fetch" "keys_trusted r M st" "pool_ok M pre"
  obtains ks pre' st' where "root_keys r iter clk fetch now pre st = Some (ks, pre', st')" "pool_ok M pre'"
    "keys_trusted r M st'" "\<forall>k. ks = Some k \<longrightarrow> trusted r M name_root k"
proof -
  obtain rk st1 where c: "cached_keys clk name_root st = Some (rk, st1)" "keys_trusted r M st1"
    "\<forall>ks. rk = Some ks \<longrightarrow> trusted r M name_root ks" using assms(3) valid_name_root by (rule cached_keys_trusted)
  obtain msg pre1 where t: "take_or_fetch fetch pre name_root rtype_DNSKEY = (msg, pre1)" by force
  then have pre1: "pool_ok M pre1" "\<And>m. msg = Some m \<Longrightarrow> m \<in> M" using take_or_fetch_ok [OF assms(2,4)] by auto
  show ?thesis
  proof (cases "rk = None \<and> msg \<noteq> None")
    case True
    then obtain m where m: "msg = Some m" by auto
    obtain ks rs where sp: "split_section (answers m) rtype_DNSKEY = (ks, rs)" by force
    obtain v where v: "validate_dnskey_rrset r name_root ks rs ROOT_ANCHORS now = Some v"
      using validate_dnskey_rrset_returns [OF valid_name_root] by (rule returnsE)
    show ?thesis
    proof (cases v)
      case None
      with True m sp v c t pre1 that show ?thesis by (simp add: root_keys_def)
    next
      case (Some ks')
      then have tr: "trusted r M name_root ks'"
        using v validate_dnskey_rrset_anchored [of r name_root ks rs ROOT_ANCHORS now ks' "sigs_in (answers m)"]
          split_section_in [OF sp] trusted.root [OF pre1(2) [OF m], of r now] by auto
      from learn_keys_trusted [OF assms(1) c(2) valid_name_root this] obtain st2 where
        "learn_keys iter clk name_root ks' (dnskey_cache_ttl (dnskey_ttl (answers m)) rs now) st1 = Some st2"
        "keys_trusted r M st2" .
      with True m sp v c(1) t pre1 Some tr that show ?thesis by (simp add: root_keys_def)
    qed
  next
    case False
    with c t pre1 assms(4) that show ?thesis by (cases rk) (auto simp: root_keys_def)
  qed
qed

lemma trusted_keys_for_sound:
  assumes "iterates iter" "fetch_ok M fetch" "valid_name zone" "keys_trusted r M st"
  shows "sound_result r M zone now (trusted_keys_for r iter clk fetch zone now st)"
proof -
  obtain hit st1 where h: "cached_keys clk zone st = Some (hit, st1)" "keys_trusted r M st1"
    "\<forall>ks. hit = Some ks \<longrightarrow> trusted r M zone ks" using assms(4,3) by (rule cached_keys_trusted)
  show ?thesis
  proof (cases hit)
    case None
    obtain path where path: "delegation_path zone = Some path" "sorted_wrt below (name_root # path @ [zone])"
      using assms(3) by (rule delegation_path_below)
    obtain rv st2 where rv: "cached_keys clk name_root st1 = Some (rv, st2)" "keys_trusted r M st2"
      by (rule cached_keys_trusted [OF h(2) valid_name_root])
    have "list_all valid_name path" using path(2) by (auto simp: list_all_iff below_def)
    with prefetch_keys_trusted [OF rv(2)] obtain fk st3 where
      pf: "prefetch_keys clk path st2 = Some (fk, st3)" "keys_trusted r M st3" by blast
    let ?fks = "(if rv = None then [(name_root, rtype_DNSKEY)] else []) @ fk"
    have "pool_ok M (fold (\<lambda>(nm, t). fetch_insert ((nm, t), fetch nm t)) ?fks [])"
      by (intro pool_ok_fold assms(2)) (simp add: pool_ok_def)
    with assms(1,2) pf(2) obtain ks pre st4 where
      rk: "root_keys r iter clk fetch now (fold (\<lambda>(nm, t). fetch_insert ((nm, t), fetch nm t)) ?fks []) st3 = Some (ks, pre, st4)"
      "pool_ok M pre" "keys_trusted r M st4" "\<forall>k. ks = Some k \<longrightarrow> trusted r M name_root k" by (rule root_keys_sound)
    have "trusted_keys_for r iter clk fetch zone now st =
        (case ks of None \<Rightarrow> Some ((Bogus, []), st4) | Some ks \<Rightarrow> descend r iter clk fetch now path name_root ks pre st4)"
      using h(1) None path(1) rv(1) pf(1) rk(1) by (simp add: trusted_keys_for_def)
    then show ?thesis using descend_sound [OF assms(1,2) path(2) _ rk(3,2)] rk(3,4) by (cases ks) simp_all
  next
    case (Some ks)
    with h assms(3) show ?thesis
      by (auto simp: trusted_keys_for_def sound_result_def below_def eq_in_zone eq_ignore_ascii_case_iff)
  qed
qed



text \<open>
  A sample chain: a library that accepts every signature, a root key that the first anchor names and
  that is cached, a cut \<open>a.\<close> with a signed NSEC that lists NS only, and an address record of \<open>a.\<close> signed in the root zone.
\<close>

definition sample_ring :: ring where
  "sample_ring = toy_ring\<lparr>ring_sha256 := \<lambda>_. ROOT_KSK_2017, ring_rsa_verify := \<lambda>_ _ _ _ _. True\<rparr>"

definition sample_sig :: "u16 \<Rightarrow> byte \<Rightarrow> byte list" where
  "sample_sig t l = [ucast (drop_bit 8 t), ucast t, 8, l, 0, 0, 0, 60, 0, 0, 0, 10, 0, 0, 0, 0, 0, 0, 0]"

definition sample_rr :: "name \<Rightarrow> u16 \<Rightarrow> rdata \<Rightarrow> rr" where
  "sample_rr nm t rd = \<lparr>rr_name = nm, rr_type = t, rr_class = class_IN, rr_ttl = 60, rr_data = rd\<rparr>"

definition sample_raw :: "name \<Rightarrow> u16 \<Rightarrow> byte list \<Rightarrow> rr" where
  "sample_raw nm t data = sample_rr nm t (Unknown t data)"

definition sample_msg :: "rr list \<Rightarrow> rr list \<Rightarrow> message" where
  "sample_msg ans auth = \<lparr>msg_header = header_default, questions = [], answers = ans, authority = auth, additional = []\<rparr>"

definition sample_fetch :: fetcher where
  "sample_fetch nm t =
     (let a = Name [1, 97, 0] in
      if t = rtype_DNSKEY then Some (sample_msg
        [sample_raw name_root rtype_DNSKEY [0x4A, 0x5D, 3, 8, 1, 1, 1], sample_raw name_root rtype_RRSIG (sample_sig rtype_DNSKEY 0)] [])
      else if t = rtype_DS then Some (sample_msg []
        [sample_raw a rtype_NSEC [0, 0, 1, 0x20], sample_raw a rtype_RRSIG (sample_sig rtype_NSEC 1)])
      else if t = rtype_NS then Some (sample_msg [sample_rr a rtype_NS (Ns name_root)] [])
      else None)"

definition sample_answer :: message where
  "sample_answer = sample_msg [sample_rr (Name [1, 97, 0]) rtype_A (A 1), sample_raw (Name [1, 97, 0]) rtype_RRSIG (sample_sig rtype_A 1)] []"

definition sample_messages :: "message set" where
  "sample_messages = insert sample_answer {m. \<exists>nm t. sample_fetch nm t = Some m}"

lemma sample_fetch_ok: "fetch_ok sample_messages sample_fetch"
proof -
  have v: "valid_name (Name [1, 97, 0])" "valid_name name_root" by code_simp+
  have "named m" if "sample_fetch nm t = Some m" for nm t m
    using that v by (auto simp: sample_fetch_def named_def sample_msg_def sample_rr_def sample_raw_def Let_def split: if_splits)
  then show ?thesis by (auto simp: fetch_ok_def sample_messages_def)
qed

definition sample_walk_state :: "u64 \<Rightarrow> nat \<Rightarrow> chain_state" where
  "sample_walk_state u n = \<lparr>cs_cache = \<lparr>cuts = bounded_new 1, dkeys = \<lparr>bmap = [([46], \<lparr>expiry = 1, used = u, val = [[0x4A, 0x5D, 3, 8, 1, 1, 1]]\<rparr>)],
     bcap = 1, btick = of_nat n\<rparr>\<rparr>, cs_reads = n\<rparr>"

lemma sample_root_trusted: "trusted sample_ring sample_messages name_root [[0x4A, 0x5D, 3, 8, 1, 1, 1]]"
proof -
  let ?k = "[0x4A, 0x5D, 3, 8, 1, 1, 1] :: byte list" and ?s = "sample_sig rtype_DNSKEY 0"
  define m where "m = the (sample_fetch name_root rtype_DNSKEY)"
  have "names_key sample_ring name_root (ROOT_ANCHORS ! 0) ?k"
    "verify_rrsig sample_ring name_root class_IN rtype_DNSKEY (as_unknown [?k] rtype_DNSKEY) ?s ?k 5 = Some True" by code_simp+
  moreover have "ROOT_ANCHORS ! 0 \<in> set ROOT_ANCHORS" by (simp add: ROOT_ANCHORS_def)
  moreover have m: "m \<in> sample_messages" "rdatas_in m rtype_DNSKEY = [?k]" "?s \<in> sigs_in (answers m)"
    by (auto simp: m_def sample_messages_def sample_fetch_def Let_def sample_msg_def rdatas_in_def sample_rr_def sample_raw_def sigs_in_def opaque_def
        rdata_octets_def enc_uncompressed_def intro!: exI [of _ rtype_DNSKEY])
  ultimately have "anchored sample_ring name_root 5 (sigs_in (answers m)) (rdatas_in m rtype_DNSKEY) ROOT_ANCHORS"
    unfolding anchored_def using verify_rrsig_accepted by fastforce
  from trusted.root [OF m(1) this] m(2) show ?thesis by simp
qed

lemma sample_walk_trusted: "keys_trusted sample_ring sample_messages (sample_walk_state u n)"
proof -
  have k: "key_of name_root = Some [46]" by code_simp
  have "trusted sample_ring sample_messages z [[0x4A, 0x5D, 3, 8, 1, 1, 1]]" if "valid_name z" "key_of z = Some [46]" for z
    using trusted.same [OF sample_root_trusted] key_of_eq_iff [OF valid_name_root that(1)] k that(2) by simp
  then show ?thesis
    by (auto simp: keys_trusted_def sample_walk_state_def bounded_inv_def bounded_look_def split: if_splits)
qed

lemma trusted_keys_for_steps:
  assumes "cached_keys clk zone st = Some (None, st1)" "delegation_path zone = Some path" "cached_keys clk name_root st1 = Some (rv, st2)"
    "prefetch_keys clk path st2 = Some (rest, st3)"
    "root_keys r iter clk fetch now (fold (\<lambda>(nm, t). fetch_insert ((nm, t), fetch nm t))
       ((if rv = None then [(name_root, rtype_DNSKEY)] else []) @ rest) []) st3 = Some (Some ks, pre, st4)"
  shows "trusted_keys_for r iter clk fetch zone now st = descend r iter clk fetch now path name_root ks pre st4"
  using assms by (simp add: trusted_keys_for_def)

lemma sample_walk:
  "\<exists>st. trusted_keys_for sample_ring (\<lambda>xs. xs) (\<lambda>_. 0) sample_fetch (Name [1, 97, 0]) 5 (sample_walk_state 0 0) = Some ((Insecure, []), st)"
proof -
  let ?a = "Name [1, 97, 0]" and ?clk = "\<lambda>_ :: nat. 0 :: nat" and ?k = "[[0x4A, 0x5D, 3, 8, 1, 1, 1]] :: byte list list"
  let ?pre = "[((?a, rtype_DNSKEY), sample_fetch ?a rtype_DNSKEY), ((?a, rtype_DS), sample_fetch ?a rtype_DS)]"
  have c: "cached_keys ?clk ?a (sample_walk_state 0 0) = Some (None, sample_walk_state 0 1)" by code_simp
  have d: "delegation_path ?a = Some [?a]" by code_simp
  have n: "cached_keys ?clk name_root (sample_walk_state 0 1) = Some (Some ?k, sample_walk_state 2 2)" by code_simp
  have p: "prefetch_keys ?clk [?a] (sample_walk_state 2 2) = Some ([(?a, rtype_DS), (?a, rtype_DNSKEY)], sample_walk_state 2 3)" by code_simp
  have f: "fold (\<lambda>(nm, t). fetch_insert ((nm, t), sample_fetch nm t)) [(?a, rtype_DS), (?a, rtype_DNSKEY)] [] = ?pre" by code_simp
  have g: "cached_keys ?clk name_root (sample_walk_state 2 3) = Some (Some ?k, sample_walk_state 4 4)" by code_simp
  have "root_keys sample_ring (\<lambda>xs. xs) ?clk sample_fetch 5 ?pre (sample_walk_state 2 3) = Some (Some ?k, ?pre, sample_walk_state 4 4)"
    by (simp add: root_keys_def g)
  then have "trusted_keys_for sample_ring (\<lambda>xs. xs) ?clk sample_fetch ?a 5 (sample_walk_state 0 0) =
      descend sample_ring (\<lambda>xs. xs) ?clk sample_fetch 5 [?a] name_root ?k ?pre (sample_walk_state 4 4)"
    using f by (intro trusted_keys_for_steps [OF c d n p]) simp
  moreover have "descend sample_ring (\<lambda>xs. xs) ?clk sample_fetch 5 [?a] name_root ?k ?pre (sample_walk_state 4 4) =
    Some ((Insecure, []), sample_walk_state 4 5)" by code_simp
  ultimately show ?thesis by simp
qed


section \<open>The verdict on an answer\<close>

lemma rrsig_signers_valid: "z \<in> set (rrsig_signers rs) \<Longrightarrow> valid_name z"
  by (auto simp: rrsig_signers_def rrsig_signer_def map_filter_def parse_rrsig_signer split: option.splits)

lemma answer_zone_returns [no_panic]: "valid_name q \<Longrightarrow> returns (answer_zone msg q)"
  unfolding answer_zone_def by (intro find_opt_returns no_panic) (auto dest: rrsig_signers_valid)

lemma zone_apex_valid: "zone_apex msg = Some z \<Longrightarrow> valid_name z"
  unfolding zone_apex_def by (auto split: list.splits) (metis list.set_intros(1) rrsig_signers_valid)

lemma signing_zone_returns [no_panic]: "valid_name q \<Longrightarrow> returns (signing_zone msg q)"
  unfolding signing_zone_def by (auto intro!: no_panic split: option.split dest: zone_apex_valid)

lemma signing_zone_below: "signing_zone msg q = Some (Some z) \<Longrightarrow> valid_name q \<Longrightarrow> below z q"
  unfolding signing_zone_def answer_zone_def below_def
  by (auto split: bind_splits option.splits if_splits dest!: find_opt_mem dest: rrsig_signers_valid zone_apex_valid)

lemma inbailiwick_soa_returns [no_panic]: "named msg \<Longrightarrow> valid_name q \<Longrightarrow> returns (inbailiwick_soa msg q)"
  unfolding inbailiwick_soa_def named_def by (intro filter_map_opt_returns) (auto intro!: no_panic)

lemma validated_negative_authority_returns [no_panic]:
  "named msg \<Longrightarrow> valid_name zone \<Longrightarrow> returns (validated_negative_authority r msg zone ks now)"
  unfolding validated_negative_authority_def named_def
  by (auto simp: Let_def intro!: no_panic filter_map_opt_returns split: prod.split)

lemma or_else_returns [no_panic]: "returns a \<Longrightarrow> returns b \<Longrightarrow> returns (or_else a b)"
  by (auto simp: or_else_def intro!: no_panic)

lemma validate_denial_returns [no_panic]:
  "named msg \<Longrightarrow> valid_name q \<Longrightarrow> valid_name zone \<Longrightarrow> returns (validate_denial r msg q qt zone ks now)"
  unfolding validate_denial_def by (auto intro!: no_panic dest: collect_nsec_valid)

lemma proves_no_exact_match_returns [no_panic]:
  "named msg \<Longrightarrow> valid_name q \<Longrightarrow> returns (proves_no_exact_match r msg q zone ks now)"
  unfolding proves_no_exact_match_def by (auto intro!: no_panic dest: collect_nsec_valid)

text \<open>The SOA records served with a secure denial are signed, and nothing else than records of a denial in the zone is served.\<close>

lemma negative_authority_sound:
  assumes "validated_negative_authority r msg zone ks now = Some auth" "valid_name zone" "named msg" "x \<in> set auth"
  shows "x \<in> set (authority msg) \<and> is_in_zone (rr_name x) zone = Some True \<and>
    rr_type x \<in> {rtype_SOA, rtype_NSEC, rtype_NSEC3, rtype_RRSIG} \<and>
    (rr_type x = rtype_SOA \<longrightarrow> eq_ignore_ascii_case (rr_name x) zone \<and>
       signs r zone rtype_SOA (map rr_data (owned zone rtype_SOA (authority msg))) now (sigs_in (authority msg)) ks)"
proof -
  let ?soas = "owned zone rtype_SOA (authority msg)"
  let ?f = "\<lambda>x. if rr_type x = rtype_NSEC \<or> rr_type x = rtype_NSEC3 \<or> rr_type x = rtype_RRSIG
    then map_option (\<lambda>inz. if inz then Some x else None) (is_in_zone (rr_name x) zone) else Some None"
  from assms(1) obtain ok proofs where p: "auth = (if ok then ?soas else []) @ proofs"
    "filter_map_opt ?f (authority msg) = Some proofs"
    "(if ?soas = [] then Some False
      else validate_rrset r zone class_IN rtype_SOA (map rr_data ?soas) (snd (split_section (authority msg) rtype_SOA)) ks now) = Some ok"
    by (auto simp: validated_negative_authority_def Let_def owned_def [symmetric] case_prod_beta split: bind_splits)
  show ?thesis
  proof (cases "x \<in> set proofs")
    case True
    then show ?thesis unfolding filter_map_opt_mem [OF p(2)] by (auto split: if_splits)
  next
    case False
    with p(1) assms(4) have x: "ok" "x \<in> set ?soas" by (auto split: if_splits)
    then have "signs r zone rtype_SOA (map rr_data ?soas) now (sigs_in (authority msg)) ks"
      using p(3) validate_rrset_signed [OF _ split_sigs] by (auto split: if_splits)
    moreover have "x \<in> set (authority msg)" "eq_ignore_ascii_case (rr_name x) zone" "rr_type x = rtype_SOA" using x(2) by (auto simp: owned_def)
    moreover from this have "is_in_zone (rr_name x) zone = Some True"
      using assms(2,3) eq_in_zone by (auto simp: named_def)
    ultimately show ?thesis by blast
  qed
qed


text \<open>An accepted signature, and whether it was made for a wildcard.\<close>

definition signed_exactly :: "ring \<Rightarrow> name \<Rightarrow> u16 \<Rightarrow> rdata list \<Rightarrow> u32 \<Rightarrow> byte list set \<Rightarrow> byte list list \<Rightarrow> bool" where
  "signed_exactly r owner t rds now sigs ks \<longleftrightarrow>
     (\<exists>sig \<in> sigs. \<exists>key \<in> set ks. sig_accepted r owner t rds now sig key \<and>
        (\<forall>s. parse_rrsig sig = Some s \<longrightarrow> length (labels owner) \<le> unat (sig_labels s)))"

lemma rrsig_labels_parsed: "parse_rrsig sig = Some s \<Longrightarrow> rrsig_labels_field sig = Some (sig_labels s)"
  by (auto simp: parse_rrsig_def rrsig_labels_field_def Let_def split: if_splits sum.splits)

lemma validate_rrset_wc_exact:
  "validate_rrset_wc r owner class_IN t rds sigs ks now = Some (Some False) \<Longrightarrow> valid_name owner \<Longrightarrow> set sigs \<subseteq> S \<Longrightarrow>
     signed_exactly r owner t rds now S ks"
  unfolding validate_rrset_wc_def
proof (induction sigs)
  case (Cons sig sigs)
  obtain b where b: "any_opt (\<lambda>key. verify_rrsig r owner class_IN t rds sig key now) ks = Some b"
    using Cons.prems(1) by (auto split: bind_splits)
  show ?case
  proof (cases b)
    case True
    with Cons.prems b have "\<forall>l. rrsig_labels_field sig = Some l \<longrightarrow> length (labels owner) \<le> unat l"
      by (auto simp: label_count_valid split: option.splits)
    then have "\<forall>s. parse_rrsig sig = Some s \<longrightarrow> length (labels owner) \<le> unat (sig_labels s)" using rrsig_labels_parsed by blast
    moreover obtain key where "key \<in> set ks" "verify_rrsig r owner class_IN t rds sig key now = Some True"
      using any_opt_True [of "\<lambda>key. verify_rrsig r owner class_IN t rds sig key now" ks] b True by auto
    moreover have "sig \<in> S" using Cons.prems(3) by simp
    ultimately show ?thesis unfolding signed_exactly_def using verify_rrsig_accepted by blast
  next
    case False
    with Cons b show ?thesis by simp
  qed
qed simp

text \<open>
  A record set of the answer section that is secure: signed under its own name, or under a wildcard and
  with signed proof that the name itself does not exist.
\<close>

definition rrset_secure :: "ring \<Rightarrow> name \<Rightarrow> u16 \<Rightarrow> message \<Rightarrow> u32 \<Rightarrow> name \<Rightarrow> byte list list \<Rightarrow> bool" where
  "rrset_secure r q t msg now zone ks \<longleftrightarrow>
     (let rds = map rr_data (owned q t (answers msg)); sigs = sigs_in (answers msg) in
      signed_exactly r q t rds now sigs ks \<or> signs r q t rds now sigs ks \<and> signed_no_name r msg q zone ks now)"

text \<open>
  What a secure verdict under the keys of a zone rests on: the record set asked for, or the CNAME when
  there is none, or else signed proof that there is neither. The records handed on with a denial.
\<close>

definition denial_records :: "ring \<Rightarrow> message \<Rightarrow> u32 \<Rightarrow> name \<Rightarrow> byte list list \<Rightarrow> rr list \<Rightarrow> bool" where
  "denial_records r msg now zone ks auth \<longleftrightarrow>
     (\<forall>x \<in> set auth. x \<in> set (authority msg) \<and> is_in_zone (rr_name x) zone = Some True \<and>
        rr_type x \<in> {rtype_SOA, rtype_NSEC, rtype_NSEC3, rtype_RRSIG} \<and>
        (rr_type x = rtype_SOA \<longrightarrow> eq_ignore_ascii_case (rr_name x) zone \<and>
           signs r zone rtype_SOA (map rr_data (owned zone rtype_SOA (authority msg))) now (sigs_in (authority msg)) ks))"

definition data_secure :: "ring \<Rightarrow> name \<Rightarrow> u16 \<Rightarrow> message \<Rightarrow> u32 \<Rightarrow> name \<Rightarrow> byte list list \<Rightarrow> rr list \<Rightarrow> bool" where
  "data_secure r q qt msg now zone ks auth =
     (if owned q qt (answers msg) \<noteq> [] then rrset_secure r q qt msg now zone ks \<and> auth = []
      else if owned q rtype_CNAME (answers msg) \<noteq> [] then rrset_secure r q rtype_CNAME msg now zone ks \<and> auth = []
      else signed_negative r msg q qt zone ks now \<and> denial_records r msg now zone ks auth)"

lemma validate_data_positive:
  assumes "named msg" "valid_name q" "valid_name zone" "answer_type msg q qt = Some t"
  obtains v where "validate_data r q qt msg now zone ks = Some (v, [])" "v \<noteq> Insecure"
    "v = Secure \<Longrightarrow> rrset_secure r q t msg now zone ks"
proof -
  let ?rds = "map rr_data (owned q t (answers msg))" and ?S = "sigs_in (answers msg)"
  obtain w where w: "validate_rrset_wc r q class_IN t ?rds (snd (split_section (answers msg) t)) ks now = Some w"
    using validate_rrset_wc_returns [OF assms(2)] by (rule returnsE)
  obtain p where p: "proves_no_exact_match r msg q zone ks now = Some p"
    using proves_no_exact_match_returns [OF assms(1,2)] by (rule returnsE)
  have sg: "signs r q t ?rds now ?S ks" if "w = Some b" for b using w that validate_rrset_wc_signed [OF _ split_sigs] by blast
  have ex: "signed_exactly r q t ?rds now ?S ks" if "w = Some False" using w that validate_rrset_wc_exact [OF _ assms(2) split_sigs] by blast
  have nn: "signed_no_name r msg q zone ks now" if p using p that proves_no_exact_match_sound [OF _ assms(1-3)] by simp
  consider "w = None" | "w = Some False" | "w = Some True" by (cases w) auto
  then show ?thesis
    by cases (rule that [of "if w = None \<or> w = Some True \<and> \<not> p then Bogus else Secure"];
      use assms(4) w p sg ex nn in \<open>auto simp: validate_data_def rrset_secure_def Let_def split: if_splits\<close>)+
qed

lemma validate_data_sound:
  assumes "named msg" "valid_name q" "valid_name zone"
  obtains v auth where "validate_data r q qt msg now zone ks = Some (v, auth)" "v \<noteq> Insecure"
    "v = Bogus \<Longrightarrow> auth = []" "v = Secure \<Longrightarrow> data_secure r q qt msg now zone ks auth"
proof (cases "answer_type msg q qt")
  case (Some t)
  then obtain v where "validate_data r q qt msg now zone ks = Some (v, [])" "v \<noteq> Insecure"
    "v = Secure \<longrightarrow> rrset_secure r q t msg now zone ks" using validate_data_positive [OF assms] by metis
  with Some that show ?thesis by (auto simp: data_secure_def answer_type_def split: if_splits)
next
  case None
  obtain d where d: "validate_denial r msg q qt zone ks now = Some d"
    using validate_denial_returns [OF assms] by (rule returnsE)
  obtain auth where a: "validated_negative_authority r msg zone ks now = Some auth"
    using validated_negative_authority_returns [OF assms(1,3)] by (rule returnsE)
  have dr: "denial_records r msg now zone ks auth"
    using negative_authority_sound [OF a assms(3,1)] unfolding denial_records_def by blast
  have "signed_negative r msg q qt zone ks now" if d using d that validate_denial_sound [OF _ assms] by simp
  with dr have "data_secure r q qt msg now zone ks auth" if d
    using that None by (auto simp: data_secure_def answer_type_def split: if_splits)
  with None d a show ?thesis
    by (intro that [of "if d then Secure else Bogus" "if d then auth else []"]) (auto simp: validate_data_def split: if_splits)
qed

lemma inbailiwick_soa_mem:
  "inbailiwick_soa msg q = Some soa \<Longrightarrow> x \<in> set soa \<Longrightarrow>
     x \<in> set (authority msg) \<and> rr_type x = rtype_SOA \<and> is_in_zone q (rr_name x) = Some True"
  unfolding inbailiwick_soa_def by (auto simp: filter_map_opt_mem split: if_splits)

lemma below_refl: "valid_name q \<Longrightarrow> below q q"
  by (simp add: below_def eq_in_zone eq_ignore_ascii_case_iff)

lemma validate_full_verdict:
  assumes "iterates iter" "fetch_ok M fetch" "named msg" "valid_name q" "keys_trusted r M st"
  shows "\<exists>v auth st'. validate_full r iter clk fetch q qt msg now st = Some ((v, auth), st') \<and> keys_trusted r M st' \<and>
    (v = Bogus \<longrightarrow> auth = []) \<and>
    (v = Secure \<longrightarrow> (\<exists>z zone ks. below z zone \<and> below zone q \<and> trusted r M z ks \<and> data_secure r q qt msg now zone ks auth)) \<and>
    (v = Insecure \<longrightarrow> set auth \<subseteq> {x \<in> set (authority msg). rr_type x = rtype_SOA \<and> is_in_zone q (rr_name x) = Some True} \<and>
       (\<exists>zone. below zone q \<and> proven_unsigned r M zone now))"
proof -
  obtain soa where soa: "inbailiwick_soa msg q = Some soa"
    using inbailiwick_soa_returns [OF assms(3,4)] by (rule returnsE)
  then have soa_in: "set soa \<subseteq> {x \<in> set (authority msg). rr_type x = rtype_SOA \<and> is_in_zone q (rr_name x) = Some True}"
    using inbailiwick_soa_mem by blast
  obtain sz where sz: "signing_zone msg q = Some sz" using signing_zone_returns [OF assms(4)] by (rule returnsE)
  show ?thesis
  proof (cases sz)
    case None
    have "returns (case soa_owner msg of None \<Rightarrow> Some q | Some z \<Rightarrow> map_option (\<lambda>inz. if inz then z else q) (is_in_zone q z))"
      and v: "soa_owner msg = Some z \<Longrightarrow> valid_name z" for z
      using assms(3,4) by (auto simp: soa_owner_def named_def find_Some_iff split: option.split intro!: no_panic)
    then obtain z where z: "(case soa_owner msg of None \<Rightarrow> Some q | Some z \<Rightarrow> map_option (\<lambda>inz. if inz then z else q) (is_in_zone q z)) = Some z"
      by (elim returnsE)
    then have b: "below z q" using assms(4) v below_refl by (auto simp: below_def split: option.splits if_splits)
    then obtain w ks st' where t: "trusted_keys_for r iter clk fetch z now st = Some ((w, ks), st')" "keys_trusted r M st'"
      "justified r M z now w ks"
      using trusted_keys_for_sound [OF assms(1,2) _ assms(5)] unfolding sound_result_def below_def by blast
    show ?thesis using None sz z t soa soa_in b by (cases w) (auto simp: validate_full_def justified_def)
  next
    case (Some zone)
    then have b: "below zone q" "valid_name zone" using signing_zone_below assms(4) sz by (auto simp: below_def)
    then obtain w ks st' where t: "trusted_keys_for r iter clk fetch zone now st = Some ((w, ks), st')" "keys_trusted r M st'"
      "justified r M zone now w ks" using trusted_keys_for_sound [OF assms(1,2) _ assms(5)] unfolding sound_result_def by blast
    obtain v auth where d: "validate_data r q qt msg now zone ks = Some (v, auth)" "v \<noteq> Insecure"
      "v = Bogus \<longrightarrow> auth = []" "v = Secure \<longrightarrow> data_secure r q qt msg now zone ks auth"
      using validate_data_sound [OF assms(3,4) b(2)] by metis
    show ?thesis using Some sz t soa soa_in d b(1) by (cases w) (auto simp: validate_full_def justified_def)
  qed
qed


lemma sample_verdict:
  "\<exists>st. validate_full sample_ring (\<lambda>xs. xs) (\<lambda>_. 0) sample_fetch (Name [1, 97, 0]) rtype_A sample_answer 5 (sample_walk_state 0 0) =
     Some ((Secure, []), st)"
proof -
  let ?k = "[[0x4A, 0x5D, 3, 8, 1, 1, 1]] :: byte list list"
  have "signing_zone sample_answer (Name [1, 97, 0]) = Some (Some name_root)" by code_simp
  moreover have "cached_keys (\<lambda>_. 0) name_root (sample_walk_state 0 0) = Some (Some ?k, sample_walk_state 1 1)" by code_simp
  moreover have "validate_data sample_ring (Name [1, 97, 0]) rtype_A sample_answer 5 name_root ?k = Some (Secure, [])" by code_simp
  ultimately show ?thesis by (simp add: validate_full_def trusted_keys_for_def)
qed


end
