(* ===== verification/Recursor.thy ===== *)
theory Recursor
  imports Chain_Facts
begin

unbundle bit_operations_syntax

text \<open>
  The iterative resolver, \<open>dns/recursor_wire.rs\<close>: the descent from the root or from a cached zone cut, with
  hedged queries to the servers of a cut, minimised query names and the resolution of name servers without
  glue. The network is an argument, the record \<open>network\<close>: what each query receives, in which order queries in
  flight end, the random identifiers and the clock. The state holds the caches, the budget and the list of the
  queries that were sent. The outer \<open>option\<close> of a result is a panic.
\<close>

section \<open>The network and the state\<close>

text \<open>One round of the \<open>select\<close> over the queries in flight: the timer fires, or some query ends.\<close>

datatype net_event = Hedge | Done nat

text \<open>
  The fields take the number of the query (or of the reading): the random identifier, if there is one; the
  datagrams that reach the connected socket within the timeout; the reply over TCP within the timeout; the
  round-trip time in milliseconds; the events; the clock of the cache; the iteration order of its table.
\<close>

record network =
  net_random :: "nat \<Rightarrow> u16 option"
  net_udp :: "nat \<Rightarrow> ip_addr \<Rightarrow> byte list \<Rightarrow> byte list list"
  net_tcp :: "nat \<Rightarrow> ip_addr \<Rightarrow> byte list \<Rightarrow> byte list option"
  net_elapsed :: "nat \<Rightarrow> nat"
  net_event :: "nat \<Rightarrow> net_event"
  net_clock :: "nat \<Rightarrow> nat"
  net_iter :: "(byte list \<times> ip_addr list entry) list \<Rightarrow> (byte list \<times> ip_addr list entry) list"

record rec_state =
  rs_infra :: infra_cache
  rs_rtt :: "(ip_addr \<times> nat) list"
  rs_budget :: nat
  rs_fallback :: u16
  rs_sent :: "(ip_addr \<times> name \<times> u16) list"
  rs_events :: nat
  rs_reads :: nat

section \<open>Starting points\<close>

abbreviation (input) MAX_QUERIES :: nat where "MAX_QUERIES \<equiv> 80"
abbreviation (input) MAX_DEPTH :: nat where "MAX_DEPTH \<equiv> 24"
abbreviation (input) MAX_CNAME :: nat where "MAX_CNAME \<equiv> 12"
abbreviation (input) MAX_MINIMISE :: nat where "MAX_MINIMISE \<equiv> 10"
abbreviation (input) QMIN_PROBE_TYPE :: u16 where "QMIN_PROBE_TYPE \<equiv> rtype_A"

definition ipv4_new :: "byte \<Rightarrow> byte \<Rightarrow> byte \<Rightarrow> byte \<Rightarrow> u32" where
  "ipv4_new a b c d = be_word [a, b, c, d]"

definition ROOT_HINTS_V4 :: "u32 list" where
  "ROOT_HINTS_V4 =
     [ipv4_new 198 41 0 4, ipv4_new 170 247 170 2, ipv4_new 192 33 4 12, ipv4_new 199 7 91 13,
      ipv4_new 192 203 230 10, ipv4_new 192 5 5 241, ipv4_new 192 112 36 4, ipv4_new 198 97 190 53,
      ipv4_new 192 36 148 17, ipv4_new 192 58 128 30, ipv4_new 193 0 14 129, ipv4_new 199 7 83 42,
      ipv4_new 202 12 27 33]"

definition root_hints :: "ip_addr list" where
  "root_hints = map V4 ROOT_HINTS_V4"

definition cached_start ::
    "network \<Rightarrow> name \<Rightarrow> u16 \<Rightarrow> rec_state \<Rightarrow> ((name \<times> ip_addr list) option \<times> rec_state) option" where
  "cached_start net qn qt st = do {
     anchor \<leftarrow> (if qt = rtype_DS then name_parent qn else Some (Some qn));
     (case anchor of
        None \<Rightarrow> Some (None, st)
      | Some anchor \<Rightarrow> do {
          (r, c) \<leftarrow> zone_cut_start (net_clock net (rs_reads st)) anchor (rs_infra st);
          Some (r, st\<lparr>rs_infra := c, rs_reads := rs_reads st + 1\<rparr>)
        })
   }"

definition record_ip :: "rr \<Rightarrow> ip_addr option" where
  "record_ip r = (case rr_data r of A a \<Rightarrow> Some (V4 a) | Aaaa a \<Rightarrow> Some (V6 a) | _ \<Rightarrow> None)"

definition cut_ttl :: "message \<Rightarrow> name \<Rightarrow> name list \<Rightarrow> u32" where
  "cut_ttl msg zone ns_names =
     (let ttl = fold (\<lambda>r ttl. if rr_type r = rtype_NS \<and> eq_ignore_ascii_case (rr_name r) zone
                              then min ttl (rr_ttl r) else ttl) (authority msg) (- 1);
          ttl = fold (\<lambda>r ttl. if record_ip r \<noteq> None \<and> list_ex (\<lambda>n. eq_ignore_ascii_case n (rr_name r)) ns_names
                              then min ttl (rr_ttl r) else ttl) (additional msg) ttl
      in if ttl = - 1 then 3600 else ttl)"

section \<open>Minimised query names\<close>

fun strip_labels :: "nat \<Rightarrow> name \<Rightarrow> name option" where
  "strip_labels 0 n = Some n"
| "strip_labels (Suc k) n = do { p \<leftarrow> name_parent n; p \<leftarrow> p; strip_labels k p }"

definition minimised :: "name \<Rightarrow> name \<Rightarrow> nat \<Rightarrow> name option" where
  "minimised qn zone extra = do {
     zl \<leftarrow> label_count zone;
     let want = zl + 1 + extra;
     held \<leftarrow> label_count qn;
     if extra \<ge> MAX_MINIMISE \<or> want \<ge> held then Some qn
     else strip_labels (held - want) qn
   }"

section \<open>One query\<close>

definition build_query :: "network \<Rightarrow> name \<Rightarrow> u16 \<Rightarrow> rec_state \<Rightarrow> ((u16 \<times> byte list) \<times> rec_state) option" where
  "build_query net qn qt st = do {
     let (qid, st) = (case net_random net (length (rs_sent st)) of
         Some qid \<Rightarrow> (qid, st)
       | None \<Rightarrow> (rs_fallback st XOR word_rotl 7 qt, st\<lparr>rs_fallback := rs_fallback st + 0x9e37\<rparr>));
     let h = \<lparr>hid = qid, hflags = 0, qdcount = 1, ancount = 0, nscount = 0, arcount = 1\<rparr>;
     e \<leftarrow> question_emit (question_new qn qt) (header_emit h enc_uncompressed);
     let e = enc_u16 0 (enc_u32 0x00008000 (enc_u16 1232 (enc_u16 rtype_OPT (enc_u8 0 e))));
     Some ((qid, ebuf e), st)
   }"

definition question_matches :: "message \<Rightarrow> name \<Rightarrow> u16 \<Rightarrow> bool" where
  "question_matches msg qn qt =
     (case first_question msg of
        Some q \<Rightarrow> qtype q = qt \<and> qclass q = class_IN \<and> eq_ignore_ascii_case (qname q) qn
      | None \<Rightarrow> False)"

definition accepted :: "u16 \<Rightarrow> name \<Rightarrow> u16 \<Rightarrow> byte list \<Rightarrow> message option" where
  "accepted qid qn qt resp =
     (case message_parse resp of
        Inl _ \<Rightarrow> None
      | Inr msg \<Rightarrow> if hid (msg_header msg) \<noteq> qid \<or> \<not> question_matches msg qn qt then None else Some msg)"

text \<open>The loop of \<open>udp_exchange\<close>: datagrams are cut at 4096 octets and read until one matches.\<close>

fun udp_exchange :: "byte list list \<Rightarrow> u16 \<Rightarrow> name \<Rightarrow> u16 \<Rightarrow> byte list option" where
  "udp_exchange [] qid qn qt = None"
| "udp_exchange (d # ds) qid qn qt =
     (let buf = take 4096 d in
      case message_parse buf of
        Inr msg \<Rightarrow> if hid (msg_header msg) = qid \<and> question_matches msg qn qt then Some buf
                   else udp_exchange ds qid qn qt
      | Inl _ \<Rightarrow> udp_exchange ds qid qn qt)"

text \<open>The outer \<open>option\<close> is a panic, the inner one that of the code.\<close>

definition query_server :: "network \<Rightarrow> ip_addr \<Rightarrow> name \<Rightarrow> u16 \<Rightarrow> rec_state \<Rightarrow> (message option \<times> rec_state) option" where
  "query_server net addr qn qt st = do {
     let k = length (rs_sent st);
     ((qid, q), st) \<leftarrow> build_query net qn qt st;
     let st = st\<lparr>rs_sent := rs_sent st @ [(addr, qn, qt)]\<rparr>;
     (case udp_exchange (net_udp net k addr q) qid qn qt of
        None \<Rightarrow> Some (None, st)
      | Some resp \<Rightarrow>
          (case accepted qid qn qt resp of
             None \<Rightarrow> Some (None, st)
           | Some msg \<Rightarrow>
               if hdr_tc (msg_header msg) then
                 (case net_tcp net k addr q of
                    None \<Rightarrow> Some (None, st)
                  | Some resp \<Rightarrow> Some (accepted qid qn qt resp, st))
               else Some (Some msg, st)))
   }"

definition query_server_timed ::
    "network \<Rightarrow> ip_addr \<Rightarrow> name \<Rightarrow> u16 \<Rightarrow> rec_state \<Rightarrow> ((ip_addr \<times> message option \<times> nat) \<times> rec_state) option" where
  "query_server_timed net addr qn qt st = do {
     let rtt_ms = min (net_elapsed net (length (rs_sent st))) U32_MAX;
     (resp, st) \<leftarrow> query_server net addr qn qt st;
     Some ((addr, resp, rtt_ms), st)
   }"

section \<open>The servers of a cut\<close>

type_synonym in_flight = "(ip_addr \<times> message option \<times> nat) list"

text \<open>Launching the next server, if the list and the budget allow one.\<close>

definition launch_one ::
    "network \<Rightarrow> name \<Rightarrow> u16 \<Rightarrow> ip_addr list \<Rightarrow> nat \<Rightarrow> in_flight \<Rightarrow> rec_state \<Rightarrow> (nat \<times> in_flight \<times> rec_state) option" where
  "launch_one net qn qt ips nxt fl st =
     (if nxt < length ips \<and> rs_budget st > 0 then do {
        (f, st) \<leftarrow> query_server_timed net (ips ! nxt) qn qt (st\<lparr>rs_budget := rs_budget st - 1\<rparr>);
        Some (nxt + 1, fl @ [f], st)
      } else Some (nxt, fl, st))"

definition launch ::
    "network \<Rightarrow> name \<Rightarrow> u16 \<Rightarrow> ip_addr list \<Rightarrow> bool \<Rightarrow> nat \<Rightarrow> in_flight \<Rightarrow> rec_state \<Rightarrow> (nat \<times> in_flight \<times> rec_state) option" where
  "launch net qn qt ips cold nxt fl st = do {
     (nxt', fl, st) \<leftarrow> launch_one net qn qt ips nxt fl st;
     if nxt < nxt' \<and> cold \<and> nxt' = 1 then launch_one net qn qt ips nxt' fl st
     else Some (nxt', fl, st)
   }"

lemma launch_one_count:
  assumes "launch_one net qn qt ips nxt fl st = Some (nxt', fl', st')"
  shows "nxt \<le> nxt'" "nxt \<le> length ips \<Longrightarrow> nxt' \<le> length ips" "length fl' + nxt = length fl + nxt'"
    "nxt' = nxt \<Longrightarrow> \<not> (nxt < length ips \<and> rs_budget st > 0) \<and> st' = st"
  using assms by (auto simp: launch_one_def split: if_splits bind_splits)

lemma launch_measure:
  assumes "launch net qn qt ips cold nxt fl st = Some (nxt', fl', st')"
  shows "nxt' < length ips \<Longrightarrow> rs_budget st' > 0 \<Longrightarrow> 2 * (length ips - nxt') + length fl' < 2 * (length ips - nxt) + length fl"
    and "fl' \<noteq> [] \<Longrightarrow> 2 * (length ips - nxt') + (length fl' - 1) < 2 * (length ips - nxt) + length fl"
proof -
  obtain n1 fl1 st1 where one: "launch_one net qn qt ips nxt fl st = Some (n1, fl1, st1)"
    and rest: "(if nxt < n1 \<and> cold \<and> n1 = 1 then launch_one net qn qt ips n1 fl1 st1 else Some (n1, fl1, st1)) = Some (nxt', fl', st')"
    using assms by (auto simp: launch_def split: bind_splits)
  note c = launch_one_count [OF one]
  show "2 * (length ips - nxt') + length fl' < 2 * (length ips - nxt) + length fl" if "nxt' < length ips" "rs_budget st' > 0"
  proof (cases "n1 = nxt")
    case True
    then show ?thesis using c(4) rest that by simp
  next
    case False
    then have "n1 \<le> nxt' \<and> length fl' + n1 = length fl1 + nxt'"
      using rest launch_one_count(1,3) [of net qn qt ips n1 fl1 st1 nxt' fl' st'] by (auto split: if_splits)
    then show ?thesis using c(1,3) False that(1) by linarith
  qed
  show "2 * (length ips - nxt') + (length fl' - 1) < 2 * (length ips - nxt) + length fl" if "fl' \<noteq> []"
  proof (cases "n1 = nxt")
    case True
    then have "nxt' = nxt \<and> fl' = fl" using c(3) rest one that by (auto simp: launch_one_def split: if_splits bind_splits)
    then show ?thesis using that by simp
  next
    case False
    then have "nxt < length ips" using one by (auto simp: launch_one_def split: if_splits)
    then have "n1 \<le> nxt' \<and> nxt' \<le> length ips \<and> length fl' + n1 = length fl1 + nxt'"
      using rest c(2) launch_one_count(1-3) [of net qn qt ips n1 fl1 st1 nxt' fl' st'] by (auto split: if_splits)
    then show ?thesis using c(1,3) False that by linarith
  qed
qed

definition remove_at :: "nat \<Rightarrow> 'a list \<Rightarrow> 'a list" where
  "remove_at i xs = take i xs @ drop (Suc i) xs"

lemma length_remove_at: "i < length xs \<Longrightarrow> length (remove_at i xs) = length xs - 1"
  by (simp add: remove_at_def min_def)

text \<open>The query that the event ends.\<close>

definition ended :: "net_event \<Rightarrow> 'a list \<Rightarrow> nat" where
  "ended ev fl = (case ev of Done i \<Rightarrow> i mod length fl | Hedge \<Rightarrow> 0)"

lemma ended_less: "fl \<noteq> [] \<Longrightarrow> ended ev fl < length fl"
  by (simp add: ended_def split: net_event.split)

text \<open>The loop of \<open>query_ns_set\<close>.\<close>

function ns_loop ::
    "network \<Rightarrow> name \<Rightarrow> u16 \<Rightarrow> ip_addr list \<Rightarrow> bool \<Rightarrow> nat \<Rightarrow> in_flight \<Rightarrow> rec_state \<Rightarrow> (message option \<times> rec_state) option" where
  "ns_loop net qn qt ips cold nxt fl st =
     (case launch net qn qt ips cold nxt fl st of
        None \<Rightarrow> None
      | Some (nxt, fl, st) \<Rightarrow>
          if fl = [] then Some (None, st)
          else
            let more = (nxt < length ips \<and> rs_budget st > 0); ev = net_event net (rs_events st);
                st = st\<lparr>rs_events := rs_events st + 1\<rparr>
            in if ev = Hedge \<and> more then ns_loop net qn qt ips cold nxt fl st
               else
                 (case fl ! ended ev fl of
                    (addr, Some msg, rtt_ms) \<Rightarrow>
                      Some (Some msg, st\<lparr>rs_rtt := record_rtt addr rtt_ms (rs_rtt st)\<rparr>)
                  | (addr, None, rtt_ms) \<Rightarrow>
                      ns_loop net qn qt ips cold nxt (remove_at (ended ev fl) fl) st))"
  by pat_completeness auto
termination
proof (relation "measure (\<lambda>(net, qn, qt, ips, cold, nxt, fl, st). 2 * (length ips - nxt) + length fl)", goal_cases)
  case 1
  then show ?case by simp
next
  case 2
  then show ?case by (auto dest: launch_measure(1))
next
  case 3
  then show ?case by (auto simp: length_remove_at ended_less dest: launch_measure(2))
qed

declare ns_loop.simps [simp del]

definition query_ns_set :: "network \<Rightarrow> ip_addr list \<Rightarrow> name \<Rightarrow> u16 \<Rightarrow> rec_state \<Rightarrow> (message option \<times> rec_state) option" where
  "query_ns_set net ns_ips qn qt st =
     (let ips = sort_key (\<lambda>ip. case rtt_of ip (rs_rtt st) of Some r \<Rightarrow> r | None \<Rightarrow> U32_MAX) ns_ips;
          cold = (ips \<noteq> [] \<and> list_all (\<lambda>ip. rtt_of ip (rs_rtt st) = None) ips)
      in ns_loop net qn qt ips cold 0 [] st)"

section \<open>The descent\<close>

text \<open>The variables of the loop of \<open>descend\<close>.\<close>

record cut =
  dc_zone :: name
  dc_ips :: "ip_addr list"
  dc_from_cache :: bool
  dc_extra :: nat
  dc_full :: bool
  dc_delegations :: nat

definition root_cut :: cut where
  "root_cut = \<lparr>dc_zone = name_root, dc_ips = root_hints, dc_from_cache = False, dc_extra = 0, dc_full = False,
     dc_delegations = 0\<rparr>"

definition referral_zone :: "name \<Rightarrow> name \<Rightarrow> message \<Rightarrow> name option option" where
  "referral_zone qn zone msg =
     find_opt (\<lambda>nm. do {
         a \<leftarrow> is_in_zone qn nm;
         if a then do { b \<leftarrow> is_in_zone nm zone; Some (b \<and> \<not> eq_ignore_ascii_case nm zone) } else Some False
       }) (map rr_name (filter (\<lambda>r. rr_type r = rtype_NS) (authority msg)))"

definition referral_names :: "name \<Rightarrow> message \<Rightarrow> name list" where
  "referral_names next_zone msg =
     List.map_filter (\<lambda>r. case rr_data r of Ns n \<Rightarrow> Some n | _ \<Rightarrow> None)
       (filter (\<lambda>r. rr_type r = rtype_NS \<and> eq_ignore_ascii_case (rr_name r) next_zone) (authority msg))"

definition glue :: "name list \<Rightarrow> message \<Rightarrow> ip_addr list" where
  "glue ns_names msg =
     filter is_public_ip (List.map_filter record_ip
       (filter (\<lambda>r. list_ex (\<lambda>ns. eq_ignore_ascii_case ns (rr_name r)) ns_names) (additional msg)))"

type_synonym ns_resolver = "name \<Rightarrow> rec_state \<Rightarrow> (ip_addr list option \<times> rec_state) option"

text \<open>The loop over the name servers when there is no usable glue; \<open>None\<close> inside: the budget is spent.\<close>

fun ns_addr_loop :: "ns_resolver \<Rightarrow> name list \<Rightarrow> rec_state \<Rightarrow> (ip_addr list option \<times> rec_state) option" where
  "ns_addr_loop ns_addr [] st = Some (Some [], st)"
| "ns_addr_loop ns_addr (ns # rest) st =
     (if rs_budget st = 0 then Some (None, st)
      else do {
        (r, st) \<leftarrow> ns_addr ns st;
        let next_ips = (case r of Some ips \<Rightarrow> filter is_public_ip ips | None \<Rightarrow> []);
        if next_ips \<noteq> [] then Some (Some next_ips, st) else ns_addr_loop ns_addr rest st
      })"

definition next_servers :: "ns_resolver \<Rightarrow> name list \<Rightarrow> message \<Rightarrow> rec_state \<Rightarrow> (ip_addr list option \<times> rec_state) option" where
  "next_servers ns_addr ns_names msg st =
     (let next_ips = glue ns_names msg in
      if next_ips = [] then ns_addr_loop ns_addr ns_names st else Some (Some next_ips, st))"

definition learn_cut :: "network \<Rightarrow> name \<Rightarrow> ip_addr list \<Rightarrow> u32 \<Rightarrow> rec_state \<Rightarrow> rec_state option" where
  "learn_cut net zone ips ttl st = do {
     c \<leftarrow> zone_cut_learn (net_iter net) (net_clock net (rs_reads st)) zone ips (unat ttl) (rs_infra st);
     Some (st\<lparr>rs_infra := c, rs_reads := rs_reads st + 1\<rparr>)
   }"

text \<open>What is put on the wire at a cut: whether it is a probe, the name and the type.\<close>

definition to_send :: "bool \<Rightarrow> name \<Rightarrow> u16 \<Rightarrow> cut \<Rightarrow> (bool \<times> name \<times> u16) option" where
  "to_send qmin qn qt c =
     (if qmin \<and> \<not> dc_full c then do {
        m \<leftarrow> minimised qn (dc_zone c) (dc_extra c);
        Some (if eq_ignore_ascii_case m qn then (False, qn, qt) else (True, m, QMIN_PROBE_TYPE))
      } else Some (False, qn, qt))"

definition has_answer :: "name \<Rightarrow> u16 \<Rightarrow> message \<Rightarrow> bool" where
  "has_answer qn qt msg =
     list_ex (\<lambda>r. (rr_type r = qt \<or> rr_type r = rtype_CNAME) \<and> eq_ignore_ascii_case (rr_name r) qn) (answers msg)"

fun descend_loop ::
    "ns_resolver \<Rightarrow> network \<Rightarrow> bool \<Rightarrow> name \<Rightarrow> u16 \<Rightarrow> nat \<Rightarrow> cut \<Rightarrow> rec_state \<Rightarrow> (message option \<times> rec_state) option" where
  "descend_loop ns_addr net qmin qn qt 0 c st = Some (None, st)"
| "descend_loop ns_addr net qmin qn qt (Suc k) c st = do {
     (probing, send_name, send_type) \<leftarrow> to_send qmin qn qt c;
     (r, st) \<leftarrow> query_ns_set net (dc_ips c) send_name send_type st;
     (case r of
        None \<Rightarrow>
          if probing then descend_loop ns_addr net qmin qn qt k (c\<lparr>dc_full := True\<rparr>) st
          else if dc_from_cache c then do {
            infra \<leftarrow> zone_cut_forget (dc_zone c) (rs_infra st);
            descend_loop ns_addr net qmin qn qt k (root_cut\<lparr>dc_delegations := dc_delegations c\<rparr>) (st\<lparr>rs_infra := infra\<rparr>)
          }
          else Some (None, st)
      | Some msg \<Rightarrow>
          let rcode = rcode_low (msg_header msg) in
          if \<not> probing \<and> (has_answer qn qt msg \<or> rcode = rcode_NXDOMAIN) then Some (Some msg, st)
          else do {
            referral \<leftarrow> referral_zone qn (dc_zone c) msg;
            (case referral of
               Some next_zone \<Rightarrow> do {
                 let ns_names = referral_names next_zone msg;
                 (next_ips, st) \<leftarrow> next_servers ns_addr ns_names msg st;
                 (case next_ips of
                    None \<Rightarrow> Some (None, st)
                  | Some next_ips \<Rightarrow>
                      if next_ips = [] then Some (None, st)
                      else do {
                        st \<leftarrow> learn_cut net next_zone next_ips (cut_ttl msg next_zone ns_names) st;
                        if dc_delegations c + 1 \<ge> MAX_DEPTH then Some (None, st)
                        else descend_loop ns_addr net qmin qn qt k
                          \<lparr>dc_zone = next_zone, dc_ips = next_ips, dc_from_cache = False, dc_extra = 0,
                           dc_full = False, dc_delegations = dc_delegations c + 1\<rparr> st
                      })
               }
             | None \<Rightarrow>
                 if probing then
                   if rcode = rcode_NXDOMAIN \<or> list_ex (\<lambda>r. eq_ignore_ascii_case (rr_name r) send_name) (answers msg)
                   then descend_loop ns_addr net qmin qn qt k (c\<lparr>dc_from_cache := False, dc_full := True\<rparr>) st
                   else descend_loop ns_addr net qmin qn qt k (c\<lparr>dc_from_cache := False, dc_extra := dc_extra c + 1\<rparr>) st
                 else Some (Some msg, st))
          })
   }"

declare descend_loop.simps(2) [simp del]

definition descend_with :: "ns_resolver \<Rightarrow> network \<Rightarrow> bool \<Rightarrow> name \<Rightarrow> u16 \<Rightarrow> rec_state \<Rightarrow> (message option \<times> rec_state) option" where
  "descend_with ns_addr net qmin qn qt st = do {
     (start, st) \<leftarrow> cached_start net qn qt st;
     let c = (case start of
         Some (z, ips) \<Rightarrow> root_cut\<lparr>dc_zone := z, dc_ips := ips, dc_from_cache := True\<rparr>
       | None \<Rightarrow> root_cut);
     descend_loop ns_addr net qmin qn qt MAX_QUERIES c st
   }"

section \<open>Outcomes\<close>

datatype step_outcome = Step_Answer "rr list" | Step_Cname "rr list" name | Step_Negative u16 | Step_Failure

datatype outcome = Answer "rr list" | Negative u16 | Failure

definition step_of :: "name \<Rightarrow> u16 \<Rightarrow> message option \<Rightarrow> step_outcome" where
  "step_of qn qt r =
     (case r of
        None \<Rightarrow> Step_Failure
      | Some msg \<Rightarrow>
          let rcode = rcode_low (msg_header msg);
              direct = filter (\<lambda>r. rr_type r = qt \<and> eq_ignore_ascii_case (rr_name r) qn) (answers msg);
              rest = (if direct \<noteq> [] then Step_Answer direct
                      else if rcode = rcode_NXDOMAIN then Step_Negative rcode
                      else Step_Negative rcode_NOERROR)
          in (case find (\<lambda>r. rr_type r = rtype_CNAME \<and> eq_ignore_ascii_case (rr_name r) qn) (answers msg) of
                Some cn \<Rightarrow> (case rr_data cn of Cname nxt \<Rightarrow> Step_Cname [cn] nxt | _ \<Rightarrow> rest)
              | None \<Rightarrow> rest))"

text \<open>
  The address of a name server is resolved by a descent of its own. Each level of this recursion follows a
  reply, so it is at most as deep as the budget; the depth that remains is the argument.
\<close>

fun resolve_ns_addr :: "network \<Rightarrow> bool \<Rightarrow> nat \<Rightarrow> ns_resolver" where
  "resolve_ns_addr net qmin 0 ns st = None"
| "resolve_ns_addr net qmin (Suc depth) ns st = do {
     (r, st) \<leftarrow> descend_with (resolve_ns_addr net qmin depth) net qmin ns rtype_A st;
     Some (case step_of ns rtype_A r of
         Step_Answer recs \<Rightarrow> (let ips = List.map_filter record_ip recs in if ips = [] then None else Some ips)
       | _ \<Rightarrow> None, st)
   }"

definition rec_descend :: "network \<Rightarrow> bool \<Rightarrow> name \<Rightarrow> u16 \<Rightarrow> rec_state \<Rightarrow> (message option \<times> rec_state) option" where
  "rec_descend net qmin qn qt st = descend_with (resolve_ns_addr net qmin (rs_budget st)) net qmin qn qt st"

definition resolve_once :: "network \<Rightarrow> bool \<Rightarrow> name \<Rightarrow> u16 \<Rightarrow> rec_state \<Rightarrow> (step_outcome \<times> rec_state) option" where
  "resolve_once net qmin qn qt st = do {
     (r, st) \<leftarrow> rec_descend net qmin qn qt st;
     Some (step_of qn qt r, st)
   }"

fun resolve_loop :: "network \<Rightarrow> bool \<Rightarrow> u16 \<Rightarrow> nat \<Rightarrow> rr list \<Rightarrow> name \<Rightarrow> rec_state \<Rightarrow> (outcome \<times> rec_state) option" where
  "resolve_loop net qmin qt cname_left found target st = do {
     (s, st) \<leftarrow> resolve_once net qmin target qt st;
     (case s of
        Step_Answer recs \<Rightarrow> Some (Answer (found @ recs), st)
      | Step_Cname chain nxt \<Rightarrow>
          (case cname_left of
             0 \<Rightarrow> Some (Failure, st)
           | Suc left \<Rightarrow> resolve_loop net qmin qt left (found @ chain) nxt st)
      | Step_Negative rcode \<Rightarrow> Some (Negative rcode, st)
      | Step_Failure \<Rightarrow> Some (Failure, st))
   }"

definition resolve :: "network \<Rightarrow> bool \<Rightarrow> name \<Rightarrow> u16 \<Rightarrow> rec_state \<Rightarrow> (outcome \<times> rec_state) option" where
  "resolve net qmin qn qt st = resolve_loop net qmin qt MAX_CNAME [] qn (st\<lparr>rs_budget := MAX_QUERIES\<rparr>)"

definition resolve_message :: "network \<Rightarrow> bool \<Rightarrow> name \<Rightarrow> u16 \<Rightarrow> rec_state \<Rightarrow> (message option \<times> rec_state) option" where
  "resolve_message net qmin qn qt st = rec_descend net qmin qn qt (st\<lparr>rs_budget := MAX_QUERIES\<rparr>)"

end
