(* ===== verification/Recursor_Facts.thy ===== *)
theory Recursor_Facts
  imports Recursor
begin

unbundle bit_operations_syntax

text \<open>
  What the iterative resolver guarantees against any network: it returns after at most as many queries as the
  budget holds, asks only public addresses, and believes only replies to the question it asked.
\<close>

section \<open>Parsed messages\<close>

definition rr_named :: "rr \<Rightarrow> bool" where
  "rr_named r \<longleftrightarrow> valid_name (rr_name r) \<and> rdata_carries (rr_type r) (rr_data r)"

definition msg_named :: "message \<Rightarrow> bool" where
  "msg_named m \<longleftrightarrow> list_all rr_named (answers m) \<and> list_all rr_named (authority m) \<and> list_all rr_named (additional m)"

lemma rr_parse_named:
  assumes "rr_parse d = Inr (r, d')"
  shows "rr_named r"
proof -
  from assms obtain d1 rdlength d5 d6 where n: "name_parse d = Inr (rr_name r, d1)"
    and rd: "rdata_parse (rr_type r) rdlength d5 = Inr (rr_data r, d6)"
    by (auto simp: rr_parse_def preturn_def elim!: pbind_eq_InrE)
  show ?thesis using rdata_parse_carries [OF rd] name_parse_valid [OF n] by (simp add: rr_named_def)
qed

lemma message_parse_named:
  assumes "message_parse buf = Inr m"
  shows "msg_named m"
proof -
  from assms obtain d2 d3 d4 d5 where
    p: "parse_n rr_parse (unat (ancount (msg_header m))) d2 = Inr (answers m, d3)"
    "parse_n rr_parse (unat (nscount (msg_header m))) d3 = Inr (authority m, d4)"
    "parse_n rr_parse (unat (arcount (msg_header m))) d4 = Inr (additional m, d5)"
    by (rule message_parseE)
  have all: "list_all rr_named rs" if "parse_n rr_parse n d = Inr (rs, d')" for n d rs d'
    by (rule parse_n_all [OF rr_parser.wire_parser_axioms that _ refl]) (rule rr_parse_named)
  show ?thesis using p [THEN all] by (simp add: msg_named_def)
qed

lemma msg_named_named: "msg_named m \<Longrightarrow> named m"
  by (auto simp: msg_named_def named_def rr_named_def list_all_iff)

section \<open>The state of a resolution\<close>

text \<open>Only public addresses are cached as servers, and only public addresses were asked.\<close>

definition rec_ok :: "rec_state \<Rightarrow> bool" where
  "rec_ok st \<longleftrightarrow> bounded_inv (cuts (rs_infra st)) \<and>
     (\<forall>k ips e. bounded_look (cuts (rs_infra st)) k = Some (ips, e) \<longrightarrow> list_all is_public_ip ips) \<and>
     list_all (\<lambda>(ip, _). is_public_ip ip) (rs_sent st)"

text \<open>What a computation may do: every query it sends comes out of the budget.\<close>

definition spent :: "rec_state \<Rightarrow> rec_state \<Rightarrow> bool" where
  "spent st st' \<longleftrightarrow> rec_ok st' \<and> rs_budget st' \<le> rs_budget st \<and>
     (\<exists>new. rs_sent st' = rs_sent st @ new \<and> length new + rs_budget st' = rs_budget st)"

lemma spent_refl: "rec_ok st \<Longrightarrow> spent st st"
  by (simp add: spent_def)

lemma spent_trans: "spent a b \<Longrightarrow> spent b c \<Longrightarrow> spent a c"
  by (auto simp: spent_def)

lemma spent_ok: "spent a b \<Longrightarrow> rec_ok b"
  by (simp add: spent_def)

lemma spent_same:
  "rec_ok st' \<Longrightarrow> rs_budget st' = rs_budget st \<Longrightarrow> rs_sent st' = rs_sent st \<Longrightarrow> spent st st'"
  by (simp add: spent_def)

text \<open>A reply that is believed: it parsed, and it answers the question that was sent.\<close>

definition believed :: "name \<Rightarrow> u16 \<Rightarrow> message \<Rightarrow> bool" where
  "believed qn qt m \<longleftrightarrow> msg_named m \<and> question_matches m qn qt"

lemma accepted_believed: "accepted qid qn qt resp = Some m \<Longrightarrow> believed qn qt m \<and> hid (msg_header m) = qid"
  by (auto simp: accepted_def believed_def message_parse_named split: sum.splits if_splits)

lemma question_emit_returns: "valid_name qn \<Longrightarrow> \<exists>e'. question_emit (question_new qn qt) (header_emit h enc_uncompressed) = Some e'"
  using question_exact.emit_parse [of "question_new qn qt" "header_emit h enc_uncompressed"]
  by (auto simp: question_ok_def question_new_def header_emit_def enc_uncompressed_def enc_u16_def)

lemma build_query_returns:
  assumes "valid_name qn"
  shows "\<exists>qid q f. build_query net qn qt st = Some ((qid, q), st\<lparr>rs_fallback := f\<rparr>)"
proof -
  obtain qid st1 where id: "(case net_random net (length (rs_sent st)) of Some qid \<Rightarrow> (qid, st)
      | None \<Rightarrow> (rs_fallback st XOR word_rotl 7 qt, st\<lparr>rs_fallback := rs_fallback st + 0x9e37\<rparr>)) = (qid, st1)" by force
  then have "\<exists>f. st1 = st\<lparr>rs_fallback := f\<rparr>" by (auto split: option.splits intro: exI [of _ "rs_fallback st"])
  then show ?thesis
    using question_emit_returns [OF assms, of qt "\<lparr>hid = qid, hflags = 0, qdcount = 1, ancount = 0, nscount = 0, arcount = 1\<rparr>"]
    unfolding build_query_def id Let_def prod.case by auto
qed

lemma query_server_spec:
  assumes "valid_name qn" "is_public_ip addr" "rec_ok st"
  shows "\<exists>r f. query_server net addr qn qt st =
      Some (r, st\<lparr>rs_fallback := f, rs_sent := rs_sent st @ [(addr, qn, qt)]\<rparr>) \<and> (\<forall>m. r = Some m \<longrightarrow> believed qn qt m)"
proof -
  obtain qid q f where b: "build_query net qn qt st = Some ((qid, q), st\<lparr>rs_fallback := f\<rparr>)"
    using build_query_returns [OF assms(1)] by blast
  show ?thesis unfolding query_server_def Let_def b Option.bind.simps prod.case
    by (auto simp: accepted_believed split: option.splits if_splits intro!: exI [of _ f])
qed

section \<open>The servers of a cut\<close>

definition flight_ok :: "name \<Rightarrow> u16 \<Rightarrow> in_flight \<Rightarrow> bool" where
  "flight_ok qn qt fl \<longleftrightarrow> (\<forall>(addr, r, rtt) \<in> set fl. \<forall>m. r = Some m \<longrightarrow> believed qn qt m)"

lemma launch_one_spec:
  assumes "valid_name qn" "list_all is_public_ip ips" "rec_ok st" "flight_ok qn qt fl"
  shows "\<exists>nxt' fl' st'. launch_one net qn qt ips nxt fl st = Some (nxt', fl', st') \<and> flight_ok qn qt fl' \<and> spent st st' \<and>
    (nxt' \<noteq> nxt \<longrightarrow> rs_budget st' < rs_budget st)"
proof (cases "nxt < length ips \<and> rs_budget st > 0")
  case False
  then show ?thesis using assms by (auto simp: launch_one_def spent_refl)
next
  case True
  let ?st = "st\<lparr>rs_budget := rs_budget st - 1\<rparr>"
  have "is_public_ip (ips ! nxt)" using True assms(2) by (auto simp: list_all_length)
  moreover have "rec_ok ?st" using assms(3) by (simp add: rec_ok_def)
  ultimately obtain r f where q: "query_server net (ips ! nxt) qn qt ?st =
      Some (r, ?st\<lparr>rs_fallback := f, rs_sent := rs_sent st @ [(ips ! nxt, qn, qt)]\<rparr>)" "\<forall>m. r = Some m \<longrightarrow> believed qn qt m"
    using query_server_spec [OF assms(1), of "ips ! nxt" ?st net qt] by auto
  let ?st' = "?st\<lparr>rs_fallback := f, rs_sent := rs_sent st @ [(ips ! nxt, qn, qt)]\<rparr>"
  have "spent st ?st'" using assms(3) True \<open>is_public_ip (ips ! nxt)\<close> by (auto simp: spent_def rec_ok_def)
  moreover have "launch_one net qn qt ips nxt fl st =
      Some (nxt + 1, fl @ [(ips ! nxt, r, min (net_elapsed net (length (rs_sent st))) U32_MAX)], ?st')"
    using True q(1) by (simp add: launch_one_def query_server_timed_def)
  ultimately show ?thesis using q(2) assms(4) True by (auto simp: flight_ok_def)
qed

lemma launch_spec:
  assumes "valid_name qn" "list_all is_public_ip ips" "rec_ok st" "flight_ok qn qt fl"
  shows "\<exists>nxt' fl' st'. launch net qn qt ips cold nxt fl st = Some (nxt', fl', st') \<and> flight_ok qn qt fl' \<and> spent st st' \<and>
    (fl = [] \<longrightarrow> fl' \<noteq> [] \<longrightarrow> rs_budget st' < rs_budget st)"
proof -
  obtain n1 fl1 st1 where one: "launch_one net qn qt ips nxt fl st = Some (n1, fl1, st1)" "flight_ok qn qt fl1" "spent st st1"
    "n1 \<noteq> nxt \<longrightarrow> rs_budget st1 < rs_budget st" using launch_one_spec [OF assms] by blast
  have same: "fl1 = fl" if "n1 = nxt" using one(1) that by (auto simp: launch_one_def split: if_splits bind_splits)
  show ?thesis
  proof (cases "nxt < n1 \<and> cold \<and> n1 = 1")
    case False
    then show ?thesis using one same by (auto simp: launch_def)
  next
    case True
    obtain n2 fl2 st2 where two: "launch_one net qn qt ips n1 fl1 st1 = Some (n2, fl2, st2)" "flight_ok qn qt fl2" "spent st1 st2"
      using launch_one_spec [OF assms(1,2) spent_ok [OF one(3)] one(2)] by blast
    have "rs_budget st2 < rs_budget st" using one(4) two(3) True by (auto simp: spent_def)
    moreover have "launch net qn qt ips cold nxt fl st = Some (n2, fl2, st2)" using one(1) two(1) True by (simp add: launch_def)
    ultimately show ?thesis using two(2) spent_trans [OF one(3) two(3)] by blast
  qed
qed

lemma flight_ok_remove:
  assumes "flight_ok qn qt fl"
  shows "flight_ok qn qt (remove_at i fl)"
proof -
  have "set (remove_at i fl) \<subseteq> set fl" by (auto simp: remove_at_def dest: in_set_takeD in_set_dropD)
  then show ?thesis using assms unfolding flight_ok_def by (metis (no_types, lifting) subsetD)
qed

lemma ns_loop_spec:
  "valid_name qn \<Longrightarrow> list_all is_public_ip ips \<Longrightarrow> rec_ok st \<Longrightarrow> flight_ok qn qt fl \<Longrightarrow>
    \<exists>r st'. ns_loop net qn qt ips cold nxt fl st = Some (r, st') \<and> spent st st' \<and>
      (\<forall>m. r = Some m \<longrightarrow> believed qn qt m \<and> (fl = [] \<longrightarrow> rs_budget st' < rs_budget st))"
proof (induction net qn qt ips cold nxt fl st rule: ns_loop.induct)
  case (1 net qn qt ips cold nxt fl st)
  obtain nxt' fl' st' where l: "launch net qn qt ips cold nxt fl st = Some (nxt', fl', st')" "flight_ok qn qt fl'" "spent st st'"
    "fl = [] \<longrightarrow> fl' \<noteq> [] \<longrightarrow> rs_budget st' < rs_budget st"
    using launch_spec [OF 1(3,4,5,6)] by blast
  show ?case
  proof (cases "fl' = []")
    case True
    then show ?thesis using l by (simp add: ns_loop.simps [of net qn qt ips cold nxt fl st])
  next
    case False
    let ?st = "st'\<lparr>rs_events := rs_events st' + 1\<rparr>" and ?ev = "net_event net (rs_events st')"
    let ?fl = "remove_at (ended ?ev fl') fl'" and ?more = "nxt' < length ips \<and> rs_budget st' > 0"
    have ok: "rec_ok ?st" and sp: "spent st ?st" using l(3) by (auto simp: spent_def rec_ok_def)
    have fl: "flight_ok qn qt ?fl" using flight_ok_remove [OF l(2)] .
    have step: "ns_loop net qn qt ips cold nxt fl st =
       (if ?ev = Hedge \<and> ?more then ns_loop net qn qt ips cold nxt' fl' ?st
        else case fl' ! ended ?ev fl' of
          (addr, Some msg, rtt_ms) \<Rightarrow> Some (Some msg, ?st\<lparr>rs_rtt := record_rtt addr rtt_ms (rs_rtt st')\<rparr>)
        | (addr, None, rtt_ms) \<Rightarrow> ns_loop net qn qt ips cold nxt' ?fl ?st)"
      using False by (subst ns_loop.simps) (simp add: l(1) Let_def split: option.split prod.split)
    have finish: ?thesis
      if "ns_loop net qn qt ips cold nxt fl st = Some (r, st2)" "spent ?st st2" "\<forall>m. r = Some m \<longrightarrow> believed qn qt m" for r st2
    proof -
      have "rs_budget st2 \<le> rs_budget st'" using that(2) by (simp add: spent_def)
      then show ?thesis using that spent_trans [OF sp that(2)] l(4) False by fastforce
    qed
    show ?thesis
    proof (cases "?ev = Hedge \<and> ?more")
      case True
      from 1(1) [OF l(1) refl refl False refl refl refl True 1(3,4) ok l(2)] obtain r st2 where
        "ns_loop net qn qt ips cold nxt' fl' ?st = Some (r, st2)" "spent ?st st2" "\<forall>m. r = Some m \<longrightarrow> believed qn qt m"
        by blast
      then show ?thesis using finish [of r st2] step True by presburger
    next
      case no_hedge: False
      obtain addr res rtt where f: "fl' ! ended ?ev fl' = (addr, res, rtt)" by (cases "fl' ! ended ?ev fl'") auto
      show ?thesis
      proof (cases res)
        case None
        from 1(2) [OF l(1) refl refl False refl refl refl no_hedge f [symmetric] refl None 1(3,4) ok fl] obtain r st2 where
          r: "ns_loop net qn qt ips cold nxt' ?fl ?st = Some (r, st2)" "spent ?st st2" "\<forall>m. r = Some m \<longrightarrow> believed qn qt m"
          by blast
        have "ns_loop net qn qt ips cold nxt fl st = Some (r, st2)"
          unfolding step if_not_P [OF no_hedge] f None prod.case option.case by (rule r(1))
        then show ?thesis by (rule finish) (rule r(2,3))+
      next
        case (Some msg)
        have "(addr, Some msg, rtt) \<in> set fl'" using f Some ended_less [OF False, of ?ev] by (metis nth_mem)
        then have "believed qn qt msg" using l(2) by (auto simp: flight_ok_def)
        moreover have "ns_loop net qn qt ips cold nxt fl st = Some (Some msg, ?st\<lparr>rs_rtt := record_rtt addr rtt (rs_rtt st')\<rparr>)"
          unfolding step if_not_P [OF no_hedge] f Some prod.case option.case ..
        moreover have "spent ?st (?st\<lparr>rs_rtt := record_rtt addr rtt (rs_rtt st')\<rparr>)"
          using ok by (auto simp: spent_def rec_ok_def)
        ultimately show ?thesis using finish by blast
      qed
    qed
  qed
qed

lemma query_ns_set_spec:
  assumes "valid_name qn" "list_all is_public_ip ips" "rec_ok st"
  shows "\<exists>r st'. query_ns_set net ips qn qt st = Some (r, st') \<and> spent st st' \<and>
    (\<forall>m. r = Some m \<longrightarrow> believed qn qt m \<and> rs_budget st' < rs_budget st)"
proof -
  have "list_all is_public_ip (sort_key f ips)" for f :: "ip_addr \<Rightarrow> nat" using assms(2) by (simp add: list_all_iff)
  from ns_loop_spec [OF assms(1) this assms(3), of qt "[]" net] show ?thesis
    by (simp add: query_ns_set_def flight_ok_def Let_def)
qed

section \<open>Minimised names\<close>

lemma valid_suffixesE:
  assumes "valid_name n"
  obtains ls where "n = suffix_name ls 0" "list_all label_ok ls" "labels n = ls" "\<forall>k. valid_name (suffix_name ls k)"
proof -
  obtain ls where n: "n = Name (wire_of ls)" "list_all label_ok ls" using assms by (rule valid_nameE)
  show thesis
  proof (rule that)
    show "n = suffix_name ls 0" "list_all label_ok ls" "labels n = ls" using n by (simp_all add: suffix_name_0)
    show "\<forall>k. valid_name (suffix_name ls k)" using valid_suffix [OF _ n(2)] assms n(1) by simp
  qed
qed

lemma strip_labels_suffix:
  assumes "list_all label_ok ls"
  shows "k + j \<le> length ls \<Longrightarrow> strip_labels k (suffix_name ls j) = Some (suffix_name ls (k + j))"
  by (induction k arbitrary: j) (simp_all add: name_parent_suffix [OF assms])

text \<open>The minimised name: the labels of the zone and one more (and \<open>extra\<close> others), or the whole name.\<close>

lemma minimised_spec:
  assumes "valid_name qn" "valid_name zone"
  shows "minimised qn zone extra = Some
    (if extra \<ge> MAX_MINIMISE \<or> length (labels zone) + 1 + extra \<ge> length (labels qn) then qn
     else suffix_name (labels qn) (length (labels qn) - (length (labels zone) + 1 + extra)))"
proof -
  obtain ls where n: "qn = suffix_name ls 0" "list_all label_ok ls" "labels qn = ls"
    using assms(1) by (rule valid_suffixesE)
  let ?d = "length ls - (length (labels zone) + 1 + extra)"
  have "strip_labels ?d qn = Some (suffix_name ls ?d)" using strip_labels_suffix [OF n(2), of ?d 0] n(1) by simp
  then show ?thesis by (simp add: minimised_def label_count_valid assms n(3))
qed

lemma to_send_valid:
  assumes "valid_name qn" "valid_name (dc_zone c)"
  obtains probing n t where "to_send qmin qn qt c = Some (probing, n, t)" "valid_name n" "\<not> probing \<longrightarrow> n = qn \<and> t = qt"
proof (cases "qmin \<and> \<not> dc_full c")
  case False
  show thesis by (rule that [of False qn qt]) (use False assms(1) in \<open>auto simp: to_send_def\<close>)
next
  case True
  obtain ls where "qn = suffix_name ls 0" "list_all label_ok ls" and ls: "labels qn = ls" "\<forall>k. valid_name (suffix_name ls k)"
    using assms(1) by (rule valid_suffixesE)
  define m where "m = (if dc_extra c \<ge> MAX_MINIMISE \<or> length (labels (dc_zone c)) + 1 + dc_extra c \<ge> length (labels qn) then qn
     else suffix_name (labels qn) (length (labels qn) - (length (labels (dc_zone c)) + 1 + dc_extra c)))"
  have m: "minimised qn (dc_zone c) (dc_extra c) = Some m" "valid_name m"
    using minimised_spec [OF assms] ls(2) assms(1) by (simp_all add: m_def ls(1))
  show thesis
  proof (cases "eq_ignore_ascii_case m qn")
    case eq: True
    show thesis by (rule that [of False qn qt]) (use True eq m assms(1) in \<open>simp_all add: to_send_def\<close>)
  next
    case neq: False
    show thesis by (rule that [of True m rtype_A]) (use True neq m in \<open>simp_all add: to_send_def\<close>)
  qed
qed

section \<open>The descent\<close>

lemma spent_infra:
  assumes "rec_ok st" "bounded_inv (cuts c)"
    "\<And>k ips e. bounded_look (cuts c) k = Some (ips, e) \<Longrightarrow> list_all is_public_ip ips"
  shows "spent st (st\<lparr>rs_infra := c, rs_reads := n\<rparr>)" "spent st (st\<lparr>rs_infra := c\<rparr>)"
  using assms by (auto simp: spent_def rec_ok_def)

lemma zone_cut_loop_values:
  "valid_name n \<Longrightarrow> bounded_inv g \<Longrightarrow>
    \<exists>r g'. zone_cut_loop now n g = Some (r, g') \<and> bounded_inv g' \<and>
      (\<forall>k x. bounded_look g' k = Some x \<longrightarrow> bounded_look g k = Some x) \<and>
      (\<forall>z v. r = Some (z, v) \<longrightarrow> valid_name z \<and> (\<exists>k e. bounded_look g k = Some (v, e)))"
proof (induction now n g rule: zone_cut_loop.induct)
  case (1 now n g)
  show ?case
  proof (cases "is_root n")
    case True
    then show ?thesis using 1(3) by (simp add: zone_cut_loop.simps [of now n g])
  next
    case False
    obtain k where k: "key_of n = Some k" using key_of_Some [OF 1(2)] by blast
    obtain r g1 where g: "bounded_get k now g = (r, g1)" by force
    have g1: "bounded_inv g1" "\<And>k' x. bounded_look g1 k' = Some x \<Longrightarrow> bounded_look g k' = Some x"
      using bounded_get_spec [OF 1(3), of k now] g by (auto split: if_splits)
    show ?thesis
    proof (cases r)
      case (Some ips)
      have "\<exists>e. bounded_look g k = Some (ips, e)"
        using bounded_get_spec(1) [OF 1(3), of k now] g Some by (auto split: option.splits if_splits)
      then show ?thesis using False k g g1 Some 1(2) by (auto simp: zone_cut_loop.simps [of now n g])
    next
      case None
      from 1(2) show ?thesis
      proof (cases rule: name_parent_cases)
        case root
        then show ?thesis using False k g g1 None by (auto simp: zone_cut_loop.simps [of now n g])
      next
        case (parent p)
        have "zone_cut_loop now n g = zone_cut_loop now p g1"
          using parent(1) False k g None by (simp add: zone_cut_loop.simps [of now n g])
        with 1(1) [OF False k g [symmetric] None parent(1) refl parent(2) g1(1)] g1(2) show ?thesis by metis
      qed
    qed
  qed
qed

lemma cached_start_spec:
  assumes "valid_name qn" "rec_ok st"
  shows "\<exists>r st'. cached_start net qn qt st = Some (r, st') \<and> spent st st' \<and> rs_budget st' = rs_budget st \<and>
    (\<forall>z ips. r = Some (z, ips) \<longrightarrow> valid_name z \<and> list_all is_public_ip ips)"
proof -
  obtain a where a: "(if qt = rtype_DS then name_parent qn else Some (Some qn)) = Some a" "\<forall>n. a = Some n \<longrightarrow> valid_name n"
    using assms(1) by (cases rule: name_parent_cases; cases "qt = rtype_DS") auto
  show ?thesis
  proof (cases a)
    case None
    then show ?thesis using a(1) assms(2) by (auto simp: cached_start_def spent_refl)
  next
    case (Some n)
    have inv: "bounded_inv (cuts (rs_infra st))" and pub: "\<And>k ips e. bounded_look (cuts (rs_infra st)) k = Some (ips, e) \<Longrightarrow> list_all is_public_ip ips"
      using assms(2) unfolding rec_ok_def by blast+
    obtain r g where g: "zone_cut_loop (net_clock net (rs_reads st)) n (cuts (rs_infra st)) = Some (r, g)" "bounded_inv g"
      "\<forall>k x. bounded_look g k = Some x \<longrightarrow> bounded_look (cuts (rs_infra st)) k = Some x"
      "\<forall>z v. r = Some (z, v) \<longrightarrow> valid_name z \<and> (\<exists>k e. bounded_look (cuts (rs_infra st)) k = Some (v, e))"
      using zone_cut_loop_values [OF a(2) [rule_format, OF Some] inv] by blast
    let ?st = "st\<lparr>rs_infra := (rs_infra st)\<lparr>cuts := g\<rparr>, rs_reads := rs_reads st + 1\<rparr>"
    have "cached_start net qn qt st = Some (r, ?st)"
      using a(1) Some g(1) by (simp add: cached_start_def zone_cut_start_def)
    moreover have "list_all is_public_ip ips" if "bounded_look g k = Some (ips, e)" for k ips e
      using g(3) that pub by blast
    then have "spent st ?st" using g(2) by (intro spent_infra(1) [OF assms(2)]) simp_all
    ultimately show ?thesis using g(4) pub by (intro exI [of _ r] exI [of _ ?st]) auto
  qed
qed

lemma learn_cut_spec:
  assumes "iterates (net_iter net)" "valid_name z" "list_all is_public_ip ips" "rec_ok st"
  shows "\<exists>st'. learn_cut net z ips ttl st = Some st' \<and> spent st st' \<and> rs_budget st' = rs_budget st"
proof -
  have inv: "bounded_inv (cuts (rs_infra st))" and pub: "\<And>k ips e. bounded_look (cuts (rs_infra st)) k = Some (ips, e) \<Longrightarrow> list_all is_public_ip ips"
    using assms(4) unfolding rec_ok_def by blast+
  obtain k where k: "key_of z = Some k" using key_of_Some [OF assms(2)] by blast
  let ?now = "net_clock net (rs_reads st)"
  define g where "g = bounded_insert (net_iter net) k ips (saturating_u32 (?now + clamp_ttl (unat ttl))) ?now (cuts (rs_infra st))"
  have g: "bounded_inv g" "\<And>k' v e. bounded_look g k' = Some (v, e) \<Longrightarrow> list_all is_public_ip v"
    using bounded_insert_spec [OF assms(1) inv] pub assms(3) unfolding g_def by (metis, metis option.inject prod.inject)
  have "\<exists>c. zone_cut_learn (net_iter net) ?now z ips (unat ttl) (rs_infra st) = Some c \<and> bounded_inv (cuts c) \<and>
      (\<forall>k' v e. bounded_look (cuts c) k' = Some (v, e) \<longrightarrow> list_all is_public_ip v)"
  proof (cases "ips = [] \<or> is_root z")
    case True
    then show ?thesis using inv pub by (auto simp: zone_cut_learn_def)
  next
    case False
    then show ?thesis using g k by (auto simp: zone_cut_learn_def g_def Let_def)
  qed
  then obtain c where c: "zone_cut_learn (net_iter net) ?now z ips (unat ttl) (rs_infra st) = Some c" "bounded_inv (cuts c)"
    "\<And>k' v e. bounded_look (cuts c) k' = Some (v, e) \<Longrightarrow> list_all is_public_ip v" by blast
  from c(1) spent_infra(1) [OF assms(4) c(2,3)] show ?thesis by (simp add: learn_cut_def)
qed

lemma forget_spec:
  assumes "valid_name z" "rec_ok st"
  shows "\<exists>c. zone_cut_forget z (rs_infra st) = Some c \<and> spent st (st\<lparr>rs_infra := c\<rparr>)"
proof -
  obtain k where k: "key_of z = Some k" using key_of_Some [OF assms(1)] by blast
  have inv: "bounded_inv (cuts (rs_infra st))" using assms(2) by (simp add: rec_ok_def)
  have "spent st (st\<lparr>rs_infra := (rs_infra st)\<lparr>cuts := bounded_remove k (cuts (rs_infra st))\<rparr>\<rparr>)"
    using assms(2) by (intro spent_infra(2)) (auto simp: bounded_remove_spec [OF inv] rec_ok_def split: if_splits)
  then show ?thesis using k by (simp add: zone_cut_forget_def)
qed

text \<open>A resolver of name-server addresses that works for budgets below a bound.\<close>

definition resolver_ok :: "nat \<Rightarrow> ns_resolver \<Rightarrow> bool" where
  "resolver_ok b f \<longleftrightarrow> (\<forall>ns st. valid_name ns \<longrightarrow> rec_ok st \<longrightarrow> rs_budget st < b \<longrightarrow> (\<exists>r st'. f ns st = Some (r, st') \<and> spent st st'))"

lemma ns_addr_loop_spec:
  assumes "resolver_ok b f"
  shows "list_all valid_name nss \<Longrightarrow> rec_ok st \<Longrightarrow> rs_budget st < b \<Longrightarrow>
    \<exists>r st'. ns_addr_loop f nss st = Some (r, st') \<and> spent st st' \<and> (\<forall>ips. r = Some ips \<longrightarrow> list_all is_public_ip ips)"
proof (induction nss arbitrary: st)
  case Nil
  then show ?case by (simp add: spent_refl)
next
  case (Cons ns nss)
  show ?case
  proof (cases "rs_budget st = 0")
    case True
    then show ?thesis using Cons.prems by (simp add: spent_refl)
  next
    case False
    from assms Cons.prems obtain r st1 where r: "f ns st = Some (r, st1)" "spent st st1"
      unfolding resolver_ok_def by fastforce
    let ?ips = "case r of Some ips \<Rightarrow> filter is_public_ip ips | None \<Rightarrow> []"
    have b: "rs_budget st1 < b" using r(2) Cons.prems(3) by (simp add: spent_def)
    show ?thesis
    proof (cases "?ips = []")
      case True
      have "list_all valid_name nss" using Cons.prems(1) by simp
      from Cons.IH [OF this spent_ok [OF r(2)] b] obtain r' st' where
        "ns_addr_loop f nss st1 = Some (r', st')" "spent st1 st'" "\<forall>ips. r' = Some ips \<longrightarrow> list_all is_public_ip ips" by blast
      then show ?thesis using False r True spent_trans [OF r(2)] by (intro exI [of _ r'] exI [of _ st']) simp
    next
      case ne: False
      then show ?thesis using False r by (auto simp: list_all_iff split: option.splits)
    qed
  qed
qed

lemma next_servers_spec:
  assumes "resolver_ok b f" "list_all valid_name nss" "rec_ok st" "rs_budget st < b"
  shows "\<exists>r st'. next_servers f nss msg st = Some (r, st') \<and> spent st st' \<and> (\<forall>ips. r = Some ips \<longrightarrow> list_all is_public_ip ips)"
  using ns_addr_loop_spec [OF assms] assms(3)
  by (cases "glue nss msg = []") (simp_all add: next_servers_def Let_def spent_refl, simp add: glue_def list_all_iff)

lemma referral_names_valid: "msg_named m \<Longrightarrow> list_all valid_name (referral_names z m)"
  by (force simp: referral_names_def msg_named_def rr_named_def list_all_iff List.map_filter_def split: rdata.splits)

lemma referral_zone_spec:
  assumes "msg_named m" "valid_name qn" "valid_name zone"
  shows "\<exists>r. referral_zone qn zone m = Some r \<and> (\<forall>z. r = Some z \<longrightarrow> valid_name z \<and> below z qn \<and> below zone z \<and> \<not> eq_ignore_ascii_case z zone)"
proof -
  let ?f = "\<lambda>nm. do { a \<leftarrow> is_in_zone qn nm; if a then do { b \<leftarrow> is_in_zone nm zone; Some (b \<and> \<not> eq_ignore_ascii_case nm zone) } else Some False }"
  let ?nms = "map rr_name (filter (\<lambda>r. rr_type r = rtype_NS) (authority m))"
  have v: "valid_name nm" if "nm \<in> set ?nms" for nm using that assms(1) by (auto simp: msg_named_def rr_named_def list_all_iff)
  have "returns (find_opt ?f ?nms)"
    by (rule find_opt_returns) (use v assms in \<open>auto intro!: no_panic\<close>)
  then obtain r where r: "find_opt ?f ?nms = Some r" by (elim returnsE)
  moreover have "valid_name z \<and> below z qn \<and> below zone z \<and> \<not> eq_ignore_ascii_case z zone" if "r = Some z" for z
    using find_opt_mem [of ?f ?nms z] r that v assms by (auto simp: below_def split: bind_splits if_splits)
  ultimately show ?thesis by (auto simp: referral_zone_def)
qed

lemma root_hints_public: "list_all is_public_ip root_hints"
  by code_simp

text \<open>The computations of a resolution: they return, spend only budget, and what they return is believed.\<close>

definition resolves :: "name \<Rightarrow> u16 \<Rightarrow> rec_state \<Rightarrow> (message option \<times> rec_state) option \<Rightarrow> bool" where
  "resolves qn qt st res \<longleftrightarrow> (\<exists>r st'. res = Some (r, st') \<and> spent st st' \<and> (\<forall>m. r = Some m \<longrightarrow> believed qn qt m))"

lemma resolves_None: "spent st st' \<Longrightarrow> resolves qn qt st (Some (None, st'))"
  by (simp add: resolves_def)

lemma resolves_Some: "spent st st' \<Longrightarrow> believed qn qt m \<Longrightarrow> resolves qn qt st (Some (Some m, st'))"
  by (simp add: resolves_def)

lemma resolves_trans: "spent st st1 \<Longrightarrow> resolves qn qt st1 res \<Longrightarrow> resolves qn qt st res"
  using spent_trans unfolding resolves_def by blast

lemma referral_step:
  assumes "iterates (net_iter net)" "resolver_ok b f" "valid_name next_zone" "msg_named msg" "rec_ok st" "rs_budget st < b"
    and go: "\<And>c st2. valid_name (dc_zone c) \<Longrightarrow> list_all is_public_ip (dc_ips c) \<Longrightarrow> spent st st2 \<Longrightarrow> resolves qn qt st2 (loop c st2)"
  shows "resolves qn qt st (do {
      (next_ips, st) \<leftarrow> next_servers f (referral_names next_zone msg) msg st;
      (case next_ips of
         None \<Rightarrow> Some (None, st)
       | Some next_ips \<Rightarrow>
           if next_ips = [] then Some (None, st)
           else do {
             st \<leftarrow> learn_cut net next_zone next_ips (cut_ttl msg next_zone (referral_names next_zone msg)) st;
             if d \<ge> MAX_DEPTH then Some (None, st)
             else loop \<lparr>dc_zone = next_zone, dc_ips = next_ips, dc_from_cache = False, dc_extra = 0, dc_full = False, dc_delegations = d\<rparr> st
           })
    })"
proof -
  obtain r st1 where n: "next_servers f (referral_names next_zone msg) msg st = Some (r, st1)" "spent st st1"
    "\<forall>ips. r = Some ips \<longrightarrow> list_all is_public_ip ips"
    using next_servers_spec [OF assms(2) referral_names_valid [OF assms(4)] assms(5,6)] by blast
  show ?thesis
  proof (cases "r = None \<or> r = Some []")
    case True
    then show ?thesis using n resolves_None [OF n(2)] by auto
  next
    case False
    then obtain ips where ips: "r = Some ips" "ips \<noteq> []" "list_all is_public_ip ips" using n(3) by auto
    obtain st2 where l: "learn_cut net next_zone ips (cut_ttl msg next_zone (referral_names next_zone msg)) st1 = Some st2" "spent st1 st2"
      using learn_cut_spec [OF assms(1,3) ips(3) spent_ok [OF n(2)]] by blast
    have sp: "spent st st2" by (rule spent_trans [OF n(2) l(2)])
    have "resolves qn qt st (loop \<lparr>dc_zone = next_zone, dc_ips = ips, dc_from_cache = False, dc_extra = 0, dc_full = False, dc_delegations = d\<rparr> st2)"
      by (rule resolves_trans [OF sp go]) (use assms(3) ips(3) sp in simp_all)
    then show ?thesis using n(1) ips l(1) resolves_None [OF sp] by simp
  qed
qed

lemma descend_loop_spec:
  assumes "iterates (net_iter net)" "resolver_ok b f" "valid_name qn"
  shows "valid_name (dc_zone c) \<Longrightarrow> list_all is_public_ip (dc_ips c) \<Longrightarrow> rec_ok st \<Longrightarrow> rs_budget st \<le> b \<Longrightarrow>
    resolves qn qt st (descend_loop f net qmin qn qt k c st)"
proof (induction k arbitrary: c st)
  case 0
  then show ?case by (simp add: resolves_None spent_refl)
next
  case (Suc k)
  obtain probing n t where s: "to_send qmin qn qt c = Some (probing, n, t)" "valid_name n" "\<not> probing \<longrightarrow> n = qn \<and> t = qt"
    by (rule to_send_valid [OF assms(3) Suc.prems(1)])
  obtain r st1 where q: "query_ns_set net (dc_ips c) n t st = Some (r, st1)" "spent st st1"
    "\<forall>m. r = Some m \<longrightarrow> believed n t m \<and> rs_budget st1 < rs_budget st"
    using query_ns_set_spec [OF s(2) Suc.prems(2,3)] by blast
  have go: "resolves qn qt st (descend_loop f net qmin qn qt k c' st2)"
    if "valid_name (dc_zone c')" "list_all is_public_ip (dc_ips c')" "spent st st2" for c' st2
    using Suc.IH [OF that(1,2) spent_ok [OF that(3)]] that(3) Suc.prems(4) by (intro resolves_trans [OF that(3)]) (simp add: spent_def)
  have root: "valid_name (dc_zone (root_cut\<lparr>dc_delegations := d\<rparr>))" "list_all is_public_ip (dc_ips (root_cut\<lparr>dc_delegations := d\<rparr>))" for d
    using root_hints_public by (simp_all add: root_cut_def)
  show ?case
  proof (cases r)
    case None
    obtain infra where fg: "zone_cut_forget (dc_zone c) (rs_infra st1) = Some infra" "spent st1 (st1\<lparr>rs_infra := infra\<rparr>)"
      using forget_spec [OF Suc.prems(1) spent_ok [OF q(2)]] by blast
    show ?thesis
      using go [of "c\<lparr>dc_full := True\<rparr>" st1] go [OF root spent_trans [OF q(2) fg(2)]] resolves_None [OF q(2)] q(1,2) None s(1) fg(1) Suc.prems(1,2)
      by (simp add: descend_loop.simps(2))
  next
    case (Some msg)
    have msg: "believed n t msg" "msg_named msg" "rs_budget st1 < b"
      using q(3) Some Suc.prems(4) by (auto simp: believed_def)
    obtain ref where ref: "referral_zone qn (dc_zone c) msg = Some ref" "\<forall>z. ref = Some z \<longrightarrow> valid_name z"
      using referral_zone_spec [OF msg(2) assms(3) Suc.prems(1)] by blast
    have more: "resolves qn qt st (descend_loop f net qmin qn qt k (c\<lparr>dc_from_cache := False, dc_full := True\<rparr>) st1)"
      "resolves qn qt st (descend_loop f net qmin qn qt k (c\<lparr>dc_from_cache := False, dc_extra := dc_extra c + 1\<rparr>) st1)"
      using go q(2) Suc.prems(1,2) by simp_all
    have fin: "\<not> probing \<Longrightarrow> resolves qn qt st (Some (Some msg, st1))" using s(3) msg(1) by (auto intro: resolves_Some [OF q(2)])
    have down: "resolves qn qt st2 (descend_loop f net qmin qn qt k c' st2)"
      if "valid_name (dc_zone c')" "list_all is_public_ip (dc_ips c')" "spent st1 st2" for c' st2
      using that spent_trans [OF q(2) that(3)] Suc.prems(4) by (intro Suc.IH) (auto simp: spent_def)
    show ?thesis
    proof (cases ref)
      case None
      then show ?thesis using q(1) Some s(1) ref(1) more fin by (cases probing) (simp_all add: descend_loop.simps(2) Let_def)
    next
      case (Some z)
      have "resolves qn qt st (do {
          (next_ips, st) \<leftarrow> next_servers f (referral_names z msg) msg st1;
          (case next_ips of
             None \<Rightarrow> Some (None, st)
           | Some next_ips \<Rightarrow>
               if next_ips = [] then Some (None, st)
               else do {
                 st \<leftarrow> learn_cut net z next_ips (cut_ttl msg z (referral_names z msg)) st;
                 if dc_delegations c + 1 \<ge> MAX_DEPTH then Some (None, st)
                 else descend_loop f net qmin qn qt k
                   \<lparr>dc_zone = z, dc_ips = next_ips, dc_from_cache = False, dc_extra = 0, dc_full = False, dc_delegations = dc_delegations c + 1\<rparr> st
               }) })"
        using Some ref(2) msg(2,3) spent_ok [OF q(2)] down
        by (intro resolves_trans [OF q(2) referral_step [OF assms(1,2)]]) simp_all
      then show ?thesis using q(1) \<open>r = Some msg\<close> s(1) ref(1) Some fin by (simp add: descend_loop.simps(2) Let_def)
    qed
  qed
qed

lemma descend_with_spec:
  assumes "iterates (net_iter net)" "resolver_ok b f" "valid_name qn" "rec_ok st" "rs_budget st \<le> b"
  shows "resolves qn qt st (descend_with f net qmin qn qt st)"
proof -
  obtain start st1 where s: "cached_start net qn qt st = Some (start, st1)" "spent st st1" "rs_budget st1 = rs_budget st"
    "\<forall>z ips. start = Some (z, ips) \<longrightarrow> valid_name z \<and> list_all is_public_ip ips"
    using cached_start_spec [OF assms(3,4)] by blast
  let ?c = "case start of Some (z, ips) \<Rightarrow> root_cut\<lparr>dc_zone := z, dc_ips := ips, dc_from_cache := True\<rparr> | None \<Rightarrow> root_cut"
  have "valid_name (dc_zone ?c)" "list_all is_public_ip (dc_ips ?c)"
    using s(4) root_hints_public by (auto simp: root_cut_def split: option.split)
  from descend_loop_spec [OF assms(1-3) this spent_ok [OF s(2)]] assms(5) s(3)
  show ?thesis by (auto simp: descend_with_def s(1) intro: resolves_trans [OF s(2)])
qed

lemma resolve_ns_addr_ok: "iterates (net_iter net) \<Longrightarrow> resolver_ok depth (resolve_ns_addr net qmin depth)"
proof (induction depth)
  case 0
  then show ?case by (simp add: resolver_ok_def)
next
  case (Suc depth)
  show ?case unfolding resolver_ok_def
  proof (intro allI impI)
    fix ns st
    assume a: "valid_name ns" "rec_ok st" "rs_budget st < Suc depth"
    then obtain r st' where "descend_with (resolve_ns_addr net qmin depth) net qmin ns rtype_A st = Some (r, st')" "spent st st'"
      using descend_with_spec [OF Suc.prems Suc.IH [OF Suc.prems] a(1,2), of rtype_A qmin] by (auto simp: resolves_def)
    then show "\<exists>r st'. resolve_ns_addr net qmin (Suc depth) ns st = Some (r, st') \<and> spent st st'" by simp
  qed
qed

lemma rec_descend_spec:
  assumes "iterates (net_iter net)" "valid_name qn" "rec_ok st"
  shows "resolves qn qt st (rec_descend net qmin qn qt st)"
  unfolding rec_descend_def by (rule descend_with_spec [OF assms(1) resolve_ns_addr_ok [OF assms(1)] assms(2,3) order.refl])

section \<open>Outcomes\<close>

text \<open>An answer is a chain of CNAME records from the name asked for, ended by records of the type asked for.\<close>

inductive answer_chain :: "u16 \<Rightarrow> name \<Rightarrow> rr list \<Rightarrow> bool" for qt where
  ends: "recs \<noteq> [] \<Longrightarrow> (\<forall>r \<in> set recs. rr_type r = qt \<and> eq_ignore_ascii_case (rr_name r) qn) \<Longrightarrow> answer_chain qt qn recs"
| via: "rr_type cn = rtype_CNAME \<Longrightarrow> eq_ignore_ascii_case (rr_name cn) qn \<Longrightarrow> rr_data cn = Cname nxt \<Longrightarrow>
    answer_chain qt nxt recs \<Longrightarrow> answer_chain qt qn (cn # recs)"

lemma step_of_spec:
  "step_of qn qt r = Step_Answer recs \<Longrightarrow> answer_chain qt qn recs"
  "step_of qn qt r = Step_Cname chain nxt \<Longrightarrow> \<forall>m. r = Some m \<longrightarrow> msg_named m \<Longrightarrow>
     valid_name nxt \<and> (\<exists>cn. chain = [cn] \<and> rr_type cn = rtype_CNAME \<and> eq_ignore_ascii_case (rr_name cn) qn \<and> rr_data cn = Cname nxt)"
proof -
  show "answer_chain qt qn recs" if "step_of qn qt r = Step_Answer recs"
    using that by (auto simp: step_of_def Let_def split: option.splits if_splits rdata.splits intro!: answer_chain.ends)
  assume a: "step_of qn qt r = Step_Cname chain nxt" "\<forall>m. r = Some m \<longrightarrow> msg_named m"
  then obtain m cn where m: "r = Some m" "find (\<lambda>r. rr_type r = rtype_CNAME \<and> eq_ignore_ascii_case (rr_name r) qn) (answers m) = Some cn"
    "rr_data cn = Cname nxt" "chain = [cn]"
    by (auto simp: step_of_def Let_def split: option.splits if_splits rdata.splits)
  then have cn: "rr_type cn = rtype_CNAME" "eq_ignore_ascii_case (rr_name cn) qn" "cn \<in> set (answers m)"
    by (auto simp: find_Some_iff)
  then have "valid_name nxt" using a(2) m(1,3) by (auto simp: msg_named_def rr_named_def list_all_iff)
  with cn m(3,4) show "valid_name nxt \<and> (\<exists>cn. chain = [cn] \<and> rr_type cn = rtype_CNAME \<and> eq_ignore_ascii_case (rr_name cn) qn \<and> rr_data cn = Cname nxt)"
    by blast
qed

lemma resolve_loop_spec:
  assumes "iterates (net_iter net)"
  shows "valid_name qn \<Longrightarrow> rec_ok st \<Longrightarrow>
    \<exists>out st'. resolve_loop net qmin qt left found qn st = Some (out, st') \<and> spent st st' \<and>
      (\<forall>recs. out = Answer recs \<longrightarrow> (\<exists>recs'. recs = found @ recs' \<and> answer_chain qt qn recs'))"
proof (induction left arbitrary: found qn st)
  case (0 found qn st)
  obtain r st1 where d: "rec_descend net qmin qn qt st = Some (r, st1)" "spent st st1"
    using rec_descend_spec [OF assms 0] unfolding resolves_def by blast
  then show ?case
    by (cases "step_of qn qt r") (auto simp: resolve_once_def step_of_spec(1))
next
  case (Suc left found qn st)
  obtain r st1 where d: "rec_descend net qmin qn qt st = Some (r, st1)" "spent st st1" "\<forall>m. r = Some m \<longrightarrow> msg_named m"
    using rec_descend_spec [OF assms Suc.prems] unfolding resolves_def believed_def by blast
  show ?case
  proof (cases "step_of qn qt r")
    case (Step_Cname chain nxt)
    obtain cn where cn: "valid_name nxt" "chain = [cn]" "rr_type cn = rtype_CNAME" "eq_ignore_ascii_case (rr_name cn) qn" "rr_data cn = Cname nxt"
      using step_of_spec(2) [OF Step_Cname d(3)] by blast
    obtain out st' where w: "resolve_loop net qmin qt left (found @ chain) nxt st1 = Some (out, st')" "spent st1 st'"
      "\<forall>recs. out = Answer recs \<longrightarrow> (\<exists>recs'. recs = (found @ chain) @ recs' \<and> answer_chain qt nxt recs')"
      using Suc.IH [OF cn(1) spent_ok [OF d(2)]] by blast
    have "resolve_loop net qmin qt (Suc left) found qn st = Some (out, st')"
      using d(1) Step_Cname w(1) by (simp add: resolve_once_def)
    moreover have "\<exists>recs'. recs = found @ recs' \<and> answer_chain qt qn recs'" if "out = Answer recs" for recs
      using w(3) that cn by (auto intro: answer_chain.via)
    ultimately show ?thesis using spent_trans [OF d(2) w(2)] by blast
  qed (use d step_of_spec(1) in \<open>auto simp: resolve_once_def\<close>)
qed

declare resolve_loop.simps [simp del]

text \<open>
  C4. Against any network the resolver returns: it sends at most 80 queries for one question, resolutions of name
  servers included, each of them to a public address, and keeps only public addresses in the cache of zone cuts.
  The message it returns parsed and carries the question asked for, and an answer is a chain of CNAME records
  that starts at the name asked for and ends in records of the type asked for.
\<close>

theorem recursion_safe:
  assumes "iterates (net_iter net)" "valid_name qn" "rec_ok st"
  shows "(\<exists>r st' new. resolve_message net qmin qn qt st = Some (r, st') \<and> rec_ok st' \<and> rs_sent st' = rs_sent st @ new \<and>
      length new \<le> MAX_QUERIES \<and> (\<forall>m. r = Some m \<longrightarrow> question_matches m qn qt)) \<and>
    (\<exists>out st' new. resolve net qmin qn qt st = Some (out, st') \<and> rec_ok st' \<and> rs_sent st' = rs_sent st @ new \<and>
      length new \<le> MAX_QUERIES \<and> (\<forall>recs. out = Answer recs \<longrightarrow> answer_chain qt qn recs))"
proof -
  let ?st = "st\<lparr>rs_budget := MAX_QUERIES\<rparr>"
  have ok: "rec_ok ?st" using assms(3) by (simp add: rec_ok_def)
  have "\<exists>r st' new. resolve_message net qmin qn qt st = Some (r, st') \<and> rec_ok st' \<and> rs_sent st' = rs_sent st @ new \<and>
      length new \<le> MAX_QUERIES \<and> (\<forall>m. r = Some m \<longrightarrow> question_matches m qn qt)"
    using rec_descend_spec [OF assms(1,2) ok, of qt qmin] unfolding resolve_message_def resolves_def spent_def believed_def by fastforce
  moreover have "\<exists>out st' new. resolve net qmin qn qt st = Some (out, st') \<and> rec_ok st' \<and> rs_sent st' = rs_sent st @ new \<and>
      length new \<le> MAX_QUERIES \<and> (\<forall>recs. out = Answer recs \<longrightarrow> answer_chain qt qn recs)"
    using resolve_loop_spec [OF assms(1,2) ok, of qmin qt MAX_CNAME "[]"] unfolding resolve_def spent_def by fastforce
  ultimately show ?thesis ..
qed

definition silent :: network where
  "silent = \<lparr>net_random = \<lambda>_. None, net_udp = \<lambda>_ _ _. [], net_tcp = \<lambda>_ _ _. None, net_elapsed = \<lambda>_. 0,
     net_event = \<lambda>_. Hedge, net_clock = \<lambda>_. 0, net_iter = \<lambda>m. m\<rparr>"

definition fresh :: rec_state where
  "fresh = \<lparr>rs_infra = CACHE, rs_rtt = [], rs_budget = 0, rs_fallback = 0x1357, rs_sent = [], rs_events = 0, rs_reads = 0\<rparr>"

theorem recursion_safe_witness:
  "\<exists>out st'. resolve silent True (Name [1, 97, 0]) rtype_A fresh = Some (out, st') \<and> length (rs_sent st') \<le> 80 \<and>
    list_all (\<lambda>(ip, _). is_public_ip ip) (rs_sent st')"
proof -
  have "iterates (net_iter silent)" "rec_ok fresh" "valid_name (Name [1, 97, 0])"
    by (simp_all add: silent_def iterates_def rec_ok_def fresh_def CACHE_inv CACHE_def bounded_new_def bounded_look_def bounded_inv_def) code_simp
  from recursion_safe [OF this(1,3,2), of True rtype_A] show ?thesis by (auto simp: rec_ok_def fresh_def)
qed

end
