(* ===== verification/Validated_Cache.thy ===== *)
theory Validated_Cache
  imports Recursor_Facts
begin

unbundle bit_operations_syntax

text \<open>
  The validating entry point of the resolver and its cache of validated answers, the second half of
  \<open>dns/recursor_wire.rs\<close>. Names compare and hash without case, so the cache is keyed by the octets the hash
  reads. An \<open>Instant\<close> is a number of nanoseconds. What the resolver returns for the question of a hop of a
  CNAME chain is the argument \<open>ask\<close>, and what it returns in the walk along the chain of trust for that hop the
  argument \<open>fetch\<close>: two descents, which may differ from each other and from hop to hop; both take the
  number of hops left. The outer \<open>option\<close> of a result is a panic.
\<close>

section \<open>The code\<close>

abbreviation (input) SEC :: nat where "SEC \<equiv> 1000000000"
abbreviation (input) VALIDATED_CACHE_TTL_CAP :: u32 where "VALIDATED_CACHE_TTL_CAP \<equiv> 86400"
abbreviation (input) VALIDATED_CACHE_MAX :: nat where "VALIDATED_CACHE_MAX \<equiv> 100000"

record validated =
  v_records :: "rr list"
  v_answer_rrsigs :: "rr list"
  v_authority :: "rr list"
  v_rcode :: u16
  v_verdict :: verdict

record cached_validated =
  cv_value :: validated
  cv_inserted_at :: nat
  cv_expires_at :: nat

type_synonym validated_cache = "((byte list \<times> u16) \<times> cached_validated) list"

fun dec_ttls :: "u32 \<Rightarrow> rr list \<Rightarrow> rr list option" where
  "dec_ttls elapsed [] = Some []"
| "dec_ttls elapsed (r # rs) =
     (if elapsed \<le> rr_ttl r \<and> rr_ttl r - elapsed > 0
      then map_option (\<lambda>out. r\<lparr>rr_ttl := rr_ttl r - elapsed\<rparr> # out) (dec_ttls elapsed rs)
      else None)"

definition clone_decremented :: "u32 \<Rightarrow> validated \<Rightarrow> validated option" where
  "clone_decremented elapsed v = do {
     recs \<leftarrow> dec_ttls elapsed (v_records v);
     sigs \<leftarrow> dec_ttls elapsed (v_answer_rrsigs v);
     auth \<leftarrow> dec_ttls elapsed (v_authority v);
     Some \<lparr>v_records = recs, v_answer_rrsigs = sigs, v_authority = auth, v_rcode = v_rcode v, v_verdict = v_verdict v\<rparr>
   }"

text \<open>The seconds left to one signature, \<open>None\<close> for another record.\<close>

definition rrsig_secs :: "u32 \<Rightarrow> rr \<Rightarrow> u32 option" where
  "rrsig_secs now r =
     (if rr_type r \<noteq> rtype_RRSIG then None
      else (case rr_data r of
              Unknown _ data \<Rightarrow>
                Some (if length data \<ge> 12 then
                        let left = be_word [data ! 8, data ! 9, data ! 10, data ! 11] - now
                        in if left \<ge> 0x80000000 then 0 else left
                      else 0)
            | _ \<Rightarrow> None))"

definition nearest_rrsig_secs :: "rr list \<Rightarrow> rr list \<Rightarrow> u32 \<Rightarrow> u32 option" where
  "nearest_rrsig_secs answer_rrsigs auth now =
     fold (\<lambda>r min_left. case rrsig_secs now r of
         None \<Rightarrow> min_left
       | Some secs \<Rightarrow> Some (case min_left of None \<Rightarrow> secs | Some m \<Rightarrow> min m secs)) (answer_rrsigs @ auth) None"

definition cache_ttl :: "u32 \<Rightarrow> validated \<Rightarrow> u32" where
  "cache_ttl now v =
     (let ttl = fold (\<lambda>r ttl. min ttl (rr_ttl r)) (v_records v @ v_authority v) (- 1);
          ttl = (case nearest_rrsig_secs (v_answer_rrsigs v) (v_authority v) now of Some s \<Rightarrow> min ttl s | None \<Rightarrow> ttl);
          ttl = (if ttl = - 1 then VALIDATED_CACHE_TTL_CAP else ttl)
      in min ttl VALIDATED_CACHE_TTL_CAP)"

definition cache_validated :: "byte list \<times> u16 \<Rightarrow> u32 \<Rightarrow> nat \<Rightarrow> validated \<Rightarrow> validated_cache \<Rightarrow> validated_cache" where
  "cache_validated key now now_i v m =
     (if v_verdict v = Bogus then m
      else let ttl = cache_ttl now v in
        if ttl = 0 then m
        else if length m \<ge> VALIDATED_CACHE_MAX \<and> map_of m key = None then m
        else AList.update key
          \<lparr>cv_value = v, cv_inserted_at = now_i, cv_expires_at = now_i + unat ttl * SEC\<rparr> m)"

definition flush_validated_cache :: "validated_cache \<Rightarrow> validated_cache" where
  "flush_validated_cache m = []"

definition validated_key :: "name \<Rightarrow> u16 \<Rightarrow> byte list \<times> u16" where
  "validated_key qn qt = (name_hash_input qn, qt)"

text \<open>The lookup at the start of \<open>resolve_validated\<close>.\<close>

definition validated_lookup :: "byte list \<times> u16 \<Rightarrow> nat \<Rightarrow> validated_cache \<Rightarrow> validated option \<times> validated_cache" where
  "validated_lookup key now_i m =
     (case map_of m key of
        None \<Rightarrow> (None, m)
      | Some hit \<Rightarrow>
          (case (if cv_expires_at hit > now_i
                 then clone_decremented (of_nat (min ((now_i - cv_inserted_at hit) div SEC) U32_MAX)) (cv_value hit)
                 else None) of
             Some v \<Rightarrow> (Some v, m)
           | None \<Rightarrow> (None, AList.delete key m)))"

definition collect_covering_rrsigs :: "rr list \<Rightarrow> name \<Rightarrow> u16 \<Rightarrow> rr list" where
  "collect_covering_rrsigs ans owner covered =
     filter (\<lambda>r. rr_type r = rtype_RRSIG \<and> eq_ignore_ascii_case (rr_name r) owner \<and>
       (case rr_data r of Unknown _ data \<Rightarrow> length data \<ge> 2 \<and> u16_from_be (data ! 0) (data ! 1) = covered | _ \<Rightarrow> False)) ans"

definition is_compact_nxdomain :: "rr list \<Rightarrow> name \<Rightarrow> bool" where
  "is_compact_nxdomain auth qn =
     list_ex (\<lambda>r. rr_type r = rtype_NSEC \<and> eq_ignore_ascii_case (rr_name r) qn \<and>
       (case rr_data r of Unknown _ data \<Rightarrow> nsec_bitmap_has_nxname data | _ \<Rightarrow> False)) auth"

fun worst_verdict :: "verdict \<Rightarrow> verdict \<Rightarrow> verdict" where
  "worst_verdict a b =
     (if a = Bogus \<or> b = Bogus then Bogus else if a = Insecure \<or> b = Insecure then Insecure else Secure)"

definition hop_cname :: "message \<Rightarrow> name \<Rightarrow> (rr \<times> name) option" where
  "hop_cname msg target =
     (case List.map_filter (\<lambda>r. if rr_type r = rtype_CNAME \<and> eq_ignore_ascii_case (rr_name r) target
          then (case rr_data r of Cname nxt \<Rightarrow> Some (r, nxt) | _ \<Rightarrow> None) else None) (answers msg) of
        [] \<Rightarrow> None
      | x # _ \<Rightarrow> Some x)"

text \<open>
  The loop over the hops. A result says whether it goes into the cache: a chain that is too long does not.
\<close>

fun validated_loop ::
    "ring \<Rightarrow> key_iter \<Rightarrow> (nat \<Rightarrow> nat) \<Rightarrow> (nat \<Rightarrow> fetcher) \<Rightarrow> (nat \<Rightarrow> fetcher) \<Rightarrow> u16 \<Rightarrow> u32 \<Rightarrow> nat \<Rightarrow> name \<Rightarrow> rr list \<Rightarrow> rr list \<Rightarrow> verdict \<Rightarrow>
       chain_state \<Rightarrow> ((validated \<times> bool) option \<times> chain_state) option" where
  "validated_loop r iter clk ask fetch qt now cname_left target records rrsigs verdict st =
     (case ask cname_left target qt of
        None \<Rightarrow> Some (None, st)
      | Some msg \<Rightarrow> do {
          let rcode = rcode_low (msg_header msg);
          ((hop_verdict, hop_authority), st) \<leftarrow> validate_full r iter clk (fetch cname_left) target qt msg now st;
          let verdict = worst_verdict verdict hop_verdict;
          (case hop_cname msg target of
             Some (cn_rec, nxt) \<Rightarrow>
               let records = records @ [cn_rec];
                   rrsigs = rrsigs @ collect_covering_rrsigs (answers msg) target rtype_CNAME
               in (case cname_left of
                     0 \<Rightarrow> Some (Some (\<lparr>v_records = records, v_answer_rrsigs = [], v_authority = [], v_rcode = rcode,
                                  v_verdict = Bogus\<rparr>, False), st)
                   | Suc left \<Rightarrow> validated_loop r iter clk ask fetch qt now left nxt records rrsigs verdict st)
           | None \<Rightarrow>
               let records = records @ filter (\<lambda>x. rr_type x = qt \<and> eq_ignore_ascii_case (rr_name x) target) (answers msg);
                   rrsigs = rrsigs @ collect_covering_rrsigs (answers msg) target qt;
                   rcode = (if verdict = Secure \<and> rcode = rcode_NOERROR \<and> records = [] \<and> is_compact_nxdomain hop_authority target
                            then rcode_NXDOMAIN else rcode)
               in Some (Some (\<lparr>v_records = records, v_answer_rrsigs = rrsigs, v_authority = hop_authority, v_rcode = rcode,
                         v_verdict = verdict\<rparr>, True), st))
        })"

declare validated_loop.simps [simp del]

text \<open>\<open>t_look\<close> and \<open>t_put\<close> are the readings of the monotonic clock at the lookup and at the insertion.\<close>

definition resolve_validated ::
    "ring \<Rightarrow> key_iter \<Rightarrow> (nat \<Rightarrow> nat) \<Rightarrow> (nat \<Rightarrow> fetcher) \<Rightarrow> (nat \<Rightarrow> fetcher) \<Rightarrow> name \<Rightarrow> u16 \<Rightarrow> u32 \<Rightarrow> nat \<Rightarrow> nat \<Rightarrow> validated_cache \<Rightarrow> chain_state \<Rightarrow>
       (validated option \<times> validated_cache \<times> chain_state) option" where
  "resolve_validated r iter clk ask fetch qn qt now t_look t_put m st =
     (let key = validated_key qn qt in
      case validated_lookup key t_look m of
        (Some v, m) \<Rightarrow> Some (Some v, m, st)
      | (None, m) \<Rightarrow> do {
          (res, st) \<leftarrow> validated_loop r iter clk ask fetch qt now MAX_CNAME qn [] [] Secure st;
          Some (case res of
              None \<Rightarrow> (None, m, st)
            | Some (v, store) \<Rightarrow> (Some v, if store then cache_validated key now t_put v m else m, st))
        })"

section \<open>Lifetimes\<close>

lemma dec_ttls_Some:
  "dec_ttls e rs = Some out \<longleftrightarrow> out = map (\<lambda>r. r\<lparr>rr_ttl := rr_ttl r - e\<rparr>) rs \<and> (\<forall>r \<in> set rs. e < rr_ttl r)"
proof (induction rs arbitrary: out)
  case (Cons r rs)
  have "(e \<le> rr_ttl r \<and> rr_ttl r - e > 0) \<longleftrightarrow> e < rr_ttl r" by (auto simp: order.order_iff_strict word_gt_0)
  with Cons show ?case by auto
qed auto

text \<open>A value with its TTLs reduced.\<close>

definition aged :: "u32 \<Rightarrow> validated \<Rightarrow> validated" where
  "aged e v = (let f = map (\<lambda>r. r\<lparr>rr_ttl := rr_ttl r - e\<rparr>) in
     v\<lparr>v_records := f (v_records v), v_answer_rrsigs := f (v_answer_rrsigs v), v_authority := f (v_authority v)\<rparr>)"

lemma clone_decremented_Some:
  "clone_decremented e v = Some v' \<longleftrightarrow> v' = aged e v \<and>
     (\<forall>r \<in> set (v_records v) \<union> set (v_answer_rrsigs v) \<union> set (v_authority v). e < rr_ttl r)"
  by (cases v) (auto simp: clone_decremented_def dec_ttls_Some aged_def Let_def bind_eq_Some_conv)

lemma aged_positive:
  assumes "\<forall>r \<in> set (v_records v) \<union> set (v_answer_rrsigs v) \<union> set (v_authority v). e < rr_ttl r"
  shows "\<forall>r \<in> set (v_records (aged e v)) \<union> set (v_answer_rrsigs (aged e v)) \<union> set (v_authority (aged e v)). rr_ttl r > 0"
  using assms by (fastforce simp: aged_def Let_def word_gt_0)

lemma fold_min_le:
  fixes ttl :: u32
  shows "fold (\<lambda>r ttl. min ttl (rr_ttl r)) rs ttl \<le> ttl" "r \<in> set rs \<Longrightarrow> fold (\<lambda>r ttl. min ttl (rr_ttl r)) rs ttl \<le> rr_ttl r"
proof -
  show le: "fold (\<lambda>r ttl. min ttl (rr_ttl r)) rs ttl \<le> ttl" for rs and ttl :: u32
    by (induction rs arbitrary: ttl) (simp_all, meson min.boundedE)
  show "fold (\<lambda>r ttl. min ttl (rr_ttl r)) rs ttl \<le> rr_ttl r" if "r \<in> set rs"
    using that by (induction rs arbitrary: ttl) (auto intro: order.trans [OF le])
qed

lemma nearest_fold:
  fixes f :: "rr \<Rightarrow> u32 option"
  defines "step \<equiv> \<lambda>r min_left. case f r of None \<Rightarrow> min_left | Some secs \<Rightarrow> Some (case min_left of None \<Rightarrow> secs | Some m \<Rightarrow> min m secs)"
  shows "acc = Some a \<Longrightarrow> \<exists>m. fold step rs acc = Some m \<and> m \<le> a"
    and "r \<in> set rs \<Longrightarrow> f r = Some s \<Longrightarrow> \<exists>m. fold step rs acc = Some m \<and> m \<le> s"
proof -
  show le: "\<exists>m. fold step rs acc = Some m \<and> m \<le> a" if "acc = Some a" for acc a rs
    using that
  proof (induction rs arbitrary: acc a)
    case (Cons r rs)
    obtain a' where "step r acc = Some a'" "a' \<le> a" using Cons.prems by (cases "f r") (auto simp: step_def)
    with Cons.IH [of "step r acc" a'] show ?case by (auto intro: order.trans)
  qed simp
  show "\<exists>m. fold step rs acc = Some m \<and> m \<le> s" if "r \<in> set rs" and fr: "f r = Some s"
    using that(1)
  proof (induction rs arbitrary: acc)
    case (Cons x rs)
    show ?case
    proof (cases "x = r")
      case True
      obtain a' where "step r acc = Some a'" "a' \<le> s" using fr by (cases acc) (auto simp: step_def)
      with le [of "step r acc" a' rs] True show ?thesis by (auto intro: order.trans)
    next
      case False
      with Cons show ?thesis by simp
    qed
  qed simp
qed

lemma cache_ttl_bounds:
  "cache_ttl now v \<le> VALIDATED_CACHE_TTL_CAP"
  "r \<in> set (v_records v) \<union> set (v_authority v) \<Longrightarrow> cache_ttl now v \<le> rr_ttl r"
  "r \<in> set (v_answer_rrsigs v) \<union> set (v_authority v) \<Longrightarrow> rrsig_secs now r = Some s \<Longrightarrow> cache_ttl now v \<le> s"
proof -
  define t0 where "t0 = fold (\<lambda>r ttl. min ttl (rr_ttl r)) (v_records v @ v_authority v) (- 1 :: u32)"
  define t1 where "t1 = (case nearest_rrsig_secs (v_answer_rrsigs v) (v_authority v) now of Some s \<Rightarrow> min t0 s | None \<Rightarrow> t0)"
  have c: "cache_ttl now v = min (if t1 = - 1 then VALIDATED_CACHE_TTL_CAP else t1) VALIDATED_CACHE_TTL_CAP"
    unfolding cache_ttl_def t0_def t1_def Let_def ..
  have le: "cache_ttl now v \<le> t1" unfolding c by (auto simp: min_def)
  show "cache_ttl now v \<le> VALIDATED_CACHE_TTL_CAP" by (simp add: c)
  have "t1 \<le> t0" by (simp add: t1_def split: option.split)
  then show "cache_ttl now v \<le> rr_ttl r" if "r \<in> set (v_records v) \<union> set (v_authority v)"
    using le fold_min_le(2) [of r "v_records v @ v_authority v" "- 1"] that unfolding t0_def by (auto intro: order.trans)
  show "cache_ttl now v \<le> s" if sig: "r \<in> set (v_answer_rrsigs v) \<union> set (v_authority v)" "rrsig_secs now r = Some s"
  proof -
    obtain m where "nearest_rrsig_secs (v_answer_rrsigs v) (v_authority v) now = Some m" "m \<le> s"
      using nearest_fold(2) [of r "v_answer_rrsigs v @ v_authority v" "rrsig_secs now" s None] sig
      unfolding nearest_rrsig_secs_def set_append by blast
    then show ?thesis using le by (auto simp: t1_def intro: order.trans)
  qed
qed

section \<open>The cache\<close>

text \<open>Nothing bogus, and nothing kept longer than it may be.\<close>

definition validated_entry_ok :: "cached_validated \<Rightarrow> bool" where
  "validated_entry_ok e \<longleftrightarrow> v_verdict (cv_value e) \<noteq> Bogus \<and> cv_expires_at e \<le> cv_inserted_at e + 86400 * SEC \<and>
     (\<forall>r \<in> set (v_records (cv_value e)) \<union> set (v_authority (cv_value e)).
        cv_expires_at e \<le> cv_inserted_at e + unat (rr_ttl r) * SEC)"

definition vc_ok :: "validated_cache \<Rightarrow> bool" where
  "vc_ok m \<longleftrightarrow> distinct (map fst m) \<and> length m \<le> VALIDATED_CACHE_MAX \<and> list_all (\<lambda>(k, e). validated_entry_ok e) m"

lemma list_all_update: "list_all P m \<Longrightarrow> P (k, v) \<Longrightarrow> list_all P (AList.update k v m)"
  by (induction m) auto

lemma cache_validated_ok:
  assumes "vc_ok m"
  shows "vc_ok (cache_validated key now t v m)"
proof -
  let ?e = "\<lparr>cv_value = v, cv_inserted_at = t, cv_expires_at = t + unat (cache_ttl now v) * SEC\<rparr>"
  have "unat (cache_ttl now v) \<le> 86400" using word_le_nat_alt [THEN iffD1, OF cache_ttl_bounds(1) [of now v]] by simp
  moreover have "unat (cache_ttl now v) \<le> unat (rr_ttl r)" if "r \<in> set (v_records v) \<union> set (v_authority v)" for r
    using cache_ttl_bounds(2) [OF that] by (simp add: word_le_nat_alt)
  ultimately have "v_verdict v \<noteq> Bogus \<Longrightarrow> validated_entry_ok ?e" by (simp add: validated_entry_ok_def)
  then show ?thesis using assms
    by (auto simp: vc_ok_def cache_validated_def Let_def distinct_update length_update_key intro: list_all_update)
qed

lemma validated_lookup_spec:
  assumes "vc_ok m" "validated_lookup key t m = (res, m')"
  shows "vc_ok m'" "res = Some v \<Longrightarrow> m' = m \<and> (\<exists>e. map_of m key = Some e \<and> t < cv_expires_at e \<and>
     clone_decremented (of_nat (min ((t - cv_inserted_at e) div SEC) U32_MAX)) (cv_value e) = Some v)"
proof -
  have "list_all P (AList.delete key m)" if "list_all P m" for P
    using that by (auto simp: AList.delete_eq list_all_iff)
  then have "vc_ok (AList.delete key m)"
    using assms(1) length_delete_le [of key m] by (auto simp: vc_ok_def distinct_delete)
  then show "vc_ok m'" using assms by (auto simp: validated_lookup_def split: option.splits)
  show "m' = m \<and> (\<exists>e. map_of m key = Some e \<and> t < cv_expires_at e \<and>
     clone_decremented (of_nat (min ((t - cv_inserted_at e) div SEC) U32_MAX)) (cv_value e) = Some v)" if "res = Some v"
    using assms(2) that by (auto simp: validated_lookup_def split: option.splits if_splits)
qed

text \<open>
  C14. What the cache of validated answers serves. Storing a Bogus answer, or one that has expired, stores nothing.
  A stored answer is served with the same records, their TTLs reduced by the seconds that have passed and all of
  them still positive; it is served for less than a day and, second by second from the wall clock at which it
  was stored, never past the expiration of a signature in its answer or authority section. An answer that may be
  stored is served as it was right after it was stored. The table keeps its bound.
\<close>

theorem validated_cache_lifetime:
  assumes "vc_ok m" "map_of m key = None"
  shows "vc_ok (cache_validated key now t v m) \<and>
    (\<forall>v' m'. validated_lookup key t' (cache_validated key now t v m) = (Some v', m') \<longrightarrow>
       v_verdict v \<noteq> Bogus \<and> (t' - t) div SEC < 86400 \<and> v' = aged (of_nat ((t' - t) div SEC)) v \<and>
       (\<forall>r \<in> set (v_records v') \<union> set (v_answer_rrsigs v') \<union> set (v_authority v'). rr_ttl r > 0) \<and>
       (\<forall>r \<in> set (v_answer_rrsigs v) \<union> set (v_authority v). \<forall>s. rrsig_secs now r = Some s \<longrightarrow> (t' - t) div SEC < unat s)) \<and>
    (v_verdict v \<noteq> Bogus \<longrightarrow> 0 < cache_ttl now v \<longrightarrow> length m < VALIDATED_CACHE_MAX \<longrightarrow>
       (\<forall>r \<in> set (v_records v) \<union> set (v_answer_rrsigs v) \<union> set (v_authority v). rr_ttl r > 0) \<longrightarrow>
       fst (validated_lookup key t (cache_validated key now t v m)) = Some v)"
proof (intro conjI allI impI)
  show "vc_ok (cache_validated key now t v m)" by (rule cache_validated_ok [OF assms(1)])
next
  fix v' m'
  let ?e = "\<lparr>cv_value = v, cv_inserted_at = t, cv_expires_at = t + unat (cache_ttl now v) * SEC\<rparr>"
  let ?d = "(t' - t) div SEC"
  assume l: "validated_lookup key t' (cache_validated key now t v m) = (Some v', m')"
  obtain e where "map_of (cache_validated key now t v m) key = Some e" "t' < cv_expires_at e"
    "clone_decremented (of_nat (min ((t' - cv_inserted_at e) div SEC) U32_MAX)) (cv_value e) = Some v'"
    using validated_lookup_spec(2) [OF cache_validated_ok [OF assms(1)] l refl] by blast
  then have nb: "v_verdict v \<noteq> Bogus" and exp: "t' < t + unat (cache_ttl now v) * SEC" "cache_ttl now v \<noteq> 0"
    and c: "clone_decremented (of_nat (min ?d U32_MAX)) v = Some v'"
    using assms(2) by (auto simp: cache_validated_def Let_def update_conv' split: if_splits)
  have d: "?d < unat (cache_ttl now v)" using exp unat_gt_0 [of "cache_ttl now v"] by (simp add: div_less_iff_less_mult)
  have cap: "unat (cache_ttl now v) \<le> 86400" using word_le_nat_alt [THEN iffD1, OF cache_ttl_bounds(1) [of now v]] by simp
  then have m: "min ?d U32_MAX = ?d" using d by simp
  show "v_verdict v \<noteq> Bogus" "?d < 86400" "v' = aged (of_nat ?d) v"
    using nb d cap c m by (simp_all add: clone_decremented_Some)
  show "\<forall>r \<in> set (v_records v') \<union> set (v_answer_rrsigs v') \<union> set (v_authority v'). rr_ttl r > 0"
    using c by (auto simp only: clone_decremented_Some intro!: aged_positive)
  show "\<forall>r \<in> set (v_answer_rrsigs v) \<union> set (v_authority v). \<forall>s. rrsig_secs now r = Some s \<longrightarrow> ?d < unat s"
  proof (intro ballI allI impI)
    fix r s
    assume "r \<in> set (v_answer_rrsigs v) \<union> set (v_authority v)" "rrsig_secs now r = Some s"
    then have "unat (cache_ttl now v) \<le> unat s" using cache_ttl_bounds(3) by (simp add: word_le_nat_alt)
    with d show "?d < unat s" by simp
  qed
next
  assume a: "v_verdict v \<noteq> Bogus" "0 < cache_ttl now v" "length m < VALIDATED_CACHE_MAX"
    "\<forall>r \<in> set (v_records v) \<union> set (v_answer_rrsigs v) \<union> set (v_authority v). rr_ttl r > 0"
  have "0 < unat (cache_ttl now v)" using a(2) by (simp add: word_less_nat_alt)
  moreover have "clone_decremented 0 v = Some v" using a(4) by (simp add: clone_decremented_Some aged_def Let_def)
  ultimately show "fst (validated_lookup key t (cache_validated key now t v m)) = Some v"
    using a assms(2) by (simp add: cache_validated_def Let_def validated_lookup_def update_conv')
qed

definition sample_validated :: validated where
  "sample_validated = \<lparr>v_records = [\<lparr>rr_name = Name [1, 97, 0], rr_type = 1, rr_class = 1, rr_ttl = 60, rr_data = A 1\<rparr>],
     v_answer_rrsigs = [], v_authority = [], v_rcode = 0, v_verdict = Secure\<rparr>"

theorem validated_cache_lifetime_witness:
  "fst (validated_lookup ([1, 97, 0], 1) 5 (cache_validated ([1, 97, 0], 1) 0 5 sample_validated [])) = Some sample_validated"
proof -
  have "vc_ok []" by (simp add: vc_ok_def)
  moreover have "0 < cache_ttl 0 sample_validated" by (simp add: cache_ttl_def sample_validated_def nearest_rrsig_secs_def Let_def)
  ultimately show ?thesis using validated_cache_lifetime [of "[]" "([1, 97, 0], 1)" 0 5 sample_validated 5] by (simp add: sample_validated_def)
qed

section \<open>Verdicts\<close>

text \<open>What the descents of a resolution return: messages of \<open>M\<close> that parsed.\<close>

definition fetches_ok :: "message set \<Rightarrow> (nat \<Rightarrow> fetcher) \<Rightarrow> bool" where
  "fetches_ok M fetch \<longleftrightarrow> (\<forall>k nm t m. fetch k nm t = Some m \<longrightarrow> msg_named m \<and> m \<in> M)"

text \<open>The keys under which a name is judged: linked to the root anchors, of a zone at or above it.\<close>

definition keys_above :: "ring \<Rightarrow> message set \<Rightarrow> name \<Rightarrow> name \<Rightarrow> byte list list \<Rightarrow> bool" where
  "keys_above r M target zone ks \<longleftrightarrow> below zone target \<and> (\<exists>z. below z zone \<and> trusted r M z ks)"

definition cname_at :: "message \<Rightarrow> name \<Rightarrow> rr \<Rightarrow> name \<Rightarrow> bool" where
  "cname_at msg target cn nxt \<longleftrightarrow> cn \<in> set (answers msg) \<and> rr_type cn = rtype_CNAME \<and>
     eq_ignore_ascii_case (rr_name cn) target \<and> rr_data cn = Cname nxt"

text \<open>
  A chain of messages whose verdicts are secure, with the records taken from them. The last one has no
  CNAME for the name reached, and its record set of the type asked for, or its denial, is secure. A CNAME that is
  followed is signed (\<open>via\<close>), unless the same message also holds records of the type asked for: then
  those are signed and the CNAME need not be (\<open>beside\<close>).
\<close>

inductive secure_chain :: "ring \<Rightarrow> message set \<Rightarrow> u16 \<Rightarrow> u32 \<Rightarrow> name \<Rightarrow> rr list \<Rightarrow> rr list \<Rightarrow> bool" for r M qt now where
  ends: "msg \<in> M \<Longrightarrow> keys_above r M target zone ks \<Longrightarrow> data_secure r target qt msg now zone ks auth \<Longrightarrow>
    \<not> (\<exists>cn nxt. cname_at msg target cn nxt) \<Longrightarrow> secure_chain r M qt now target (owned target qt (answers msg)) auth"
| via: "msg \<in> M \<Longrightarrow> keys_above r M target zone ks \<Longrightarrow> rrset_secure r target rtype_CNAME msg now zone ks \<Longrightarrow>
    cname_at msg target cn nxt \<Longrightarrow> secure_chain r M qt now nxt recs auth \<Longrightarrow> secure_chain r M qt now target (cn # recs) auth"
| beside: "msg \<in> M \<Longrightarrow> keys_above r M target zone ks \<Longrightarrow> rrset_secure r target qt msg now zone ks \<Longrightarrow>
    owned target qt (answers msg) \<noteq> [] \<Longrightarrow> qt \<noteq> rtype_CNAME \<Longrightarrow>
    cname_at msg target cn nxt \<Longrightarrow> secure_chain r M qt now nxt recs auth \<Longrightarrow> secure_chain r M qt now target (cn # recs) auth"

lemma hop_cname_Some: "hop_cname msg target = Some (cn, nxt) \<Longrightarrow> cname_at msg target cn nxt"
proof -
  let ?f = "\<lambda>r. if rr_type r = rtype_CNAME \<and> eq_ignore_ascii_case (rr_name r) target
          then (case rr_data r of Cname nxt \<Rightarrow> Some (r, nxt) | _ \<Rightarrow> None) else None"
  assume "hop_cname msg target = Some (cn, nxt)"
  then have "(cn, nxt) \<in> set (List.map_filter ?f (answers msg))" by (auto simp: hop_cname_def split: list.splits)
  then show "cname_at msg target cn nxt"
    by (auto simp: cname_at_def List.map_filter_def split: if_splits rdata.splits)
qed

lemma hop_cname_None: "hop_cname msg target = None \<Longrightarrow> \<not> cname_at msg target cn nxt"
proof
  let ?f = "\<lambda>r. if rr_type r = rtype_CNAME \<and> eq_ignore_ascii_case (rr_name r) target
          then (case rr_data r of Cname nxt \<Rightarrow> Some (r, nxt) | _ \<Rightarrow> None) else None"
  assume "hop_cname msg target = None" "cname_at msg target cn nxt"
  then have "List.map_filter ?f (answers msg) = []" "cn \<in> set (answers msg)" "?f cn = Some (cn, nxt)"
    by (auto simp: hop_cname_def cname_at_def split: list.splits)
  then show False by (auto simp: List.map_filter_def filter_empty_conv)
qed

lemma hop_cname_valid: "msg_named msg \<Longrightarrow> hop_cname msg target = Some (cn, nxt) \<Longrightarrow> valid_name nxt"
  using hop_cname_Some [of msg target cn nxt] by (auto simp: cname_at_def msg_named_def rr_named_def list_all_iff)

lemma worst_Secure: "worst_verdict a b = Secure \<longleftrightarrow> a = Secure \<and> b = Secure"
  by (cases a; cases b) simp_all

definition hop_secure :: "ring \<Rightarrow> message set \<Rightarrow> u16 \<Rightarrow> u32 \<Rightarrow> name \<Rightarrow> message \<Rightarrow> rr list \<Rightarrow> bool" where
  "hop_secure r M qt now target msg auth \<longleftrightarrow>
     (\<exists>zone ks. keys_above r M target zone ks \<and> data_secure r target qt msg now zone ks auth)"

lemma secure_chain_step:
  assumes "msg \<in> M" "hop_secure r M qt now target msg auth'" "cname_at msg target cn nxt" "secure_chain r M qt now nxt recs auth"
  shows "secure_chain r M qt now target (cn # recs) auth"
proof -
  obtain zone ks where k: "keys_above r M target zone ks" "data_secure r target qt msg now zone ks auth'"
    using assms(2) by (auto simp: hop_secure_def)
  have c: "owned target rtype_CNAME (answers msg) \<noteq> []" using assms(3) by (auto simp: cname_at_def owned_def filter_empty_conv)
  show ?thesis
  proof (cases "owned target qt (answers msg) = [] \<or> qt = rtype_CNAME")
    case True
    with k(2) c have "rrset_secure r target rtype_CNAME msg now zone ks" by (auto simp: data_secure_def split: if_splits)
    from secure_chain.via [OF assms(1) k(1) this assms(3,4)] show ?thesis .
  next
    case False
    with k(2) have "rrset_secure r target qt msg now zone ks" by (auto simp: data_secure_def)
    with False secure_chain.beside [OF assms(1) k(1) this _ _ assms(3,4)] show ?thesis by blast
  qed
qed

lemma secure_chain_end:
  "msg \<in> M \<Longrightarrow> hop_secure r M qt now target msg auth \<Longrightarrow> hop_cname msg target = None \<Longrightarrow>
     secure_chain r M qt now target (filter (\<lambda>x. rr_type x = qt \<and> eq_ignore_ascii_case (rr_name x) target) (answers msg)) auth"
  using secure_chain.ends [of msg M r target] hop_cname_None unfolding hop_secure_def owned_def by blast

lemma validated_hop:
  assumes "iterates iter" "fetches_ok M ask" "fetches_ok M fetch" "valid_name target" "keys_trusted r M st" "ask k target qt = Some msg"
  obtains hv ha st' where "validate_full r iter clk (fetch k) target qt msg now st = Some ((hv, ha), st')" "keys_trusted r M st'"
    "hv = Secure \<longrightarrow> hop_secure r M qt now target msg ha" "msg \<in> M"
proof -
  have f: "fetch_ok M (fetch k)" "named msg" and m: "msg \<in> M"
    using assms(2,3,6) msg_named_named by (auto simp: fetches_ok_def fetch_ok_def)
  from validate_full_verdict [OF assms(1) f assms(4,5)] that m show thesis unfolding hop_secure_def keys_above_def by blast
qed

definition verdict_rests :: "ring \<Rightarrow> message set \<Rightarrow> u16 \<Rightarrow> u32 \<Rightarrow> name \<Rightarrow> rr list \<Rightarrow> verdict \<Rightarrow> validated \<Rightarrow> bool" where
  "verdict_rests r M qt now target recs verdict v \<longleftrightarrow> v_verdict v = Secure \<longrightarrow> verdict = Secure \<and>
     (\<exists>new. v_records v = recs @ new \<and> secure_chain r M qt now target new (v_authority v))"

lemma validated_loop_sound:
  assumes "iterates iter" "fetches_ok M ask" "fetches_ok M fetch"
  shows "valid_name target \<Longrightarrow> keys_trusted r M st \<Longrightarrow>
    \<exists>res st'. validated_loop r iter clk ask fetch qt now left target recs sigs verdict st = Some (res, st') \<and> keys_trusted r M st' \<and>
      (\<forall>v store. res = Some (v, store) \<longrightarrow> verdict_rests r M qt now target recs verdict v)"
proof (induction left arbitrary: target recs sigs verdict st)
  case (0 target recs sigs verdict st)
  show ?case
  proof (cases "ask 0 target qt")
    case None
    then show ?thesis using 0 by (simp add: validated_loop.simps [where cname_left = 0])
  next
    case (Some msg)
    obtain hv ha st' where h: "validate_full r iter clk (fetch 0) target qt msg now st = Some ((hv, ha), st')" "keys_trusted r M st'"
      "hv = Secure \<longrightarrow> hop_secure r M qt now target msg ha" "msg \<in> M" by (rule validated_hop [OF assms 0 Some])
    show ?thesis
      using Some h worst_Secure [of verdict hv] secure_chain_end [OF h(4), of r qt now target ha]
      by (cases "hop_cname msg target") (auto simp: validated_loop.simps [where cname_left = 0] Let_def verdict_rests_def simp del: worst_verdict.simps)
  qed
next
  case (Suc left target recs sigs verdict st)
  show ?case
  proof (cases "ask (Suc left) target qt")
    case None
    then show ?thesis using Suc.prems by (simp add: validated_loop.simps [where cname_left = "Suc left"])
  next
    case (Some msg)
    obtain hv ha st' where h: "validate_full r iter clk (fetch (Suc left)) target qt msg now st = Some ((hv, ha), st')" "keys_trusted r M st'"
      "hv = Secure \<longrightarrow> hop_secure r M qt now target msg ha" "msg \<in> M" by (rule validated_hop [OF assms Suc.prems Some])
    show ?thesis
    proof (cases "hop_cname msg target")
      case None
      then show ?thesis using Some h worst_Secure [of verdict hv] secure_chain_end [OF h(4), of r qt now target ha]
        by (auto simp: validated_loop.simps [where cname_left = "Suc left"] Let_def verdict_rests_def simp del: worst_verdict.simps)
    next
      case (Some c)
      then obtain cn nxt where c: "hop_cname msg target = Some (cn, nxt)" by (cases c) auto
      have v: "valid_name nxt" using hop_cname_valid [OF _ c] assms(2) \<open>ask (Suc left) target qt = Some msg\<close> by (auto simp: fetches_ok_def)
      let ?sigs = "sigs @ collect_covering_rrsigs (answers msg) target rtype_CNAME"
      obtain res st2 where w: "validated_loop r iter clk ask fetch qt now left nxt (recs @ [cn]) ?sigs (worst_verdict verdict hv) st' = Some (res, st2)"
        "keys_trusted r M st2" "\<forall>v store. res = Some (v, store) \<longrightarrow> verdict_rests r M qt now nxt (recs @ [cn]) (worst_verdict verdict hv) v"
        using Suc.IH [OF v h(2)] by blast
      have "verdict_rests r M qt now target recs verdict v" if "res = Some (v, store)" for v store
        using w(3) that h(3) worst_Secure [of verdict hv] secure_chain_step [OF h(4) _ hop_cname_Some [OF c]]
        by (auto simp: verdict_rests_def simp del: worst_verdict.simps)
      moreover have "validated_loop r iter clk ask fetch qt now (Suc left) target recs sigs verdict st = Some (res, st2)"
        using \<open>ask (Suc left) target qt = Some msg\<close> h(1) c w(1)
        by (simp add: validated_loop.simps [where cname_left = "Suc left"] Let_def del: worst_verdict.simps)
      ultimately show ?thesis using w(2) by blast
    qed
  qed
qed

text \<open>A cached answer called Secure rests on a chain for a name with the same key, resolved at an earlier time.\<close>

definition secure_for :: "ring \<Rightarrow> message set \<Rightarrow> byte list \<times> u16 \<Rightarrow> validated \<Rightarrow> bool" where
  "secure_for r M key v \<longleftrightarrow>
     (\<exists>qn now. validated_key qn (snd key) = key \<and> secure_chain r M (snd key) now qn (v_records v) (v_authority v))"

definition vc_sound :: "ring \<Rightarrow> message set \<Rightarrow> validated_cache \<Rightarrow> bool" where
  "vc_sound r M m \<longleftrightarrow> vc_ok m \<and>
     (\<forall>key e. map_of m key = Some e \<longrightarrow> v_verdict (cv_value e) = Secure \<longrightarrow> secure_for r M key (cv_value e))"

lemma cache_validated_sound:
  assumes "vc_sound r M m" "v_verdict v = Secure \<longrightarrow> secure_for r M key v"
  shows "vc_sound r M (cache_validated key now t v m)"
proof -
  have "\<forall>k e. map_of (cache_validated key now t v m) k = Some e \<longrightarrow> v_verdict (cv_value e) = Secure \<longrightarrow> secure_for r M k (cv_value e)"
    using assms by (auto simp: vc_sound_def cache_validated_def Let_def update_conv' split: if_splits)
  then show ?thesis using cache_validated_ok assms(1) by (simp add: vc_sound_def)
qed

lemma validated_lookup_sound:
  assumes "vc_sound r M m" "validated_lookup key t m = (res, m')"
  shows "vc_sound r M m'"
proof -
  have "m' = m \<or> m' = AList.delete key m"
    using assms(2) by (auto simp: validated_lookup_def split: option.splits)
  then have "map_of m' k = Some e \<Longrightarrow> map_of m k = Some e" for k e by (auto simp: delete_conv' split: if_splits)
  with assms validated_lookup_spec(1) [OF _ assms(2)] show ?thesis by (simp add: vc_sound_def)
qed

text \<open>
  C3. A validated resolution never panics and keeps the cache of answers and the cache of keys sound. The answer is
  either an unexpired one from the cache with reduced TTLs, or it was resolved now. An answer called Secure rests on
  a chain of received messages from the name asked for (for a cached one, a name that differs at most in letter
  case, at the time it was resolved), and its records are those of the chain. In the last message the record set of the
  type asked for, or the denial, is secure under keys linked to the root anchors. A CNAME that is followed is signed under
  such keys, except when its message also holds records of the type asked for: then only those are known to be signed.
\<close>

theorem validated_answer_sound:
  assumes "iterates iter" "fetches_ok M ask" "fetches_ok M fetch" "valid_name qn" "keys_trusted r M st" "vc_sound r M m"
  shows "\<exists>res m' st'. resolve_validated r iter clk ask fetch qn qt now t_look t_put m st = Some (res, m', st') \<and>
    vc_sound r M m' \<and> keys_trusted r M st' \<and>
    (\<forall>v. res = Some v \<longrightarrow>
       (\<exists>e d. map_of m (validated_key qn qt) = Some e \<and> t_look < cv_expires_at e \<and> v = aged d (cv_value e) \<and>
          (v_verdict v = Secure \<longrightarrow> secure_for r M (validated_key qn qt) (cv_value e))) \<or>
       (v_verdict v = Secure \<longrightarrow> secure_chain r M qt now qn (v_records v) (v_authority v)))"
proof -
  let ?key = "validated_key qn qt"
  have ok: "vc_ok m" using assms(6) by (simp add: vc_sound_def)
  obtain hit m1 where l: "validated_lookup ?key t_look m = (hit, m1)" by force
  note ls = validated_lookup_spec [OF ok l] and m1 = validated_lookup_sound [OF assms(6) l]
  show ?thesis
  proof (cases hit)
    case (Some v)
    then obtain e where e: "map_of m ?key = Some e" "t_look < cv_expires_at e"
      "v = aged (of_nat (min ((t_look - cv_inserted_at e) div SEC) U32_MAX)) (cv_value e)"
      using ls(2) [OF Some] by (auto simp: clone_decremented_Some)
    moreover have "v_verdict v = v_verdict (cv_value e)" by (simp add: e(3) aged_def Let_def)
    moreover have "v_verdict (cv_value e) = Secure \<longrightarrow> secure_for r M ?key (cv_value e)"
      using assms(6) e(1) unfolding vc_sound_def by blast
    ultimately show ?thesis using Some l m1 assms(5) by (force simp: resolve_validated_def Let_def)
  next
    case None
    obtain res st' where w: "validated_loop r iter clk ask fetch qt now MAX_CNAME qn [] [] Secure st = Some (res, st')" "keys_trusted r M st'"
      "\<forall>v store. res = Some (v, store) \<longrightarrow> verdict_rests r M qt now qn [] Secure v"
      using validated_loop_sound [OF assms(1-5)] by blast
    show ?thesis
    proof (cases res)
      case None
      then show ?thesis using \<open>hit = None\<close> l m1 w by (simp add: resolve_validated_def Let_def)
    next
      case (Some p)
      then obtain v store where p: "res = Some (v, store)" by (cases p) auto
      then have s: "v_verdict v = Secure \<longrightarrow> secure_chain r M qt now qn (v_records v) (v_authority v)"
        using w(3) by (auto simp: verdict_rests_def)
      then have "v_verdict v = Secure \<longrightarrow> secure_for r M ?key v" by (auto simp: secure_for_def validated_key_def)
      then have "vc_sound r M (if store then cache_validated ?key now t_put v m1 else m1)" using cache_validated_sound [OF m1] m1 by simp
      with s show ?thesis using \<open>hit = None\<close> l w p by (simp add: resolve_validated_def Let_def)
    qed
  qed
qed

lemma sample_resolved:
  "\<exists>v m st. resolve_validated sample_ring (\<lambda>xs. xs) (\<lambda>_. 0) (\<lambda>_ _ _. Some sample_answer) (\<lambda>_. sample_fetch) (Name [1, 97, 0]) 1 5 7 7 []
     (sample_walk_state 0 0) = Some (Some v, m, st) \<and> v_verdict v = Secure \<and> v_records v = take 1 (answers sample_answer)"
proof -
  have h: "hop_cname sample_answer (Name [1, 97, 0]) = None"
    "filter (\<lambda>x. rr_type x = 1 \<and> eq_ignore_ascii_case (rr_name x) (Name [1, 97, 0])) (answers sample_answer) = take 1 (answers sample_answer)"
    by code_simp+
  obtain st where "validate_full sample_ring (\<lambda>xs. xs) (\<lambda>_. 0) sample_fetch (Name [1, 97, 0]) 1 sample_answer 5 (sample_walk_state 0 0) = Some ((Secure, []), st)"
    using sample_verdict by blast
  with h show ?thesis by (simp add: resolve_validated_def validated_lookup_def validated_loop.simps Let_def)
qed

theorem validated_answer_sound_witness:
  "\<exists>v m st. resolve_validated sample_ring (\<lambda>xs. xs) (\<lambda>_. 0) (\<lambda>_ _ _. Some sample_answer) (\<lambda>_. sample_fetch) (Name [1, 97, 0]) 1 5 7 7 []
     (sample_walk_state 0 0) = Some (Some v, m, st) \<and> v_verdict v = Secure \<and>
     secure_chain sample_ring sample_messages 1 5 (Name [1, 97, 0]) (v_records v) (v_authority v) \<and> vc_sound sample_ring sample_messages m"
proof -
  have v: "valid_name (Name [1, 97, 0])" "valid_name name_root" by code_simp+
  then have a: "fetches_ok sample_messages (\<lambda>_ _ _. Some sample_answer)"
    by (simp add: fetches_ok_def sample_messages_def sample_answer_def sample_msg_def sample_rr_def sample_raw_def msg_named_def rr_named_def)
  from v have f: "fetches_ok sample_messages (\<lambda>_. sample_fetch)"
    by (auto simp: fetches_ok_def sample_messages_def sample_fetch_def sample_msg_def sample_rr_def sample_raw_def msg_named_def rr_named_def Let_def
        split: if_splits)
  have m: "vc_sound sample_ring sample_messages []" by (simp add: vc_sound_def vc_ok_def)
  from validated_answer_sound [OF iterates_id a f v(1) sample_walk_trusted m, of "\<lambda>_. 0" 1 5 7 7 0 0] sample_resolved
  show ?thesis by fastforce
qed

text \<open>
  The exception is real: a CNAME with no signature at all, beside a signed address record at the same name, is
  followed, and the answer with the CNAME in it is called Secure.
\<close>

definition sample_alias :: rr where
  "sample_alias = sample_rr (Name [1, 97, 0]) rtype_CNAME (Cname (Name [1, 98, 0]))"

definition sample_mixed :: message where
  "sample_mixed = sample_msg (answers sample_answer @ [sample_alias]) []"

definition sample_target :: message where
  "sample_target = sample_msg [sample_rr (Name [1, 98, 0]) rtype_A (A 2), sample_raw (Name [1, 98, 0]) rtype_RRSIG (sample_sig rtype_A 1)] []"

definition sample_ask :: "nat \<Rightarrow> fetcher" where
  "sample_ask k nm t = Some (if nm = Name [1, 97, 0] then sample_mixed else sample_target)"

lemma validate_full_cached:
  "signing_zone msg q = Some (Some zone) \<Longrightarrow> cached_keys clk zone st = Some (Some ks, st') \<Longrightarrow>
     validate_data r q qt msg now zone ks = Some res \<Longrightarrow> validate_full r iter clk fetch q qt msg now st = Some (res, st')"
  by (simp add: validate_full_def trusted_keys_for_def)

lemma unsigned_cname_served:
  "\<exists>v m st. resolve_validated sample_ring (\<lambda>xs. xs) (\<lambda>_. 0) sample_ask (\<lambda>_. sample_fetch) (Name [1, 97, 0]) rtype_A 5 7 7 []
     (sample_walk_state 0 0) = Some (Some v, m, st) \<and> v_verdict v = Secure \<and> sample_alias \<in> set (v_records v) \<and>
   collect_covering_rrsigs (answers sample_mixed) (Name [1, 97, 0]) rtype_CNAME = []"
proof -
  let ?k = "[[0x4A, 0x5D, 3, 8, 1, 1, 1]] :: byte list list" and ?a = "Name [1, 97, 0]" and ?b = "Name [1, 98, 0]"
  have a: "signing_zone sample_mixed ?a = Some (Some name_root)" "cached_keys (\<lambda>_. 0) name_root (sample_walk_state 0 0) = Some (Some ?k, sample_walk_state 1 1)"
    "validate_data sample_ring ?a rtype_A sample_mixed 5 name_root ?k = Some (Secure, [])" by code_simp+
  have b: "signing_zone sample_target ?b = Some (Some name_root)" "cached_keys (\<lambda>_. 0) name_root (sample_walk_state 1 1) = Some (Some ?k, sample_walk_state 2 2)"
    "validate_data sample_ring ?b rtype_A sample_target 5 name_root ?k = Some (Secure, [])" by code_simp+
  have h: "hop_cname sample_mixed ?a = Some (sample_alias, ?b)" "hop_cname sample_target ?b = None"
    "collect_covering_rrsigs (answers sample_mixed) ?a rtype_CNAME = []" by code_simp+
  note v = validate_full_cached [OF a, of "\<lambda>xs. xs" sample_fetch] validate_full_cached [OF b, of "\<lambda>xs. xs" sample_fetch]
  have second: "\<exists>v st. validated_loop sample_ring (\<lambda>xs. xs) (\<lambda>_. 0) sample_ask (\<lambda>_. sample_fetch) rtype_A 5 n ?b [sample_alias] [] Secure
      (sample_walk_state 1 1) = Some (Some (v, True), st) \<and> v_verdict v = Secure \<and> sample_alias \<in> set (v_records v)" for n
    using v(2) h(2) by (simp add: validated_loop.simps [where target = ?b] sample_ask_def Let_def)
  have "MAX_CNAME = Suc (MAX_CNAME - 1)" by simp
  then have "validated_loop sample_ring (\<lambda>xs. xs) (\<lambda>_. 0) sample_ask (\<lambda>_. sample_fetch) rtype_A 5 MAX_CNAME ?a [] [] Secure (sample_walk_state 0 0) =
      validated_loop sample_ring (\<lambda>xs. xs) (\<lambda>_. 0) sample_ask (\<lambda>_. sample_fetch) rtype_A 5 (MAX_CNAME - 1) ?b [sample_alias] [] Secure (sample_walk_state 1 1)"
    using v(1) h(1,3) by (simp add: validated_loop.simps [where target = ?a] sample_ask_def Let_def)
  with second [of "MAX_CNAME - 1"] h(3) show ?thesis by (auto simp: resolve_validated_def validated_lookup_def Let_def)
qed

end
