(* ===== verification/Wire_Present.thy ===== *)
theory Wire_Present
  imports Wire_Message Name_Present Net_Std
begin

unbundle bit_operations_syntax

text \<open>
  One resource record in presentation format, \<open>dns/wire/present.rs\<close>: the reader of the \<open>local-data\<close>
  lines of the configuration. \<open>hex::decode\<close> of the \<open>hex\<close> package is the argument \<open>hex\<close>. Every index of
  the source is behind a length check, so the only \<open>option\<close> here is the code's own.
\<close>

section \<open>The code\<close>

text \<open>The UTF-8 octets of a text, \<open>str::as_bytes\<close>.\<close>

definition utf8_char :: "nat \<Rightarrow> byte list" where
  "utf8_char c =
     (if c < 0x80 then [of_nat c]
      else if c < 0x800 then [of_nat (0xC0 + c div 64), of_nat (0x80 + c mod 64)]
      else if c < 0x10000 then
        [of_nat (0xE0 + c div 4096), of_nat (0x80 + c div 64 mod 64), of_nat (0x80 + c mod 64)]
      else [of_nat (0xF0 + c div 262144), of_nat (0x80 + c div 4096 mod 64), of_nat (0x80 + c div 64 mod 64),
        of_nat (0x80 + c mod 64)])"

definition utf8 :: "str \<Rightarrow> byte list" where
  "utf8 s = concat (map utf8_char s)"

definition char_to_upper :: "nat \<Rightarrow> nat" where
  "char_to_upper c = (if 97 \<le> c \<and> c \<le> 122 then c - 32 else c)"

definition to_ascii_uppercase :: "str \<Rightarrow> str" where
  "to_ascii_uppercase s = map char_to_upper s"

fun join_space :: "str list \<Rightarrow> str" where
  "join_space [] = []"
| "join_space [s] = s"
| "join_space (s # t # ts) = s @ 32 # join_space (t # ts)"

definition fqdn :: "str \<Rightarrow> str" where
  "fqdn s = (if s \<noteq> [] \<and> last s = 46 then s else s @ [46])"

definition parse_name :: "str \<Rightarrow> name option" where
  "parse_name s = (case from_ascii (utf8 s) of Inl _ \<Rightarrow> None | Inr n \<Rightarrow> Some n)"

definition parse_u8 :: "str \<Rightarrow> byte option" where
  "parse_u8 s = map_option of_nat (parse_uint 255 s)"

definition parse_u16 :: "str \<Rightarrow> u16 option" where
  "parse_u16 s = map_option of_nat (parse_uint 65535 s)"

definition parse_u32 :: "str \<Rightarrow> u32 option" where
  "parse_u32 s = map_option of_nat (parse_uint 4294967295 s)"

definition unquote :: "str \<Rightarrow> str" where
  "unquote s = trim_matches (\<lambda>c. c = 34) s"

definition parse_soa :: "str list \<Rightarrow> rdata option" where
  "parse_soa rest = do {
     mname \<leftarrow> Option.bind (index rest 0) parse_name;
     rname \<leftarrow> Option.bind (index rest 1) parse_name;
     serial \<leftarrow> Option.bind (index rest 2) parse_u32;
     refresh \<leftarrow> Option.bind (index rest 3) parse_u32;
     retry \<leftarrow> Option.bind (index rest 4) parse_u32;
     expire \<leftarrow> Option.bind (index rest 5) parse_u32;
     minimum \<leftarrow> Option.bind (index rest 6) parse_u32;
     Some (Soa mname rname serial refresh retry expire minimum)
   }"

definition parse_mx :: "str list \<Rightarrow> rdata option" where
  "parse_mx rest = do {
     preference \<leftarrow> Option.bind (index rest 0) parse_u16;
     exchange \<leftarrow> Option.bind (index rest 1) parse_name;
     Some (Mx preference exchange)
   }"

definition parse_srv :: "str list \<Rightarrow> rdata option" where
  "parse_srv rest = do {
     priority \<leftarrow> Option.bind (index rest 0) parse_u16;
     weight \<leftarrow> Option.bind (index rest 1) parse_u16;
     port \<leftarrow> Option.bind (index rest 2) parse_u16;
     target \<leftarrow> Option.bind (index rest 3) parse_name;
     Some (Srv priority weight port target)
   }"

definition parse_caa :: "str list \<Rightarrow> rdata option" where
  "parse_caa rest = do {
     flags \<leftarrow> Option.bind (index rest 0) parse_u8;
     tag \<leftarrow> index rest 1;
     if tag \<noteq> ascii ''issue'' \<and> tag \<noteq> ascii ''issuewild'' then None
     else Some (Caa (flags AND 0x80) (utf8 tag)
       (utf8 (trim_end_matches (\<lambda>c. c = 46) (unquote (join_space (drop 2 rest))))))
   }"

definition parse_sshfp :: "(str \<Rightarrow> byte list option) \<Rightarrow> str list \<Rightarrow> rdata option" where
  "parse_sshfp hex rest = do {
     algo \<leftarrow> Option.bind (index rest 0) parse_u8;
     fp_type \<leftarrow> Option.bind (index rest 1) parse_u8;
     fp \<leftarrow> Option.bind (index rest 2) hex;
     Some (Unknown rtype_SSHFP ([algo, fp_type] @ fp))
   }"

definition parse_tlsa :: "(str \<Rightarrow> byte list option) \<Rightarrow> str list \<Rightarrow> rdata option" where
  "parse_tlsa hex rest = do {
     cert_usage \<leftarrow> Option.bind (index rest 0) parse_u8;
     selector \<leftarrow> Option.bind (index rest 1) parse_u8;
     matching \<leftarrow> Option.bind (index rest 2) parse_u8;
     cert \<leftarrow> Option.bind (index rest 3) hex;
     Some (Unknown rtype_TLSA ([cert_usage, selector, matching] @ cert))
   }"

text \<open>One character-string of a NAPTR record, with its length octet.\<close>

definition naptr_string :: "str list \<Rightarrow> nat \<Rightarrow> byte list option" where
  "naptr_string rest i = do {
     s \<leftarrow> map_option unquote (index rest i);
     if length (utf8 s) > 255 then None else Some (of_nat (length (utf8 s)) # utf8 s)
   }"

definition parse_naptr :: "str list \<Rightarrow> rdata option" where
  "parse_naptr rest = do {
     order \<leftarrow> Option.bind (index rest 0) parse_u16;
     preference \<leftarrow> Option.bind (index rest 1) parse_u16;
     s2 \<leftarrow> naptr_string rest 2;
     s3 \<leftarrow> naptr_string rest 3;
     s4 \<leftarrow> naptr_string rest 4;
     replacement \<leftarrow> Option.bind (index rest 5) parse_name;
     Some (Unknown rtype_NAPTR (u16_to_be order @ u16_to_be preference @ s2 @ s3 @ s4 @ name_wire replacement))
   }"

definition parse_txt :: "str list \<Rightarrow> rdata" where
  "parse_txt rest = Txt [utf8 (unquote (join_space rest))]"

definition parse_rdata :: "(str \<Rightarrow> byte list option) \<Rightarrow> str \<Rightarrow> str list \<Rightarrow> rdata option" where
  "parse_rdata hex ty rest =
     (if ty = ascii ''A'' then map_option A (Option.bind (index rest 0) parse_ipv4)
      else if ty = ascii ''AAAA'' then map_option Aaaa (Option.bind (index rest 0) parse_ipv6)
      else if ty = ascii ''NS'' then map_option Ns (Option.bind (index rest 0) parse_name)
      else if ty = ascii ''CNAME'' then map_option Cname (Option.bind (index rest 0) parse_name)
      else if ty = ascii ''SOA'' then parse_soa rest
      else if ty = ascii ''PTR'' then map_option Ptr (Option.bind (index rest 0) parse_name)
      else if ty = ascii ''MX'' then parse_mx rest
      else if ty = ascii ''TXT'' then Some (parse_txt rest)
      else if ty = ascii ''SRV'' then parse_srv rest
      else if ty = ascii ''CAA'' then parse_caa rest
      else if ty = ascii ''SSHFP'' then parse_sshfp hex rest
      else if ty = ascii ''TLSA'' then parse_tlsa hex rest
      else if ty = ascii ''NAPTR'' then parse_naptr rest
      else None)"

text \<open>The optional TTL and class in front of the type: the TTL and what follows.\<close>

definition ttl_and_class :: "str list \<Rightarrow> u32 \<times> str list" where
  "ttl_and_class parts =
     (let (ttl, parts) = (case parts of
            [] \<Rightarrow> (300, [])
          | p # ps \<Rightarrow> (case parse_u32 p of Some t \<Rightarrow> (t, ps) | None \<Rightarrow> (300, p # ps)))
      in case parts of
           [] \<Rightarrow> (ttl, [])
         | p # ps \<Rightarrow>
             if to_ascii_uppercase p \<in> {ascii ''IN'', ascii ''CH'', ascii ''HS'', ascii ''ANY''}
             then (ttl, ps) else (ttl, p # ps))"

definition parse_rr_line :: "(str \<Rightarrow> byte list option) \<Rightarrow> str \<Rightarrow> rr option" where
  "parse_rr_line hex line =
     (case split_whitespace line of
        owner # p1 # p2 # ps \<Rightarrow>
          (case ttl_and_class (p1 # p2 # ps) of
             (ttl, []) \<Rightarrow> None
           | (ttl, ty # rest) \<Rightarrow> do {
               n \<leftarrow> parse_name (fqdn owner);
               if rest = [] then None
               else do {
                 rd \<leftarrow> parse_rdata hex (to_ascii_uppercase ty) rest;
                 Some \<lparr>rr_name = n, rr_type = rdata_rtype rd, rr_class = class_IN, rr_ttl = ttl, rr_data = rd\<rparr>
               }
             })
      | _ \<Rightarrow> None)"

section \<open>The records are well formed\<close>

lemma parse_name_valid: "parse_name s = Some n \<Longrightarrow> valid_name n"
  by (auto simp: parse_name_def from_ascii_valid split: sum.splits)

lemma length_name_wire: "valid_name n \<Longrightarrow> length (name_wire n) \<le> 255"
  by (elim valid_nameE) simp

text \<open>Trimming and joining do not lengthen a text.\<close>

lemma length_utf8_append [simp]: "length (utf8 (s @ t)) = length (utf8 s) + length (utf8 t)"
  by (simp add: utf8_def)

lemma utf8_dropWhile_le: "length (utf8 (dropWhile p s)) \<le> length (utf8 s)"
  by (induction s) (auto simp: utf8_def)

lemma utf8_Nil [simp]: "utf8 [] = []"
  by (simp add: utf8_def)

lemma utf8_rev [simp]: "length (utf8 (rev s)) = length (utf8 s)"
  by (induction s) (simp_all add: utf8_def)

lemma utf8_trim_le: "length (utf8 (trim_end_matches p s)) \<le> length (utf8 s)" "length (utf8 (unquote s)) \<le> length (utf8 s)"
proof -
  show *: "length (utf8 (trim_end_matches p s)) \<le> length (utf8 s)" for p s
    using utf8_dropWhile_le [of p "rev s"] by (simp add: trim_end_matches_def)
  show "length (utf8 (unquote s)) \<le> length (utf8 s)"
    using * [of "\<lambda>c. c = 34" "dropWhile (\<lambda>c. c = 34) s"] utf8_dropWhile_le [of "\<lambda>c. c = 34" s]
    by (simp add: unquote_def trim_matches_def trim_start_matches_def)
qed

definition spaced :: "str list \<Rightarrow> nat" where
  "spaced ws = sum_list (map (\<lambda>w. length (utf8 w) + 1) ws)"

lemma spaced_simps [simp]: "spaced [] = 0" "spaced (w # ws) = length (utf8 w) + 1 + spaced ws"
  by (simp_all add: spaced_def)

lemma spaced_join: "length (utf8 (join_space ws)) \<le> spaced ws"
proof (induction ws rule: join_space.induct)
  case (3 s t ts)
  have "length (utf8 (32 # u)) = 1 + length (utf8 u)" for u by (simp add: utf8_def utf8_char_def)
  with 3 show ?case by simp
qed simp_all

lemma spaced_drop: "spaced (drop n ws) \<le> spaced ws"
proof (induction ws arbitrary: n)
  case (Cons w ws)
  from Cons.IH [of "n - 1"] show ?case by (cases n) simp_all
qed simp

lemma spaced_nth: "index ws i = Some w \<Longrightarrow> length (utf8 w) < spaced ws"
proof (induction ws arbitrary: i)
  case (Cons v ws)
  show ?case using Cons.prems Cons.IH [of "i - 1"] by (cases i) (auto simp: index_def split: if_splits)
qed (simp add: index_def)

text \<open>Each word of a line and the white space behind it take their octets in the line.\<close>

lemma utf8_split: "length (utf8 (takeWhile p s)) + length (utf8 (dropWhile p s)) = length (utf8 s)"
  by (metis length_utf8_append takeWhile_dropWhile_id)

lemma utf8_Cons: "length (utf8 s) < length (utf8 (c # s))"
  by (simp add: utf8_def utf8_char_def)

lemma spaced_split:
  "spaced (split_whitespace s) \<le> length (utf8 s) + 1 \<and>
     (s = [] \<or> is_whitespace (hd s) \<longrightarrow> spaced (split_whitespace s) \<le> length (utf8 s))"
proof (induction s rule: split_whitespace.induct)
  case (1 s)
  let ?r = "dropWhile is_whitespace s"
  let ?t = "takeWhile (\<lambda>c. \<not> is_whitespace c) ?r" and ?d = "dropWhile (\<lambda>c. \<not> is_whitespace c) ?r"
  show ?case
  proof (cases "?r = []")
    case True
    then show ?thesis by (subst (1 2) split_whitespace.simps) simp
  next
    case False
    then have split: "split_whitespace s = ?t # split_whitespace ?d" by (subst split_whitespace.simps) (simp add: Let_def)
    have "?d = [] \<or> is_whitespace (hd ?d)" using hd_dropWhile [of "\<lambda>c. \<not> is_whitespace c" ?r] by auto
    then have "spaced (split_whitespace ?d) \<le> length (utf8 ?d)" using 1 [OF refl False] by simp
    then have r: "spaced (split_whitespace s) \<le> length (utf8 ?r) + 1"
      using utf8_split [of "\<lambda>c. \<not> is_whitespace c" ?r] by (simp add: split)
    have "length (utf8 ?r) < length (utf8 s)" if "is_whitespace (hd s)" "s \<noteq> []"
      using that utf8_dropWhile_le [of is_whitespace "tl s"] utf8_Cons [of "tl s" "hd s"] by (cases s) auto
    moreover have "s \<noteq> []" using False by auto
    ultimately show ?thesis using r utf8_dropWhile_le [of is_whitespace s] by fastforce
  qed
qed

lemma spaced_ttl_and_class: "ttl_and_class ps = (ttl, qs) \<Longrightarrow> spaced qs \<le> spaced ps"
  by (auto simp: ttl_and_class_def Let_def split: list.splits option.splits if_splits)

text \<open>What the data parsers return, from words that fit into a message.\<close>

definition hex_halves :: "(str \<Rightarrow> byte list option) \<Rightarrow> bool" where
  "hex_halves hex \<longleftrightarrow> (\<forall>s d. hex s = Some d \<longrightarrow> 2 * length d = length (utf8 s))"

definition long_txt :: "rdata \<Rightarrow> bool" where
  "long_txt rd \<longleftrightarrow> (\<exists>s. rd = Txt [s] \<and> 255 < length s)"

lemma parse_naptr_ok: "parse_naptr rest = Some rd \<Longrightarrow> rdata_ok (rdata_rtype rd) rd"
  by (auto simp: parse_naptr_def naptr_string_def rdata_ok_def
      split: bind_splits if_splits dest!: parse_name_valid length_name_wire)

lemma parse_caa_ok: "parse_caa rest = Some rd \<Longrightarrow> spaced rest \<le> 65000 \<Longrightarrow> rdata_ok (rdata_rtype rd) rd"
  using spaced_join [of "drop 2 rest"] spaced_drop [of 2 rest] utf8_trim_le(2) [of "join_space (drop 2 rest)"]
    utf8_trim_le(1) [of "\<lambda>c. c = 46" "unquote (join_space (drop 2 rest))"]
  by (auto simp: parse_caa_def rdata_ok_def ascii_def utf8_def utf8_char_def split: bind_splits if_splits)

lemma parse_hex_ok:
  assumes "hex_halves hex" "spaced rest \<le> 65000"
  shows "parse_sshfp hex rest = Some rd \<Longrightarrow> rdata_ok (rdata_rtype rd) rd"
    and "parse_tlsa hex rest = Some rd \<Longrightarrow> rdata_ok (rdata_rtype rd) rd"
proof -
  have "length d \<le> 65000" if "index rest i = Some w" "hex w = Some d" for i w d
    using assms that spaced_nth [OF that(1)] unfolding hex_halves_def by fastforce
  then show "parse_sshfp hex rest = Some rd \<Longrightarrow> rdata_ok (rdata_rtype rd) rd"
    and "parse_tlsa hex rest = Some rd \<Longrightarrow> rdata_ok (rdata_rtype rd) rd"
    by (fastforce simp: parse_sshfp_def parse_tlsa_def rdata_ok_def split: bind_splits)+
qed

lemma parse_rdata_ok:
  assumes "hex_halves hex" "spaced rest \<le> 65000" "parse_rdata hex ty rest = Some rd"
  shows "rdata_ok (rdata_rtype rd) rd \<or> long_txt rd"
proof -
  have "length (utf8 (unquote (join_space rest))) \<le> 65000"
    using spaced_join [of rest] utf8_trim_le(2) [of "join_space rest"] assms(2) by simp
  then have tx: "rdata_ok (rdata_rtype (parse_txt rest)) (parse_txt rest) \<or> long_txt (parse_txt rest)"
    by (auto simp: parse_txt_def rdata_ok_def long_txt_def txt_wire_def)
  have nm: "rdata_ok (rdata_rtype (f n)) (f n)" if "valid_name n" "f = Ns \<or> f = Cname \<or> f = Ptr" for f n
    using that length_name_wire [OF that(1)] by (auto simp: rdata_ok_def)
  have "parse_soa rest = Some rd \<Longrightarrow> rdata_ok (rdata_rtype rd) rd" "parse_mx rest = Some rd \<Longrightarrow> rdata_ok (rdata_rtype rd) rd"
    "parse_srv rest = Some rd \<Longrightarrow> rdata_ok (rdata_rtype rd) rd"
    by (auto simp: parse_soa_def parse_mx_def parse_srv_def rdata_ok_def split: bind_splits
        dest!: parse_name_valid) (auto dest!: length_name_wire)
  note this parse_caa_ok parse_naptr_ok parse_hex_ok [OF assms(1,2)]
  with assms(2,3) tx nm show ?thesis unfolding parse_rdata_def
    by (auto simp: rdata_ok_def length_be_bytes split: if_splits bind_splits dest!: parse_name_valid)
qed

lemma parse_rr_lineE:
  assumes "parse_rr_line hex line = Some r"
  obtains owner p1 p2 ps ttl ty rest n rd where
    "split_whitespace line = owner # p1 # p2 # ps" "ttl_and_class (p1 # p2 # ps) = (ttl, ty # rest)"
    "parse_name (fqdn owner) = Some n" "parse_rdata hex (to_ascii_uppercase ty) rest = Some rd"
    "r = \<lparr>rr_name = n, rr_type = rdata_rtype rd, rr_class = class_IN, rr_ttl = ttl, rr_data = rd\<rparr>"
  using assms by (auto simp: parse_rr_line_def split: list.splits prod.splits bind_splits if_splits)

lemma parse_rr_line_typed:
  "parse_rr_line hex line = Some r \<Longrightarrow>
    valid_name (rr_name r) \<and> rr_class r = class_IN \<and> rr_type r = rdata_rtype (rr_data r)"
  by (erule parse_rr_lineE) (simp add: parse_name_valid)

text \<open>
  C27. A line in presentation format that is accepted gives a record that can be carried on the wire:
  a valid owner name, class IN, the type of its data, and data that the codec reads back, with one
  exception that the code does not guard against, a TXT string of more than 255 octets.
\<close>

theorem parse_rr_line_ok:
  assumes "hex_halves hex" "length (utf8 line) \<le> 64999" "parse_rr_line hex line = Some r"
  shows "valid_name (rr_name r) \<and> rr_class r = class_IN \<and> rr_type r = rdata_rtype (rr_data r) \<and>
    (rr_ok r \<or> long_txt (rr_data r))"
proof -
  from assms(3) obtain owner p1 p2 ps ttl ty rest n rd where
    s: "split_whitespace line = owner # p1 # p2 # ps" "ttl_and_class (p1 # p2 # ps) = (ttl, ty # rest)"
    "parse_name (fqdn owner) = Some n" "parse_rdata hex (to_ascii_uppercase ty) rest = Some rd"
    "r = \<lparr>rr_name = n, rr_type = rdata_rtype rd, rr_class = class_IN, rr_ttl = ttl, rr_data = rd\<rparr>"
    by (rule parse_rr_lineE)
  have "spaced rest \<le> 65000"
    using spaced_split [of line] spaced_ttl_and_class [OF s(2)] assms(2) by (simp add: s(1))
  with parse_rdata_ok [OF assms(1) this s(4)] s show ?thesis by (simp add: rr_ok_def parse_name_valid)
qed

text \<open>A sample line, evaluated step by step.\<close>

lemma sample_words: "split_whitespace (ascii ''a 60 A 1.2.3.4'') = map ascii [''a'', ''60'', ''A'', ''1.2.3.4'']"
  by (simp add: net_eval split_whitespace.simps)

lemma sample_ip: "parse_ipv4 (ascii ''1.2.3.4'') = Some 0x01020304"
  by (simp add: net_eval)

lemma sample_name: "parse_name (fqdn (ascii ''a'')) = Some (Name [1, 97, 0])"
  by code_simp

lemma sample_ttl: "ttl_and_class (map ascii [''60'', ''A'', ''1.2.3.4'']) = (60, map ascii [''A'', ''1.2.3.4''])"
  by (simp add: ttl_and_class_def parse_u32_def net_eval to_ascii_uppercase_def char_to_upper_def)

lemma sample_line: "parse_rr_line (\<lambda>_. None) (ascii ''a 60 A 1.2.3.4'') =
    Some \<lparr>rr_name = Name [1, 97, 0], rr_type = 1, rr_class = 1, rr_ttl = 60, rr_data = A 0x01020304\<rparr>"
proof -
  have "to_ascii_uppercase (ascii ''A'') = ascii ''A''" by code_simp
  then show ?thesis using sample_words sample_ip sample_name sample_ttl
    by (simp add: parse_rr_line_def parse_rdata_def index_def)
qed

theorem parse_rr_line_ok_witness:
  "\<exists>r. parse_rr_line (\<lambda>_. None) (ascii ''a 60 A 1.2.3.4'') = Some r \<and> rr_ok r \<and> rr_ttl r = 60"
proof -
  have h: "hex_halves (\<lambda>_. None)" by (simp add: hex_halves_def)
  have l: "length (utf8 (ascii ''a 60 A 1.2.3.4'')) \<le> 64999"
    by (simp add: utf8_def utf8_char_def ascii_def)
  show ?thesis using parse_rr_line_ok [OF h l sample_line] unfolding sample_line by (simp add: long_txt_def)
qed

end
