(* ===== verification/Simd_Scan.thy ===== *)
theory Simd_Scan
  imports Prelude
begin

unbundle bit_operations_syntax

text \<open>
  The vectorised byte routines of the packet fast path, \<open>dns/simd.rs\<close>: lower-casing, equality and the
  search for a zero octet. A vector register is the list of its lanes, and each instruction of the
  inline assembly is a function on lanes. The detected instruction-set level and the target are
  arguments, so that every build and every dispatch is covered.
\<close>

section \<open>The code\<close>

datatype simd_level = Scalar | Sse2 | Sse42 | Avx2 | Avx512

text \<open>The instructions: \<open>pcmpgtb\<close> compares signed bytes, \<open>pmovmskb\<close> collects the top bits.\<close>

definition splat :: "nat \<Rightarrow> byte \<Rightarrow> byte list" where
  "splat n b = replicate n b"

definition pxor :: "byte list \<Rightarrow> byte list \<Rightarrow> byte list" where
  "pxor = map2 (XOR)"

definition pand :: "byte list \<Rightarrow> byte list \<Rightarrow> byte list" where
  "pand = map2 (AND)"

definition por :: "byte list \<Rightarrow> byte list \<Rightarrow> byte list" where
  "por = map2 (OR)"

definition pcmpgtb :: "byte list \<Rightarrow> byte list \<Rightarrow> byte list" where
  "pcmpgtb = map2 (\<lambda>a b. if sint b < sint a then 0xFF else 0)"

definition pcmpeqb :: "byte list \<Rightarrow> byte list \<Rightarrow> byte list" where
  "pcmpeqb = map2 (\<lambda>a b. if a = b then 0xFF else 0)"

definition pmovmskb :: "byte list \<Rightarrow> u32" where
  "pmovmskb v = foldr (\<lambda>l m. push_bit 1 m OR (if bit l 7 then 1 else 0)) v 0"

definition trailing_zeros :: "u32 \<Rightarrow> nat" where
  "trailing_zeros w = length (takeWhile (\<lambda>i. \<not> bit w i) [0..<32])"

text \<open>The body of the lower-casing loops, for a register of \<open>n\<close> lanes.\<close>

definition lower_lanes :: "nat \<Rightarrow> byte list \<Rightarrow> byte list" where
  "lower_lanes n inp =
     (let bsd = pxor inp (splat n 0x80);
          lop = pcmpgtb bsd (splat n 0xC0);
          hip = pcmpgtb (splat n 0xDB) bsd;
          lop = pand lop hip;
          lop = pand lop (splat n 0x20)
      in por inp lop)"

definition lower_scalar :: "byte list \<Rightarrow> byte list" where
  "lower_scalar src = map (\<lambda>b. if b \<ge> 65 \<and> b \<le> 90 then b OR 0x20 else b) src"

function sse2_loop :: "byte list \<Rightarrow> byte list \<Rightarrow> byte list" where
  "sse2_loop dst src =
     (if length src \<ge> 16 then sse2_loop (dst @ lower_lanes 16 (take 16 src)) (drop 16 src)
      else dst @ lower_scalar src)"
  by pat_completeness auto
termination
  by (relation "measure (\<lambda>(dst, src). length src)") auto

definition copy_lowercase_sse2 :: "byte list \<Rightarrow> byte list \<Rightarrow> byte list" where
  "copy_lowercase_sse2 dst src = sse2_loop dst src"

function avx2_loop :: "byte list \<Rightarrow> byte list \<Rightarrow> byte list" where
  "avx2_loop dst src =
     (if length src \<ge> 32 then avx2_loop (dst @ lower_lanes 32 (take 32 src)) (drop 32 src)
      else if length src \<ge> 16 then dst @ lower_lanes 16 (take 16 src) @ lower_scalar (drop 16 src)
      else dst @ lower_scalar src)"
  by pat_completeness auto
termination
  by (relation "measure (\<lambda>(dst, src). length src)") auto

definition copy_lowercase_avx2 :: "byte list \<Rightarrow> byte list \<Rightarrow> byte list" where
  "copy_lowercase_avx2 dst src = avx2_loop dst src"

definition copy_lowercase_label :: "bool \<Rightarrow> simd_level \<Rightarrow> byte list \<Rightarrow> byte list \<Rightarrow> byte list" where
  "copy_lowercase_label x86_64 level dst src =
     (if x86_64 then
        (if level = Avx2 \<or> level = Avx512 then copy_lowercase_avx2 dst src
         else copy_lowercase_sse2 dst src)
      else dst @ lower_scalar src)"

text \<open>The scalar tail of the comparisons.\<close>

fun tail_eq :: "byte list \<Rightarrow> byte list \<Rightarrow> bool" where
  "tail_eq (x # xs) (y # ys) = (if x \<noteq> y then False else tail_eq xs ys)"
| "tail_eq _ _ = True"

function bytes_eq_sse2 :: "byte list \<Rightarrow> byte list \<Rightarrow> bool" where
  "bytes_eq_sse2 a b =
     (if length a \<ge> 16 then
        (if pmovmskb (pcmpeqb (take 16 a) (take 16 b)) \<noteq> 0xFFFF then False
         else bytes_eq_sse2 (drop 16 a) (drop 16 b))
      else tail_eq a b)"
  by pat_completeness auto
termination
  by (relation "measure (\<lambda>(a, b). length a)") auto

function bytes_eq_avx2 :: "byte list \<Rightarrow> byte list \<Rightarrow> bool" where
  "bytes_eq_avx2 a b =
     (if length a \<ge> 32 then
        (if pmovmskb (pcmpeqb (take 32 a) (take 32 b)) \<noteq> 0xFFFFFFFF then False
         else bytes_eq_avx2 (drop 32 a) (drop 32 b))
      else if length a \<ge> 16 then
        (if pmovmskb (pcmpeqb (take 16 a) (take 16 b)) \<noteq> 0xFFFF then False
         else tail_eq (drop 16 a) (drop 16 b))
      else tail_eq a b)"
  by pat_completeness auto
termination
  by (relation "measure (\<lambda>(a, b). length a)") auto

definition bytes_eq :: "bool \<Rightarrow> simd_level \<Rightarrow> byte list \<Rightarrow> byte list \<Rightarrow> bool" where
  "bytes_eq x86_64 level a b =
     (if length a \<noteq> length b then False
      else if x86_64 then
        (if level = Avx2 \<or> level = Avx512 then bytes_eq_avx2 a b else bytes_eq_sse2 a b)
      else a = b)"

text \<open>\<open>Iterator::position\<close>\<close>

fun position :: "('a \<Rightarrow> bool) \<Rightarrow> 'a list \<Rightarrow> nat option" where
  "position P [] = None"
| "position P (x # xs) = (if P x then Some 0 else map_option Suc (position P xs))"

function find_zero_tail :: "byte list \<Rightarrow> nat \<Rightarrow> nat \<Rightarrow> nat option" where
  "find_zero_tail bytes limit pos =
     (if pos < limit then (if bytes ! pos = 0 then Some pos else find_zero_tail bytes limit (pos + 1))
      else None)"
  by pat_completeness auto
termination
  by (relation "measure (\<lambda>(bytes, limit, pos). limit - pos)") auto

function find_zero_sse2 :: "byte list \<Rightarrow> nat \<Rightarrow> nat \<Rightarrow> nat option" where
  "find_zero_sse2 bytes limit pos =
     (if pos + 16 \<le> limit then
        (let mask = pmovmskb (pcmpeqb (take 16 (drop pos bytes)) (splat 16 0)) in
         if mask \<noteq> 0 then Some (pos + trailing_zeros mask) else find_zero_sse2 bytes limit (pos + 16))
      else find_zero_tail bytes limit pos)"
  by pat_completeness auto
termination
  by (relation "measure (\<lambda>(bytes, limit, pos). limit - pos)") auto

definition find_zero :: "bool \<Rightarrow> byte list \<Rightarrow> nat option" where
  "find_zero x86_64 bytes =
     (let limit = min (length bytes) 255 in
      if x86_64 then find_zero_sse2 bytes limit 0 else position (\<lambda>b. b = 0) (take limit bytes))"

lemmas simd_loops = sse2_loop.simps avx2_loop.simps bytes_eq_sse2.simps bytes_eq_avx2.simps
  find_zero_tail.simps find_zero_sse2.simps

declare simd_loops [simp del]

section \<open>Lower-casing\<close>

lemma byte_exhaust:
  assumes "\<forall>n \<in> set [0..<256]. P (of_nat n :: byte)"
  shows "P b"
proof -
  have "unat b \<in> set [0..<256]" using unat_byte_le [of b] by (simp del: upt_Suc)
  with assms have "P (of_nat (unat b))" by blast
  then show ?thesis by simp
qed

lemma sint_bias: "sint (b XOR 0x80 :: byte) = uint b - 128"
  by (rule byte_exhaust) code_simp

lemma upper_uint: "(65 :: byte) \<le> b \<longleftrightarrow> 64 < uint b" "b \<le> (90 :: byte) \<longleftrightarrow> uint b < 91"
  by (auto simp: word_le_def)

lemma lower_lanes: "length inp = n \<Longrightarrow> lower_lanes n inp = lower inp"
  unfolding lower_lanes_def pxor_def pcmpgtb_def pand_def por_def splat_def Let_def
  by (rule nth_equalityI) (auto simp: sint_bias to_ascii_lowercase_def upper_uint)

lemma lower_scalar: "lower_scalar src = lower src"
  by (simp add: lower_scalar_def to_ascii_lowercase_def)

lemma lower_split: "lower (take n src) @ lower (drop n src) = lower src"
  by (simp flip: map_append)

lemma sse2_loop: "sse2_loop dst src = dst @ lower src"
proof (induction dst src rule: sse2_loop.induct)
  case (1 dst src)
  then show ?case
    by (subst sse2_loop.simps) (simp add: lower_lanes lower_scalar lower_split)
qed

lemma avx2_loop: "avx2_loop dst src = dst @ lower src"
proof (induction dst src rule: avx2_loop.induct)
  case (1 dst src)
  then show ?case
    by (subst avx2_loop.simps) (simp add: lower_lanes lower_scalar lower_split)
qed

lemma copy_lowercase_lower: "copy_lowercase_label x86_64 level dst src = dst @ lower src"
  by (simp add: copy_lowercase_label_def copy_lowercase_avx2_def copy_lowercase_sse2_def
      avx2_loop sse2_loop lower_scalar)

text \<open>
  C33. On every target and at every instruction-set level, the vectorised lower-casing appends exactly
  the ASCII-lower-cased input to the destination.
\<close>

theorem copy_lowercase_label_eq: "copy_lowercase_label x86_64 level dst src = dst @ lower src"
  by (rule copy_lowercase_lower)

section \<open>Masks\<close>

lemma bit_pmovmskb: "bit (pmovmskb v) i \<longleftrightarrow> i < 32 \<and> i < length v \<and> bit (v ! i) 7"
proof (induction v arbitrary: i)
  case Nil
  then show ?case by (simp add: pmovmskb_def)
next
  case (Cons l v)
  have "bit (pmovmskb (l # v)) i \<longleftrightarrow> bit (2 * pmovmskb v OR (if bit l 7 then 1 else 0)) i"
    by (simp add: pmovmskb_def mult.commute)
  also have "\<dots> \<longleftrightarrow> i < 32 \<and> (i = 0 \<and> bit l 7 \<or> i \<noteq> 0 \<and> bit (pmovmskb v) (i - 1))"
    by (auto simp: bit_simps)
  finally show ?case using Cons.IH [of "i - 1"] by (cases i) auto
qed

lemma pmovmskb_all:
  assumes "length v = n" "n \<le> 32"
  shows "pmovmskb v = mask n \<longleftrightarrow> (\<forall>i < n. bit (v ! i) 7)"
proof -
  have "pmovmskb v = mask n \<longleftrightarrow> (\<forall>i. bit (pmovmskb v) i \<longleftrightarrow> bit (mask n :: u32) i)"
    by (auto intro: bit_word_eqI)
  moreover have "(bit (pmovmskb v) i \<longleftrightarrow> bit (mask n :: u32) i) \<longleftrightarrow> (i < n \<longrightarrow> bit (v ! i) 7)" for i
    using assms by (cases "i < n") (simp_all add: bit_pmovmskb bit_mask_iff)
  ultimately show ?thesis by simp
qed

lemma pcmpeqb_all:
  assumes "length a = n" "length b = n" "n \<le> 32"
  shows "pmovmskb (pcmpeqb a b) = mask n \<longleftrightarrow> a = b"
proof -
  have ff: "bit (0xFF :: byte) 7" by code_simp
  have "pmovmskb (pcmpeqb a b) = mask n \<longleftrightarrow> (\<forall>i < n. bit (pcmpeqb a b ! i) 7)"
    using assms by (intro pmovmskb_all) (simp_all add: pcmpeqb_def)
  also have "\<dots> \<longleftrightarrow> (\<forall>i < n. a ! i = b ! i)" using assms ff by (auto simp: pcmpeqb_def)
  also have "\<dots> \<longleftrightarrow> a = b" using assms by (auto simp: list_eq_iff_nth_eq)
  finally show ?thesis .
qed

lemma mask_constants: "(mask 16 :: u32) = 0xFFFF" "(mask 32 :: u32) = 0xFFFFFFFF"
  by (simp_all add: mask_numeral)

lemma tail_eq: "length a = length b \<Longrightarrow> tail_eq a b \<longleftrightarrow> a = b"
  by (induction a b rule: tail_eq.induct) auto

lemma split_eq: "length a = length b \<Longrightarrow> a = b \<longleftrightarrow> take n a = take n b \<and> drop n a = drop n b"
  by (metis append_take_drop_id)

lemma bytes_eq_sse2: "length a = length b \<Longrightarrow> bytes_eq_sse2 a b \<longleftrightarrow> a = b"
proof (induction a b rule: bytes_eq_sse2.induct)
  case (1 a b)
  show ?case
  proof (cases "length a \<ge> 16")
    case True
    then have "pmovmskb (pcmpeqb (take 16 a) (take 16 b)) = 0xFFFF \<longleftrightarrow> take 16 a = take 16 b"
      using 1 by (subst mask_constants [symmetric], intro pcmpeqb_all) simp_all
    with 1 True show ?thesis by (subst bytes_eq_sse2.simps) (auto simp: split_eq [of a b 16])
  qed (use 1 in \<open>simp add: bytes_eq_sse2.simps tail_eq\<close>)
qed

lemma bytes_eq_avx2: "length a = length b \<Longrightarrow> bytes_eq_avx2 a b \<longleftrightarrow> a = b"
proof (induction a b rule: bytes_eq_avx2.induct)
  case (1 a b)
  consider "length a \<ge> 32" | "16 \<le> length a" "length a < 32" | "length a < 16" by linarith
  then show ?case
  proof cases
    case 1
    then have "pmovmskb (pcmpeqb (take 32 a) (take 32 b)) = 0xFFFFFFFF \<longleftrightarrow> take 32 a = take 32 b"
      using "1.prems" by (subst mask_constants [symmetric], intro pcmpeqb_all) simp_all
    with "1.IH" "1.prems" 1 show ?thesis by (subst bytes_eq_avx2.simps) (auto simp: split_eq [of a b 32])
  next
    case 2
    then have "pmovmskb (pcmpeqb (take 16 a) (take 16 b)) = 0xFFFF \<longleftrightarrow> take 16 a = take 16 b"
      using "1.prems" by (subst mask_constants [symmetric], intro pcmpeqb_all) simp_all
    with "1.prems" 2 show ?thesis
      by (subst bytes_eq_avx2.simps) (auto simp: tail_eq split_eq [of a b 16])
  qed (use "1.prems" in \<open>simp add: bytes_eq_avx2.simps tail_eq\<close>)
qed

section \<open>The first zero octet\<close>

lemma position_append:
  "position P (xs @ ys) =
     (case position P xs of Some i \<Rightarrow> Some i | None \<Rightarrow> map_option ((+) (length xs)) (position P ys))"
  by (induction xs; cases "position P ys") (auto split: option.split)

lemma position_None: "position P xs = None \<longleftrightarrow> (\<forall>x \<in> set xs. \<not> P x)"
  by (induction xs) auto

lemma position_Some: "position P xs = Some i \<longleftrightarrow> i < length xs \<and> P (xs ! i) \<and> (\<forall>j < i. \<not> P (xs ! j))"
proof (induction xs arbitrary: i)
  case (Cons x xs)
  then show ?case by (cases i) (auto simp: All_less_Suc2)
qed simp

lemma trailing_zeros: "bit w k \<Longrightarrow> (\<forall>j < k. \<not> bit w j) \<Longrightarrow> trailing_zeros w = k"
proof -
  assume w: "bit w k" "\<forall>j < k. \<not> bit w j"
  then have k: "k < 32" using bit_imp_le_length [of w k] by simp
  then have "[0..<32] = [0..<k] @ k # [Suc k..<32]"
    by (metis less_imp_le upt_conv_Cons upt_add_eq_append le0 le_add_diff_inverse)
  with w show ?thesis by (simp add: trailing_zeros_def takeWhile_append del: upt_conv_Cons)
qed

lemma first_zero_mask:
  assumes "length v = 16"
  shows "position (\<lambda>b. b = 0) v =
    (let m = pmovmskb (pcmpeqb v (splat 16 0)) in if m \<noteq> 0 then Some (trailing_zeros m) else None)"
proof -
  let ?m = "pmovmskb (pcmpeqb v (splat 16 0))"
  have ff: "bit (0xFF :: byte) 7" by code_simp
  have bit: "bit ?m i \<longleftrightarrow> i < 16 \<and> v ! i = 0" for i
    using assms ff by (auto simp: bit_pmovmskb pcmpeqb_def splat_def split: if_splits)
  show ?thesis
  proof (cases "position (\<lambda>b. b = 0) v")
    case None
    then have "\<not> bit ?m i" for i using assms by (auto simp: bit position_None in_set_conv_nth)
    then have "?m = 0" by (simp add: bit_eq_iff)
    with None show ?thesis by simp
  next
    case (Some k)
    then have k: "bit ?m k" "\<forall>j < k. \<not> bit ?m j" using assms by (auto simp: bit position_Some)
    then have "?m \<noteq> 0" by auto
    with Some trailing_zeros [OF k] show ?thesis by (simp add: Let_def)
  qed
qed

lemma find_zero_tail:
  "limit \<le> length bytes \<Longrightarrow>
     find_zero_tail bytes limit pos = map_option ((+) pos) (position (\<lambda>b. b = 0) (take (limit - pos) (drop pos bytes)))"
proof (induction bytes limit pos rule: find_zero_tail.induct)
  case (1 bytes limit pos)
  show ?case
  proof (cases "pos < limit")
    case True
    then have "take (limit - pos) (drop pos bytes) = bytes ! pos # take (limit - (pos + 1)) (drop (pos + 1) bytes)"
      using 1 by (simp flip: Cons_nth_drop_Suc add: take_Cons' less_le_trans)
    with 1 True show ?thesis by (subst find_zero_tail.simps) (auto simp: option.map_comp comp_def)
  qed (simp add: find_zero_tail.simps)
qed

lemma find_zero_sse2:
  "limit \<le> length bytes \<Longrightarrow>
     find_zero_sse2 bytes limit pos = map_option ((+) pos) (position (\<lambda>b. b = 0) (take (limit - pos) (drop pos bytes)))"
proof (induction bytes limit pos rule: find_zero_sse2.induct)
  case (1 bytes limit pos)
  show ?case
  proof (cases "pos + 16 \<le> limit")
    case True
    let ?v = "take 16 (drop pos bytes)"
    let ?r = "take (limit - (pos + 16)) (drop (pos + 16) bytes)"
    have "take (limit - pos) (drop pos bytes) = ?v @ ?r"
      using True take_add [of 16 "limit - (pos + 16)" "drop pos bytes"] by (simp add: add.commute)
    moreover have len: "length ?v = 16" using True 1 by simp
    ultimately show ?thesis using True 1 first_zero_mask [OF len]
      by (subst find_zero_sse2.simps) (auto simp: Let_def position_append option.map_comp comp_def add.assoc)
  qed (use 1 in \<open>simp add: find_zero_sse2.simps find_zero_tail\<close>)
qed

lemma map_option_add_0 [simp]: "map_option ((+) (0 :: nat)) x = x"
  by (cases x) simp_all

lemma find_zero_position: "find_zero x86_64 bytes = position (\<lambda>b. b = 0) (take 255 bytes)"
  by (auto simp: find_zero_def find_zero_sse2 Let_def min_def)

text \<open>
  C32. On every target and at every instruction-set level, the vectorised comparison decides equality,
  and the vectorised search returns the position of the first zero among the first 255 octets, like
  the scalar code.
\<close>

theorem simd_scans_eq:
  "bytes_eq x86_64 level a b = (a = b) \<and>
   find_zero x86_64 bytes = position (\<lambda>b. b = 0) (take 255 bytes)"
  by (auto simp: find_zero_position bytes_eq_def bytes_eq_avx2 bytes_eq_sse2)

end
