(* ===== verification/Wire_Builder.thy ===== *)
theory Wire_Builder
  imports Simd_Scan Wire_Edns Message_Facts
begin

unbundle bit_operations_syntax

text \<open>
  The packet builder of the fast path, \<open>dns/wire_builder.rs\<close>, which reads a query and writes a response
  without the general codec, and its agreement with that codec. The outer \<open>option\<close> of a result is a
  panic (a slice index out of range), the inner one the code's \<open>None\<close>.
\<close>

section \<open>The code\<close>

abbreviation (input) DNS_HDR :: nat where "DNS_HDR \<equiv> 12"
abbreviation (input) FLAGS_AA_NOERROR :: u16 where "FLAGS_AA_NOERROR \<equiv> 0x8580"
abbreviation (input) FLAGS_AA_NXDOMAIN :: u16 where "FLAGS_AA_NXDOMAIN \<equiv> 0x8583"
abbreviation (input) FLAGS_REFUSED :: u16 where "FLAGS_REFUSED \<equiv> 0x8585"

record edns_info =
  ei_udp_payload :: u16
  ei_do_bit :: bool

record wire_query =
  wq_id :: u16
  wq_qname_wire :: "byte list"
  wq_qtype :: u16
  wq_qclass :: u16
  wq_rd :: bool
  wq_edns :: "edns_info option"

record wire_rdata =
  wr_ttl :: u32
  wr_rdata :: "byte list"

text \<open>\<open>u16::from_be_bytes([buf[i], buf[i + 1]])\<close>.\<close>

definition read_u16 :: "byte list \<Rightarrow> nat \<Rightarrow> u16 option" where
  "read_u16 buf i = do { hi \<leftarrow> index buf i; lo \<leftarrow> index buf (i + 1); Some (u16_from_be hi lo) }"

text \<open>The scan of the additional section; the first argument counts the remaining iterations.\<close>

fun opt_loop :: "nat \<Rightarrow> byte list \<Rightarrow> nat \<Rightarrow> edns_info option option" where
  "opt_loop 0 buf pos = Some None"
| "opt_loop (Suc n) buf pos =
     (if pos \<ge> length buf then Some None
      else do {
        b \<leftarrow> index buf pos;
        if b \<noteq> 0 \<and> b AND 0xC0 \<noteq> 0xC0 then Some None
        else do {
          let pos = pos + (if b = 0 then 1 else 2);
          if pos + 4 > length buf then Some None
          else do {
            rtype \<leftarrow> read_u16 buf pos;
            if rtype = rtype_OPT then
              if pos + 10 > length buf then Some None
              else do {
                payload \<leftarrow> read_u16 buf (pos + 2);
                f \<leftarrow> index buf (pos + 6);
                Some (Some \<lparr>ei_udp_payload = payload, ei_do_bit = (f AND 0x80 \<noteq> 0)\<rparr>)
              }
            else if pos + 10 > length buf then Some None
            else do {
              rdlen \<leftarrow> read_u16 buf (pos + 8);
              opt_loop n buf (pos + (10 + unat rdlen))
            }
          }
        }
      })"

definition parse_opt_rr :: "byte list \<Rightarrow> nat \<Rightarrow> u16 \<Rightarrow> edns_info option option" where
  "parse_opt_rr buf pos arc = (if arc = 0 then Some None else opt_loop (unat arc) buf pos)"

definition parse_query :: "bool \<Rightarrow> byte list \<Rightarrow> wire_query option option" where
  "parse_query x86_64 buf =
     (if length buf < DNS_HDR + 5 then Some None
      else do {
        qid \<leftarrow> read_u16 buf 0;
        flags \<leftarrow> read_u16 buf 2;
        if flags AND 0x8000 \<noteq> 0 then Some None
        else do {
          qdc \<leftarrow> read_u16 buf 4;
          arc \<leftarrow> read_u16 buf 10;
          if qdc \<noteq> 1 then Some None
          else (case find_zero x86_64 (drop DNS_HDR buf) of
            None \<Rightarrow> Some None
          | Some qname_zero \<Rightarrow>
              let qname_end = DNS_HDR + qname_zero + 1 in
              if length buf < qname_end + 4 then Some None
              else do {
                qt \<leftarrow> read_u16 buf qname_end;
                cls \<leftarrow> read_u16 buf (qname_end + 2);
                edns \<leftarrow> parse_opt_rr buf (qname_end + 4) arc;
                qn \<leftarrow> subslice buf DNS_HDR qname_end;
                Some (Some \<lparr>wq_id = qid, wq_qname_wire = qn, wq_qtype = qt, wq_qclass = cls,
                  wq_rd = (flags AND 0x0100 \<noteq> 0), wq_edns = edns\<rparr>)
              })
        }
      })"

definition normalize_query_qname :: "bool \<Rightarrow> simd_level \<Rightarrow> byte list \<Rightarrow> byte list" where
  "normalize_query_qname x86_64 level wire = copy_lowercase_label x86_64 level [] wire"

text \<open>The output buffer with the position of the next octet to write.\<close>

type_synonym out_buf = "nat \<times> byte list"

definition put :: "byte list \<Rightarrow> out_buf \<Rightarrow> out_buf option" where
  "put bs ob = (case ob of (pos, buf) \<Rightarrow>
     if pos + length bs \<le> length buf
     then Some (pos + length bs, take pos buf @ bs @ drop (pos + length bs) buf) else None)"

definition put_u16 :: "u16 \<Rightarrow> out_buf \<Rightarrow> out_buf option" where
  "put_u16 v = put (u16_to_be v)"

definition put_u32 :: "u32 \<Rightarrow> out_buf \<Rightarrow> out_buf option" where
  "put_u32 v = put (u32_to_be v)"

definition write_opt_rr :: "u16 \<Rightarrow> out_buf \<Rightarrow> out_buf option" where
  "write_opt_rr payload ob = do {
     ob \<leftarrow> put [0] ob;
     ob \<leftarrow> put_u16 41 ob;
     ob \<leftarrow> put_u16 payload ob;
     ob \<leftarrow> put_u32 0 ob;
     put_u16 0 ob
   }"

text \<open>The fast-path record writer of one answer.\<close>

definition put_answer :: "u16 \<Rightarrow> wire_rdata \<Rightarrow> out_buf \<Rightarrow> out_buf option" where
  "put_answer qt rec ob = do {
     ob \<leftarrow> put_u16 0xC00C ob;
     ob \<leftarrow> put_u16 qt ob;
     ob \<leftarrow> put_u16 1 ob;
     ob \<leftarrow> put_u32 (wr_ttl rec) ob;
     ob \<leftarrow> put_u16 (of_nat (length (wr_rdata rec))) ob;
     put (wr_rdata rec) ob
   }"

fun put_answers :: "u16 \<Rightarrow> wire_rdata list \<Rightarrow> out_buf \<Rightarrow> out_buf option" where
  "put_answers qt [] ob = Some ob"
| "put_answers qt (rec # recs) ob = do { ob \<leftarrow> put_answer qt rec ob; put_answers qt recs ob }"

definition put_edns :: "edns_info option \<Rightarrow> out_buf \<Rightarrow> out_buf option" where
  "put_edns edns ob = (case edns of None \<Rightarrow> Some ob | Some e \<Rightarrow> write_opt_rr (ei_udp_payload e) ob)"

text \<open>The length of the response and the buffer it was written into.\<close>

definition write_header_and_question ::
    "byte list \<Rightarrow> u16 \<Rightarrow> u16 \<Rightarrow> u16 \<Rightarrow> byte list \<Rightarrow> u16 \<Rightarrow> u16 \<Rightarrow> edns_info option \<Rightarrow> out_buf option option" where
  "write_header_and_question out qid flags anc qn qt cls edns =
     (let opt_size = (if edns \<noteq> None then 11 else 0);
          total = DNS_HDR + length qn + 4 + opt_size in
      if length out < total then Some None
      else do {
        let arc = (if edns \<noteq> None then 1 else 0);
        ob \<leftarrow> put_u16 qid (0, out);
        ob \<leftarrow> put_u16 flags ob;
        ob \<leftarrow> put_u16 1 ob;
        ob \<leftarrow> put_u16 anc ob;
        ob \<leftarrow> put_u16 0 ob;
        ob \<leftarrow> put_u16 arc ob;
        ob \<leftarrow> put qn ob;
        ob \<leftarrow> put_u16 qt ob;
        ob \<leftarrow> put_u16 cls ob;
        ob \<leftarrow> put_edns edns ob;
        Some (Some ob)
      })"

definition rd_flag :: "bool \<Rightarrow> u16" where
  "rd_flag rd = push_bit 8 (if rd then 1 else 0)"

definition build_answer_a_aaaa_wire ::
    "wire_query \<Rightarrow> byte list \<Rightarrow> wire_rdata list \<Rightarrow> edns_info option \<Rightarrow> out_buf option option" where
  "build_answer_a_aaaa_wire wq out recs edns =
     (let question_len = length (wq_qname_wire wq) + 4;
          rr_fixed = 2 + 2 + 2 + 4 + 2;
          anc = length recs;
          rdata_total = sum_list (map (\<lambda>r. length (wr_rdata r)) recs);
          opt_size = (if edns \<noteq> None then 11 else 0);
          total = DNS_HDR + question_len + rr_fixed * anc + rdata_total + opt_size in
      if length out < total then Some None
      else do {
        let flags_aa = 0x8480 OR rd_flag (wq_rd wq);
        let arc = (if edns \<noteq> None then 1 else 0);
        ob \<leftarrow> put_u16 (wq_id wq) (0, out);
        ob \<leftarrow> put_u16 flags_aa ob;
        ob \<leftarrow> put_u16 1 ob;
        ob \<leftarrow> put_u16 (of_nat anc) ob;
        ob \<leftarrow> put_u16 0 ob;
        ob \<leftarrow> put_u16 arc ob;
        ob \<leftarrow> put (wq_qname_wire wq) ob;
        ob \<leftarrow> put_u16 (wq_qtype wq) ob;
        ob \<leftarrow> put_u16 (wq_qclass wq) ob;
        ob \<leftarrow> put_answers (wq_qtype wq) recs ob;
        ob \<leftarrow> put_edns edns ob;
        Some (Some ob)
      })"

definition build_nxdomain :: "wire_query \<Rightarrow> byte list \<Rightarrow> edns_info option \<Rightarrow> out_buf option option" where
  "build_nxdomain wq out edns =
     write_header_and_question out (wq_id wq) ((FLAGS_AA_NXDOMAIN AND 0xFEFF) OR rd_flag (wq_rd wq)) 0
       (wq_qname_wire wq) (wq_qtype wq) (wq_qclass wq) edns"

definition build_nodata :: "wire_query \<Rightarrow> byte list \<Rightarrow> edns_info option \<Rightarrow> out_buf option option" where
  "build_nodata wq out edns =
     write_header_and_question out (wq_id wq) ((FLAGS_AA_NOERROR AND 0xFEFF) OR rd_flag (wq_rd wq)) 0
       (wq_qname_wire wq) (wq_qtype wq) (wq_qclass wq) edns"

definition build_refused :: "wire_query \<Rightarrow> byte list \<Rightarrow> edns_info option \<Rightarrow> out_buf option option" where
  "build_refused wq out edns =
     write_header_and_question out (wq_id wq) ((FLAGS_REFUSED AND 0xFEFF) OR rd_flag (wq_rd wq)) 0
       (wq_qname_wire wq) (wq_qtype wq) (wq_qclass wq) edns"

section \<open>What is written\<close>

text \<open>The output buffer after \<open>w\<close> has been written over the start of \<open>out\<close>.\<close>

definition written :: "byte list \<Rightarrow> byte list \<Rightarrow> out_buf" where
  "written out w = (length w, w @ drop (length w) out)"

lemma written_Nil: "(0, out) = written out []"
  by (simp add: written_def)

lemma put_written [simp]:
  "length w + length bs \<le> length out \<Longrightarrow> put bs (written out w) = Some (written out (w @ bs))"
  by (simp add: put_def written_def add.commute)

definition opt_wire :: "edns_info option \<Rightarrow> byte list" where
  "opt_wire edns =
     (case edns of None \<Rightarrow> []
      | Some e \<Rightarrow> [0] @ u16_to_be 41 @ u16_to_be (ei_udp_payload e) @ u32_to_be 0 @ u16_to_be 0)"

lemma length_opt_wire: "length (opt_wire edns) = (if edns \<noteq> None then 11 else 0)"
  by (auto simp: opt_wire_def)

lemma put_edns_written:
  "length w + length (opt_wire edns) \<le> length out \<Longrightarrow> put_edns edns (written out w) = Some (written out (w @ opt_wire edns))"
  by (auto simp: put_edns_def opt_wire_def write_opt_rr_def put_u16_def put_u32_def split: option.splits)

definition answer_wire :: "u16 \<Rightarrow> wire_rdata \<Rightarrow> byte list" where
  "answer_wire qt rec = u16_to_be 0xC00C @ u16_to_be qt @ u16_to_be 1 @ u32_to_be (wr_ttl rec) @
     u16_to_be (of_nat (length (wr_rdata rec))) @ wr_rdata rec"

lemma put_answer_written:
  "length w + length (answer_wire qt rec) \<le> length out \<Longrightarrow>
     put_answer qt rec (written out w) = Some (written out (w @ answer_wire qt rec))"
  by (simp add: put_answer_def answer_wire_def put_u16_def put_u32_def)

lemma put_answers_written:
  "length w + length (concat (map (answer_wire qt) recs)) \<le> length out \<Longrightarrow>
     put_answers qt recs (written out w) = Some (written out (w @ concat (map (answer_wire qt) recs)))"
  by (induction recs arbitrary: w) (simp_all add: put_answer_written)

definition head_wire :: "u16 \<Rightarrow> u16 \<Rightarrow> u16 \<Rightarrow> edns_info option \<Rightarrow> byte list \<Rightarrow> u16 \<Rightarrow> u16 \<Rightarrow> byte list" where
  "head_wire qid flags anc edns qn qt cls =
     header_wire \<lparr>hid = qid, hflags = flags, qdcount = 1, ancount = anc, nscount = 0,
       arcount = (if edns \<noteq> None then 1 else 0)\<rparr> @ qn @ u16_to_be qt @ u16_to_be cls"

lemma length_answer_wires:
  "length (concat (map (answer_wire qt) recs)) = 12 * length recs + sum_list (map (\<lambda>r. length (wr_rdata r)) recs)"
  by (induction recs) (simp_all add: answer_wire_def)

lemma build_answer_wire:
  "build_answer_a_aaaa_wire wq out recs edns =
     (let w = head_wire (wq_id wq) (0x8480 OR rd_flag (wq_rd wq)) (of_nat (length recs)) edns (wq_qname_wire wq)
            (wq_qtype wq) (wq_qclass wq) @ concat (map (answer_wire (wq_qtype wq)) recs) @ opt_wire edns
      in Some (if length out < length w then None else Some (written out w)))"
  unfolding build_answer_a_aaaa_wire_def Let_def written_Nil
  by (auto simp: head_wire_def header_wire_def length_answer_wires length_opt_wire put_u16_def
      put_answers_written put_edns_written)

lemma write_header_wire:
  "write_header_and_question out qid flags anc qn qt cls edns =
     (let w = head_wire qid flags anc edns qn qt cls @ opt_wire edns
      in Some (if length out < length w then None else Some (written out w)))"
  unfolding write_header_and_question_def Let_def written_Nil
  by (auto simp: head_wire_def header_wire_def length_opt_wire put_u16_def put_edns_written)

section \<open>Agreement with the encoder\<close>

text \<open>A name written by an encoder that knows none of its suffixes is written out, and remembered.\<close>

lemma name_emit_loop_fresh:
  assumes "drop i w = wire_of ls" "drop i lw = wire_of (map lower ls)" "list_all label_ok ls"
    "\<And>key. length key \<le> length (wire_of ls) \<Longrightarrow> enames e key = None"
  shows "\<exists>e'. name_emit_loop w lw i e = Some e' \<and> ebuf e' = ebuf e @ wire_of ls \<and> ecompress e' = ecompress e \<and>
    (\<forall>key. length (wire_of ls) < length key \<longrightarrow> enames e' key = enames e key) \<and>
    (ls \<noteq> [] \<and> ecompress e \<and> length (ebuf e) \<le> MAX_COMPRESS_OFFSET \<longrightarrow>
       enames e' (wire_of (map lower ls)) = Some (of_nat (length (ebuf e))))"
  using assms
proof (induction ls arbitrary: i e)
  case Nil
  note s = wire_stop [OF Nil.prems(1)]
  then show ?case by (subst name_emit_loop.simps) auto
next
  case (Cons l ls)
  have ok: "label_ok l" "list_all label_ok ls" using Cons.prems(3) by auto
  let ?key = "wire_of (map lower (l # ls))"
  note s = wire_step [OF Cons.prems(1) ok(1)]
  have lw: "subslice lw i (length lw) = Some ?key"
    using Cons.prems(2) subslice_to_end [of i lw] by (cases "i \<le> length lw") auto
  have "drop i lw = wire_of (lower l # map lower ls)" using Cons.prems(2) by simp
  from wire_step(6) [OF this] ok have lw': "drop (i + (1 + length l)) lw = wire_of (map lower ls)" by simp
  have klen: "length ?key = length (wire_of (l # ls))" by (simp add: length_wire_of_lower)
  then have none: "enc_lookup_name e ?key = None" using Cons.prems(4) by (simp add: enc_lookup_name_def)
  let ?e1 = "enc_bytes l (enc_u8 (w ! i) (enc_remember_name ?key (length (ebuf e)) e))"
  have step: "name_emit_loop w lw i e = name_emit_loop w lw (i + (1 + length l)) ?e1"
    using s lw none by (subst name_emit_loop.simps) simp
  have buf1: "ebuf ?e1 = ebuf e @ (of_nat (length l) # l)" "ecompress ?e1 = ecompress e" using s by simp_all
  have n1: "enames ?e1 key = enames e key" if "key \<noteq> ?key" for key
    using that by (auto simp: enc_remember_name_def split: option.split)
  have n2: "ecompress e \<Longrightarrow> length (ebuf e) \<le> MAX_COMPRESS_OFFSET \<Longrightarrow> enames ?e1 ?key = Some (of_nat (length (ebuf e)))"
    using Cons.prems(4) klen by (simp add: enc_remember_name_def)
  have "enames ?e1 key = None" if "length key \<le> length (wire_of ls)" for key
  proof -
    have "key \<noteq> ?key" using that klen by auto
    with n1 [OF this] that Cons.prems(4) [of key] show ?thesis by simp
  qed
  from Cons.IH [OF _ lw' ok(2) this] s(6) obtain e' where e': "name_emit_loop w lw (i + (1 + length l)) ?e1 = Some e'"
    "ebuf e' = ebuf ?e1 @ wire_of ls" "ecompress e' = ecompress ?e1"
    "\<forall>key. length (wire_of ls) < length key \<longrightarrow> enames e' key = enames ?e1 key" by auto
  have "enames e' ?key = enames ?e1 ?key" using e'(4) klen by simp
  moreover have "enames e' key = enames e key" if "length (wire_of (l # ls)) < length key" for key
  proof -
    have "key \<noteq> ?key" using that klen by auto
    with e'(4) n1 [OF this] that show ?thesis by simp
  qed
  ultimately show ?case using e' buf1 n2 unfolding step by simp
qed

lemma name_emit_fresh:
  assumes "valid_name n" "\<And>key. enames e key = None" "ecompress e" "length (ebuf e) \<le> MAX_COMPRESS_OFFSET"
  shows "\<exists>e'. name_emit n e = Some e' \<and> ebuf e' = ebuf e @ name_wire n \<and> ecompress e' \<and>
    (\<not> is_root n \<longrightarrow> enames e' (lower (name_wire n)) = Some (of_nat (length (ebuf e))))"
proof -
  obtain ls where n: "n = Name (wire_of ls)" "list_all label_ok ls" using assms(1) by (elim valid_nameE)
  have lw: "lower (name_wire n) = wire_of (map lower ls)" using n by (simp add: lower_wire_of)
  have root: "is_root n \<longleftrightarrow> ls = []" using n by (cases ls) (auto simp: is_root_def label_ok_def)
  from name_emit_loop_fresh [of 0 "wire_of ls" ls "wire_of (map lower ls)" e] n(2) assms(2-4) obtain e' where
    "name_emit_loop (wire_of ls) (wire_of (map lower ls)) 0 e = Some e'" "ebuf e' = ebuf e @ wire_of ls" "ecompress e'"
    "ls \<noteq> [] \<longrightarrow> enames e' (wire_of (map lower ls)) = Some (of_nat (length (ebuf e)))" by auto
  then show ?thesis unfolding lw root by (simp add: name_emit_def lower_wire_valid [OF assms(1)] lw) (simp add: n)
qed

lemma name_emit_known:
  assumes "valid_name n" "\<not> is_root n" "enames e (lower (name_wire n)) = Some off" "ecompress e"
  shows "name_emit n e = Some (enc_u16 (0xC000 OR off) e)"
proof -
  obtain ls where n: "n = Name (wire_of ls)" "list_all label_ok ls" using assms(1) by (elim valid_nameE)
  with assms(2) obtain l ls' where ls: "ls = l # ls'" by (cases ls) (auto simp: is_root_def)
  have "label_ok l" using n(2) ls by simp
  note s = wire_step [of 0 "wire_of ls" l ls', OF _ this]
  have "name_emit_loop (name_wire n) (lower (name_wire n)) 0 e = Some (enc_u16 (0xC000 OR off) e)"
    using s ls n assms(3,4) subslice_to_end [of 0 "lower (wire_of ls)"]
    by (subst name_emit_loop.simps) (simp add: enc_lookup_name_def)
  then show ?thesis by (simp add: name_emit_def lower_wire_valid [OF assms(1)])
qed

lemma name_emit_root: "name_emit name_root e = Some (enc_u8 0 e)"
  by (simp add: name_emit_def name_root_def lower_wire_def lower_wire_loop.simps name_emit_loop.simps)

text \<open>The records of one name behind a question for it, and an OPT record.\<close>

definition opt_record :: "u16 \<Rightarrow> u32 \<Rightarrow> byte list \<Rightarrow> rr" where
  "opt_record payload ttl data =
     \<lparr>rr_name = name_root, rr_type = rtype_OPT, rr_class = payload, rr_ttl = ttl, rr_data = Unknown rtype_OPT data\<rparr>"

definition wire_rdata_of :: "rr \<Rightarrow> wire_rdata" where
  "wire_rdata_of r = \<lparr>wr_ttl = rr_ttl r, wr_rdata = rdata_wire (rr_data r)\<rparr>"

text \<open>\<open>record_for n qt r\<close>: a record of class IN and type \<open>qt\<close> whose owner is \<open>n\<close> up to case.\<close>

definition record_for :: "name \<Rightarrow> u16 \<Rightarrow> rr \<Rightarrow> bool" where
  "record_for n qt r \<longleftrightarrow> valid_name (rr_name r) \<and> lower (name_wire (rr_name r)) = lower (name_wire n) \<and>
     rr_type r = qt \<and> rr_class r = class_IN"

lemma record_for_emit:
  assumes "record_for n qt r" "\<not> is_root n" "enames e (lower (name_wire n)) = Some 12" "ecompress e"
  shows "name_emit (rr_name r) e = Some (enc_u16 0xC00C e)"
proof -
  have "length (name_wire (rr_name r)) = length (name_wire n)"
    using assms(1) unfolding record_for_def by (auto dest: map_eq_imp_length_eq)
  with assms(2) have "\<not> is_root (rr_name r)" by (simp add: is_root_def)
  moreover have "(0xC000 OR 12 :: u16) = 0xC00C" by simp
  ultimately show ?thesis using name_emit_known [of "rr_name r" e 12] assms by (simp add: record_for_def)
qed

lemma emit_answers_known:
  assumes "\<not> is_root n" "\<forall>r \<in> set rs. record_for n qt r"
  shows "enames e (lower (name_wire n)) = Some 12 \<Longrightarrow> ecompress e \<Longrightarrow>
    emit_all rr_emit rs e = Some (enc_bytes (concat (map (\<lambda>r. answer_wire qt (wire_rdata_of r)) rs)) e)"
  using assms(2)
proof (induction rs arbitrary: e)
  case Nil
  then show ?case by (simp add: enc_bytes_def)
next
  case (Cons r rs)
  let ?e = "enc_bytes (answer_wire qt (wire_rdata_of r)) e"
  have "name_emit (rr_name r) e = Some (enc_u16 0xC00C e)"
    using Cons.prems by (intro record_for_emit [OF _ assms(1), of qt]) simp_all
  then have "rr_emit r e = Some (enc_bytes (rr_tail r) (enc_u16 0xC00C e))" unfolding rr_emit_wire by simp
  also have "enc_bytes (rr_tail r) (enc_u16 0xC00C e) = ?e"
    using Cons.prems(3) by (simp add: record_for_def answer_wire_def wire_rdata_of_def rr_tail_def enc_bytes_def enc_u16_def)
  finally have r: "rr_emit r e = Some ?e" .
  have "emit_all rr_emit rs ?e = Some (enc_bytes (concat (map (\<lambda>r. answer_wire qt (wire_rdata_of r)) rs)) ?e)"
    using Cons.prems by (intro Cons.IH) (simp_all add: enc_bytes_def)
  with r show ?case by (simp add: enc_bytes_def)
qed

lemma emit_opt:
  "emit_all rr_emit (case ed of None \<Rightarrow> [] | Some (p, t, d) \<Rightarrow> [opt_record p t d]) e =
     Some (enc_bytes (case ed of None \<Rightarrow> [] | Some (p, t, d) \<Rightarrow>
       [0] @ u16_to_be 41 @ u16_to_be p @ u32_to_be t @ u16_to_be (of_nat (length d)) @ d) e)"
  by (auto simp: rr_emit_wire name_emit_root opt_record_def rr_tail_def enc_bytes_def enc_u8_def split: option.splits)

text \<open>The octets the encoder writes for a question, records of the queried name and an OPT record.\<close>

lemma encode_answer_wire:
  assumes "valid_name n" "\<not> is_root n \<or> rs = []" "\<forall>r \<in> set rs. record_for n qt r"
  shows "message_encode \<lparr>msg_header = h, questions = [\<lparr>qname = n, qtype = qt, qclass = cls\<rparr>], answers = rs, authority = [],
      additional = (case ed of None \<Rightarrow> [] | Some (p, t, d) \<Rightarrow> [opt_record p t d])\<rparr> =
    Some (header_wire (h\<lparr>qdcount := 1, ancount := of_nat (length rs), nscount := 0, arcount := (if ed \<noteq> None then 1 else 0)\<rparr>) @
      name_wire n @ u16_to_be qt @ u16_to_be cls @ concat (map (\<lambda>r. answer_wire qt (wire_rdata_of r)) rs) @
      (case ed of None \<Rightarrow> [] | Some (p, t, d) \<Rightarrow>
         [0] @ u16_to_be 41 @ u16_to_be p @ u32_to_be t @ u16_to_be (of_nat (length d)) @ d))"
proof -
  let ?h = "h\<lparr>qdcount := 1, ancount := of_nat (length rs), nscount := 0, arcount := (if ed \<noteq> None then 1 else 0)\<rparr>"
  let ?e0 = "header_emit ?h enc_new"
  have e0: "ebuf ?e0 = header_wire ?h" "ecompress ?e0" "enames ?e0 key = None" for key
    by (simp_all add: header_emit_wire enc_new_def)
  obtain e1 where e1: "name_emit n ?e0 = Some e1" "ebuf e1 = header_wire ?h @ name_wire n" "ecompress e1"
    "\<not> is_root n \<longrightarrow> enames e1 (lower (name_wire n)) = Some 12"
    using name_emit_fresh [OF assms(1), of ?e0] e0 by auto
  let ?e2 = "enc_bytes (u16_to_be qt @ u16_to_be cls) e1"
  have "emit_all rr_emit rs ?e2 = Some (enc_bytes (concat (map (\<lambda>r. answer_wire qt (wire_rdata_of r)) rs)) ?e2)"
    using assms e1 emit_answers_known [OF _ assms(3), of ?e2] by (cases "rs = []") (auto simp: enc_bytes_def)
  then show ?thesis
    using e1(1,2) emit_opt [of ed] by (cases ed) (auto simp: message_encode_def encode_with_def Let_def question_emit_wire)
qed

lemma build_answer_encoding:
  assumes "valid_name n" "\<not> is_root n" "\<forall>r \<in> set rs. record_for n qt r"
  shows "\<exists>buf. message_encode
      \<lparr>msg_header = \<lparr>hid = qid, hflags = 0x8480 OR rd_flag rd, qdcount = 0, ancount = 0, nscount = 0, arcount = 0\<rparr>,
        questions = [\<lparr>qname = n, qtype = qt, qclass = cls\<rparr>], answers = rs, authority = [],
        additional = (case edns of None \<Rightarrow> [] | Some e \<Rightarrow> [opt_record (ei_udp_payload e) 0 []])\<rparr> = Some buf \<and>
    build_answer_a_aaaa_wire
      \<lparr>wq_id = qid, wq_qname_wire = name_wire n, wq_qtype = qt, wq_qclass = cls, wq_rd = rd, wq_edns = edns'\<rparr>
      out (map wire_rdata_of rs) edns =
    Some (if length out < length buf then None else Some (length buf, buf @ drop (length buf) out))"
proof -
  let ?ed = "map_option (\<lambda>e. (ei_udp_payload e, 0, [])) edns"
  have ed: "(case edns of None \<Rightarrow> [] | Some e \<Rightarrow> [opt_record (ei_udp_payload e) 0 []]) =
    (case ?ed of None \<Rightarrow> [] | Some (p, t, d) \<Rightarrow> [opt_record p t d])" by (cases edns) simp_all
  show ?thesis unfolding ed encode_answer_wire [OF assms(1) disjI1 [OF assms(2)] assms(3)] build_answer_wire
    by (cases edns) (simp_all add: head_wire_def opt_wire_def written_def comp_def)
qed

text \<open>
  C17. The fast path writes exactly the octets of the general encoder: for records of the queried name,
  in whatever case they were configured, the response it builds is the compressed encoding of the message with the same header, question,
  answers and OPT record, written over the start of the buffer; it declines, leaving the work to the
  general path, exactly when the buffer is shorter than that encoding.
\<close>

theorem fast_answer_is_encoding:
  assumes "valid_name n" "\<not> is_root n" "\<forall>r \<in> set rs. record_for n qt r"
  shows "\<exists>buf. message_encode
      \<lparr>msg_header = \<lparr>hid = qid, hflags = 0x8480 OR rd_flag rd, qdcount = 0, ancount = 0, nscount = 0, arcount = 0\<rparr>,
        questions = [\<lparr>qname = n, qtype = qt, qclass = cls\<rparr>], answers = rs, authority = [],
        additional = (case edns of None \<Rightarrow> [] | Some e \<Rightarrow> [opt_record (ei_udp_payload e) 0 []])\<rparr> = Some buf \<and>
    build_answer_a_aaaa_wire
      \<lparr>wq_id = qid, wq_qname_wire = name_wire n, wq_qtype = qt, wq_qclass = cls, wq_rd = rd, wq_edns = edns'\<rparr>
      out (map wire_rdata_of rs) edns =
    Some (if length out < length buf then None else Some (length buf, buf @ drop (length buf) out))"
  using assms by (rule build_answer_encoding)

theorem fast_answer_is_encoding_witness:
  "\<exists>buf. build_answer_a_aaaa_wire
      \<lparr>wq_id = 7, wq_qname_wire = [1, 97, 0], wq_qtype = 1, wq_qclass = 1, wq_rd = True, wq_edns = None\<rparr>
      (replicate 512 0) [\<lparr>wr_ttl = 60, wr_rdata = [1, 2, 3, 4]\<rparr>] None =
    Some (if 512 < length buf then None else Some (length buf, buf @ drop (length buf) (replicate 512 0)))"
proof -
  let ?r = "\<lparr>rr_name = Name [1, 97, 0], rr_type = 1, rr_class = 1, rr_ttl = 60, rr_data = Unknown 1 [1, 2, 3, 4]\<rparr>"
  have v: "valid_name (Name [1, 97, 0])" "\<not> is_root (Name [1, 97, 0])" by code_simp+
  have r: "\<forall>r \<in> set [?r]. record_for (Name [1, 97, 0]) 1 r" using v(1) by (simp add: record_for_def)
  show ?thesis
    using fast_answer_is_encoding [OF v r, of 7 True 1 None None "replicate 512 0"] by (auto simp: wire_rdata_of_def)
qed

section \<open>Reading queries\<close>

lemma index_returns [no_panic]: "i < length buf \<Longrightarrow> returns (index buf i)"
  by (simp add: index_def)

lemma read_u16_returns [no_panic]: "i + 1 < length buf \<Longrightarrow> returns (read_u16 buf i)"
  unfolding read_u16_def by (auto intro!: no_panic)

lemma opt_loop_returns [no_panic]: "returns (opt_loop n buf pos)"
  by (induction n arbitrary: pos) (auto simp: Let_def intro!: no_panic)

lemma parse_query_returns [no_panic]: "returns (parse_query x86_64 buf)"
  unfolding parse_query_def parse_opt_rr_def
  by (auto simp: Let_def subslice_def intro!: no_panic split: option.split)

lemma read_u16_at: "bytes_at buf pos (u16_to_be v) \<Longrightarrow> read_u16 buf pos = Some v"
  by (auto simp: read_u16_def u16_to_be_def index_def bytes_at_Cons u16_from_to_be)

lemma index_at: "bytes_at buf pos (b # bs) \<Longrightarrow> index buf pos = Some b"
  by (auto simp: index_def bytes_at_Cons)

text \<open>The first zero octet of a name whose labels hold none is its root label.\<close>

lemma position_wire:
  "list_all label_ok ls \<Longrightarrow> \<forall>l \<in> set ls. 0 \<notin> set l \<Longrightarrow>
     position (\<lambda>b. b = 0) (wire_of ls @ r) = Some (length (wire_of ls) - 1)"
proof (induction ls)
  case (Cons l ls)
  have "position (\<lambda>b. b = 0) l = None" using Cons.prems(2) by (auto simp: position_None)
  moreover have "of_nat (length l) \<noteq> (0 :: byte)" using Cons.prems(1) by (simp add: of_length_neq_0)
  ultimately show ?case using Cons length_wire_of_pos [of ls] by (simp add: position_append option.map_comp comp_def)
qed simp

lemma do_bit_octet: "(ucast (drop_bit 8 t) :: byte) AND 0x80 \<noteq> 0 \<longleftrightarrow> bit (t :: u32) 15"
proof -
  have "(ucast (drop_bit 8 t) :: byte) AND push_bit 7 1 \<noteq> 0 \<longleftrightarrow> bit (ucast (drop_bit 8 t) :: byte) 7"
    by (simp only: bit_iff_and_push_bit_not_eq_0)
  then show ?thesis by (simp add: bit_ucast_iff bit_drop_bit_eq)
qed

lemma parse_opt_rr_at:
  assumes "bytes_at buf pos ([0] @ u16_to_be 41 @ u16_to_be p @ u32_to_be t @ u16_to_be len @ d)"
  shows "parse_opt_rr buf pos 1 = Some (Some \<lparr>ei_udp_payload = p, ei_do_bit = bit t 15\<rparr>)"
proof -
  have b: "bytes_at buf pos [0]" "bytes_at buf (pos + 1) (u16_to_be 41)" "bytes_at buf (pos + 3) (u16_to_be p)"
    "bytes_at buf (pos + 5) (u32_to_be t)" "bytes_at buf (pos + 9) (u16_to_be len)"
    using assms unfolding bytes_at_append length_u16_to_be length_u32_to_be list.size by (simp_all add: numeral_eq_Suc)
  have "bytes_at buf (pos + 7) [ucast (drop_bit 8 t), ucast t]"
    using b(4) by (simp add: u32_to_be_def bytes_at_Cons add.commute [of pos])
  note f = index_at [OF this]
  obtain o7 do_bit where o: "o7 = (ucast (drop_bit 8 t) :: byte)" "do_bit = bit t 15" by blast
  then have o7: "o7 AND 0x80 \<noteq> 0 \<longleftrightarrow> do_bit" by (simp add: do_bit_octet)
  have "pos + 11 \<le> length buf" using b(5) by (simp add: bytes_at_def)
  then show ?thesis
    using index_at [OF b(1)] read_u16_at [OF b(2)] read_u16_at [OF b(3)] f o7 unfolding o [symmetric]
    by (simp add: parse_opt_rr_def numeral_eq_Suc)
qed

text \<open>A query with one question, with or without an OPT record, and its octets.\<close>

definition query_message :: "header \<Rightarrow> name \<Rightarrow> u16 \<Rightarrow> u16 \<Rightarrow> (u16 \<times> u32 \<times> byte list) option \<Rightarrow> message" where
  "query_message h n qt cls ed =
     \<lparr>msg_header = h, questions = [\<lparr>qname = n, qtype = qt, qclass = cls\<rparr>], answers = [], authority = [],
       additional = (case ed of None \<Rightarrow> [] | Some (p, t, d) \<Rightarrow> [opt_record p t d])\<rparr>"

definition query_header :: "header \<Rightarrow> (u16 \<times> u32 \<times> byte list) option \<Rightarrow> header" where
  "query_header h ed = h\<lparr>qdcount := 1, ancount := 0, nscount := 0, arcount := (if ed \<noteq> None then 1 else 0)\<rparr>"

definition query_wire :: "header \<Rightarrow> name \<Rightarrow> u16 \<Rightarrow> u16 \<Rightarrow> (u16 \<times> u32 \<times> byte list) option \<Rightarrow> byte list" where
  "query_wire h n qt cls ed = header_wire (query_header h ed) @ name_wire n @ u16_to_be qt @ u16_to_be cls @
     (case ed of None \<Rightarrow> [] | Some (p, t, d) \<Rightarrow>
        [0] @ u16_to_be 41 @ u16_to_be p @ u32_to_be t @ u16_to_be (of_nat (length d)) @ d)"

lemma encode_query_wire: "valid_name n \<Longrightarrow> message_encode (query_message h n qt cls ed) = Some (query_wire h n qt cls ed)"
  using encode_answer_wire [of n "[]" qt h cls ed] by (simp add: query_message_def query_wire_def query_header_def)

lemma query_wire_at:
  assumes "length (name_wire n) = len"
  shows "bytes_at (query_wire h n qt cls ed) 0 (header_wire (query_header h ed))"
    "bytes_at (query_wire h n qt cls ed) 12 (name_wire n)"
    "bytes_at (query_wire h n qt cls ed) (12 + len) (u16_to_be qt)"
    "bytes_at (query_wire h n qt cls ed) (12 + len + 2) (u16_to_be cls)"
    "bytes_at (query_wire h n qt cls ed) (12 + len + 4) (case ed of None \<Rightarrow> [] | Some (p, t, d) \<Rightarrow>
        [0] @ u16_to_be 41 @ u16_to_be p @ u32_to_be t @ u16_to_be (of_nat (length d)) @ d)"
proof -
  have "bytes_at (query_wire h n qt cls ed) 0 (query_wire h n qt cls ed)" by (simp add: bytes_at_def)
  then have at: "bytes_at (query_wire h n qt cls ed) 0 (header_wire (query_header h ed)) \<and>
      bytes_at (query_wire h n qt cls ed) 12 (name_wire n) \<and> bytes_at (query_wire h n qt cls ed) (12 + len) (u16_to_be qt) \<and>
      bytes_at (query_wire h n qt cls ed) (12 + len + 2) (u16_to_be cls) \<and>
      bytes_at (query_wire h n qt cls ed) (12 + len + 2 + 2) (case ed of None \<Rightarrow> [] | Some (p, t, d) \<Rightarrow>
        [0] @ u16_to_be 41 @ u16_to_be p @ u32_to_be t @ u16_to_be (of_nat (length d)) @ d)"
    using assms unfolding query_wire_def [of h n qt cls ed, THEN arg_cong, of "bytes_at (query_wire h n qt cls ed) 0"]
      bytes_at_append length_u16_to_be length_header_wire by (simp add: add.assoc)
  then show "bytes_at (query_wire h n qt cls ed) 0 (header_wire (query_header h ed))"
    "bytes_at (query_wire h n qt cls ed) 12 (name_wire n)"
    "bytes_at (query_wire h n qt cls ed) (12 + len) (u16_to_be qt)"
    "bytes_at (query_wire h n qt cls ed) (12 + len + 2) (u16_to_be cls)"
    "bytes_at (query_wire h n qt cls ed) (12 + len + 4) (case ed of None \<Rightarrow> [] | Some (p, t, d) \<Rightarrow>
        [0] @ u16_to_be 41 @ u16_to_be p @ u32_to_be t @ u16_to_be (of_nat (length d)) @ d)"
    by (simp_all add: add.assoc)
qed

lemma parse_query_wire:
  assumes "valid_name n" "\<forall>l \<in> set (labels n). 0 \<notin> set l" "\<not> hdr_qr h"
  shows "parse_query x86_64 (query_wire h n qt cls ed) = Some (Some \<lparr>wq_id = hid h, wq_qname_wire = name_wire n,
    wq_qtype = qt, wq_qclass = cls, wq_rd = hdr_rd h,
    wq_edns = map_option (\<lambda>(p, t, d). \<lparr>ei_udp_payload = p, ei_do_bit = bit t 15\<rparr>) ed\<rparr>)"
proof -
  obtain ls where n: "n = Name (wire_of ls)" "list_all label_ok ls" "length (wire_of ls) \<le> 255"
    using assms(1) by (elim valid_nameE) simp
  let ?arc = "if ed \<noteq> None then 1 else 0 :: u16"
  let ?opt = "case ed of None \<Rightarrow> [] | Some (p, t, d) \<Rightarrow>
    [0] @ u16_to_be 41 @ u16_to_be p @ u32_to_be t @ u16_to_be (of_nat (length d)) @ d"
  define buf where "buf = query_wire h n qt cls ed"
  have buf: "buf = header_wire (query_header h ed) @ wire_of ls @ u16_to_be qt @ u16_to_be cls @ ?opt"
    by (simp add: buf_def query_wire_def n)
  let ?e = "12 + length (wire_of ls)"
  have w: "bytes_at buf ?e (u16_to_be qt)" "bytes_at buf (?e + 2) (u16_to_be cls)" "bytes_at buf (?e + 4) ?opt"
    using query_wire_at(3-5) [of n "length (wire_of ls)" h qt cls ed] n(1) unfolding buf_def by simp_all
  have "bytes_at buf 0 (header_wire (query_header h ed))"
    using query_wire_at(1) [of n "length (wire_of ls)" h qt cls ed] n(1) unfolding buf_def by simp
  then have at: "bytes_at buf 0 (u16_to_be (hid h))" "bytes_at buf 2 (u16_to_be (hflags h))"
    "bytes_at buf 4 (u16_to_be 1)" "bytes_at buf 10 (u16_to_be ?arc)"
    unfolding bytes_at_append header_wire_def length_append length_u16_to_be by (simp_all add: query_header_def numeral_eq_Suc)
  have opt: "parse_opt_rr buf (?e + 4) ?arc =
      Some (map_option (\<lambda>(p, t, d). \<lparr>ei_udp_payload = p, ei_do_bit = bit t 15\<rparr>) ed)"
  proof (cases ed)
    case None
    then show ?thesis by (simp add: parse_opt_rr_def)
  next
    case (Some x)
    obtain p t d where x: "x = (p, t, d)" by (cases x)
    have "parse_opt_rr buf (?e + 4) 1 = Some (Some \<lparr>ei_udp_payload = p, ei_do_bit = bit t 15\<rparr>)"
      by (rule parse_opt_rr_at) (use w(3) in \<open>simp only: Some x option.case prod.case\<close>)
    then show ?thesis by (simp add: Some x)
  qed
  have "take 255 (wire_of ls @ u16_to_be qt @ u16_to_be cls @ ?opt) =
      wire_of ls @ take (255 - length (wire_of ls)) (u16_to_be qt @ u16_to_be cls @ ?opt)" using n(3) by simp
  then have z: "find_zero x86_64 (drop 12 buf) = Some (length (wire_of ls) - 1)"
    using position_wire [OF n(2)] assms(2) n by (simp add: find_zero_position buf)
  have "subslice buf 12 ?e = Some (wire_of ls)"
    using subslice_append_mid [of "header_wire (query_header h ed)" "wire_of ls" "u16_to_be qt @ u16_to_be cls @ ?opt"] by (simp add: buf)
  moreover obtain k where k: "length (wire_of ls) = Suc k" using length_wire_of_pos [of ls] by (cases "length (wire_of ls)") auto
  moreover have len: "length buf \<ge> ?e + 4" by (simp add: buf)
  ultimately show ?thesis
    using at [THEN read_u16_at] w(1,2) [THEN read_u16_at] opt z assms(3) n(1) len unfolding k buf_def [symmetric]
    by (simp add: parse_query_def hdr_qr_def hdr_rd_def flag_get_def Let_def)
qed

lemma question_parse_raw:
  assumes "valid_name n" "bytes_at buf pos (name_wire n)" "bytes_at buf (pos + length (name_wire n)) (u16_to_be qt)"
    "bytes_at buf (pos + length (name_wire n) + 2) (u16_to_be cls)"
  shows "question_parse \<lparr>dbuf = buf, dpos = pos\<rparr> =
    Inr (\<lparr>qname = n, qtype = qt, qclass = cls\<rparr>, \<lparr>dbuf = buf, dpos = pos + length (name_wire n) + 4\<rparr>)"
  unfolding question_parse_def
  by (rule reads_bind, rule name_parse_raw [OF assms(2,1)], rule reads_bind, rule dec_u16_at [OF assms(3)],
      rule reads_bind, rule dec_u16_at [OF assms(4)], simp add: preturn_def)

lemma opt_parse_raw:
  assumes "bytes_at buf pos ([0] @ u16_to_be 41 @ u16_to_be p @ u32_to_be t @ u16_to_be (of_nat (length d)) @ d)"
    "length d \<le> 65535"
  shows "\<exists>e. rr_parse \<lparr>dbuf = buf, dpos = pos\<rparr> = Inr (opt_record p t d, \<lparr>dbuf = buf, dpos = e\<rparr>)"
proof -
  have r: "bytes_at buf pos (name_wire name_root)" "bytes_at buf (pos + length (name_wire name_root)) (rr_tail (opt_record p t d))"
    using assms(1) unfolding bytes_at_append by (simp_all add: name_root_def rr_tail_def opt_record_def bytes_at_append)
  have ok: "rdata_ok (rr_type (opt_record p t d)) (rr_data (opt_record p t d))"
    using assms(2) by (simp add: opt_record_def rdata_ok_def)
  have "rr_parse \<lparr>dbuf = buf, dpos = pos\<rparr> = Inr ((opt_record p t d)\<lparr>rr_name := name_root\<rparr>,
      \<lparr>dbuf = buf, dpos = pos + length (name_wire name_root) + length (rr_tail (opt_record p t d))\<rparr>)"
    unfolding rr_parse_def
    by (rule reads_bind, rule name_parse_raw [OF r(1) valid_name_root], rule rr_tail_at [OF r(2) ok])
  then show ?thesis by (auto simp: opt_record_def)
qed

lemma message_parse_query_wire:
  assumes "valid_name n" "case ed of None \<Rightarrow> True | Some (p, t, d) \<Rightarrow> length d \<le> 65535"
  shows "message_parse (query_wire h n qt cls ed) = Inr ((query_message h n qt cls ed)\<lparr>msg_header := query_header h ed\<rparr>)"
proof -
  let ?b = "query_wire h n qt cls ed" and ?p = "12 + length (name_wire n)"
  note at = query_wire_at [of n "length (name_wire n)" h qt cls ed, OF refl]
  have q: "question_parse \<lparr>dbuf = ?b, dpos = 12\<rparr> = Inr (\<lparr>qname = n, qtype = qt, qclass = cls\<rparr>, \<lparr>dbuf = ?b, dpos = ?p + 4\<rparr>)"
    using question_parse_raw [OF assms(1) at(2-4)] by simp
  have "\<exists>d'. parse_n rr_parse (if ed \<noteq> None then 1 else 0) \<lparr>dbuf = ?b, dpos = ?p + 4\<rparr> =
      Inr (case ed of None \<Rightarrow> [] | Some (p, t, d) \<Rightarrow> [opt_record p t d], d')"
  proof (cases ed)
    case (Some x)
    obtain p t d where x: "x = (p, t, d)" by (cases x)
    then obtain e where "rr_parse \<lparr>dbuf = ?b, dpos = ?p + 4\<rparr> = Inr (opt_record p t d, \<lparr>dbuf = ?b, dpos = e\<rparr>)"
      using opt_parse_raw [of ?b "?p + 4" p t d] at(5) assms(2) Some by auto
    then show ?thesis by (simp add: Some x pbind_def preturn_def)
  qed (simp add: preturn_def)
  then obtain d' where o: "parse_n rr_parse (if ed \<noteq> None then 1 else 0) \<lparr>dbuf = ?b, dpos = ?p + 4\<rparr> =
      Inr (case ed of None \<Rightarrow> [] | Some (p, t, d) \<Rightarrow> [opt_record p t d], d')" ..
  have "message_parse ?b = Inr \<lparr>msg_header = query_header h ed, questions = [\<lparr>qname = n, qtype = qt, qclass = cls\<rparr>],
      answers = [], authority = [], additional = (case ed of None \<Rightarrow> [] | Some (p, t, d) \<Rightarrow> [opt_record p t d])\<rparr>"
    using header_parse_at [OF at(1)] q o
    by (intro message_parse_fields) (auto simp: dec_new_def query_header_def pbind_def preturn_def)
  then show ?thesis by (simp add: query_message_def)
qed

text \<open>
  C18. The query reader of the fast path never panics, whatever the datagram, and on the encoding of a
  query (the QR flag clear, one question whose labels have no NUL octet, with or without an OPT record and
  no other record) it returns what the message says: the identifier, the name in wire form, the type and class, the RD flag, and the payload
  size and DO flag of the OPT record.
\<close>

theorem parse_query_reads_encoding:
  assumes "valid_name n" "\<forall>l \<in> set (labels n). 0 \<notin> set l" "\<not> hdr_qr h"
  shows "returns (parse_query x86_64 datagram) \<and>
    (\<exists>buf. message_encode \<lparr>msg_header = h, questions = [\<lparr>qname = n, qtype = qt, qclass = cls\<rparr>], answers = [],
        authority = [], additional = (case ed of None \<Rightarrow> [] | Some (p, t, d) \<Rightarrow> [opt_record p t d])\<rparr> = Some buf \<and>
      parse_query x86_64 buf = Some (Some \<lparr>wq_id = hid h, wq_qname_wire = name_wire n, wq_qtype = qt, wq_qclass = cls,
        wq_rd = hdr_rd h, wq_edns = map_option (\<lambda>(p, t, d). \<lparr>ei_udp_payload = p, ei_do_bit = bit t 15\<rparr>) ed\<rparr>))"
  using parse_query_returns [of x86_64 datagram] encode_query_wire [OF assms(1), of h qt cls ed] parse_query_wire [OF assms]
  by (simp add: query_message_def)

theorem parse_query_reads_encoding_witness:
  "\<exists>buf. parse_query True buf = Some (Some \<lparr>wq_id = 7, wq_qname_wire = [1, 97, 0], wq_qtype = 28, wq_qclass = 1,
     wq_rd = True, wq_edns = Some \<lparr>ei_udp_payload = 1232, ei_do_bit = True\<rparr>\<rparr>)"
proof -
  let ?h = "\<lparr>hid = 7, hflags = 0x0100, qdcount = 0, ancount = 0, nscount = 0, arcount = 0\<rparr>"
  have v: "valid_name (Name [1, 97, 0])" "\<forall>l \<in> set (labels (Name [1, 97, 0])). 0 \<notin> set l" by code_simp+
  have q: "\<not> hdr_qr ?h" "hdr_rd ?h" "bit (0x8000 :: u32) 15" by code_simp+
  show ?thesis using parse_query_reads_encoding [OF v q(1), of True "[]" 28 1 "Some (1232, 0x8000, [])"] q(2,3) by auto
qed

end
