(* ===== verification/Local_Zones.thy ===== *)
theory Local_Zones
  imports Wire_Present Wire_Builder Dns_Hasher Hash_Map "HOL-Library.Sublist"
begin

text \<open>
  The local zones, \<open>dns/local.rs\<close>: the store built from the configuration, the walk from a name to its
  zone, the index of address records that the fast path reads, and the operations of the interface that
  change zones and records. A \<open>HashMap\<close> is an association list with distinct keys, a \<open>HashSet\<close> a list
  without repetition; the order in which a map is iterated is the argument \<open>iter\<close>. What the processor
  offers is the record \<open>cpu\<close>. The fields under \<open>cfg(test)\<close> are not part of the program.
\<close>

section \<open>The code\<close>

datatype zone_action = Refuse | NxDomain | Static | Redirect | BlockPage

definition zone_action_from :: "str \<Rightarrow> zone_action" where
  "zone_action_from s =
     (if s = ascii ''refuse'' \<or> s = ascii ''inform_deny'' then Refuse
      else if s = ascii ''always_nxdomain'' \<or> s = ascii ''nxdomain'' then NxDomain
      else if s = ascii ''static'' \<or> s = ascii ''redirect'' then Static
      else if s = ascii ''block_page'' \<or> s = ascii ''block-page'' then BlockPage
      else Refuse)"

record local_zone =
  lz_name :: str
  lz_type :: str

record local_data =
  ld_rr :: str

record wire_record_entry =
  we_qname :: "byte list"
  we_a :: "wire_rdata list"
  we_aaaa :: "wire_rdata list"

record local_zone_set =
  wire_records :: "(u64 \<times> wire_record_entry) list"
  records_wire :: "(byte list \<times> rr list) list"
  zones_wire :: "(byte list \<times> zone_action) list"
  static_names_wire :: "byte list list"

record cpu =
  cpu_x86_64 :: bool
  cpu_level :: simd_level
  cpu_target :: target
  cpu_align :: "byte list \<Rightarrow> byte list \<times> byte list list \<times> byte list"
  cpu_crc :: bool

definition wire_name_key :: "cpu \<Rightarrow> name \<Rightarrow> byte list" where
  "wire_name_key cpu n = copy_lowercase_label (cpu_x86_64 cpu) (cpu_level cpu) [] (name_wire n)"

definition cpu_hash :: "cpu \<Rightarrow> byte list \<Rightarrow> u64" where
  "cpu_hash cpu = hash_wire_qname (cpu_target cpu) (cpu_align cpu) (cpu_crc cpu)"

definition load_record ::
    "cpu \<Rightarrow> (str \<Rightarrow> byte list option) \<Rightarrow> local_data \<Rightarrow> (byte list \<times> rr list) list \<Rightarrow> (byte list \<times> rr list) list" where
  "load_record cpu hex d m =
     (case parse_rr_line hex (ld_rr d) of
        None \<Rightarrow> m
      | Some wr \<Rightarrow> entry_push (wire_name_key cpu (rr_name wr)) wr m)"

definition load_zone ::
    "cpu \<Rightarrow> local_zone \<Rightarrow> (byte list \<times> zone_action) list \<times> byte list list \<Rightarrow> (byte list \<times> zone_action) list \<times> byte list list" where
  "load_zone cpu z = (\<lambda>(zones, static).
     case parse_name (fqdn (lz_name z)) of
       None \<Rightarrow> (zones, static)
     | Some wn \<Rightarrow>
         let key = wire_name_key cpu wn in
         (AList.update key (zone_action_from (lz_type z)) zones, List.insert key static))"

definition load_key ::
    "byte list \<Rightarrow> (byte list \<times> zone_action) list \<times> byte list list \<Rightarrow> (byte list \<times> zone_action) list \<times> byte list list" where
  "load_key key = (\<lambda>(zones, static). (or_insert key Static zones, List.insert key static))"

definition index_record :: "rr \<Rightarrow> wire_record_entry \<Rightarrow> wire_record_entry" where
  "index_record r e =
     (case rr_data r of
        A a \<Rightarrow> e\<lparr>we_a := we_a e @ [\<lparr>wr_ttl = rr_ttl r, wr_rdata = be_bytes 4 a\<rparr>]\<rparr>
      | Aaaa a \<Rightarrow> e\<lparr>we_aaaa := we_aaaa e @ [\<lparr>wr_ttl = rr_ttl r, wr_rdata = be_bytes 16 a\<rparr>]\<rparr>
      | _ \<Rightarrow> e)"

definition index_name ::
    "cpu \<Rightarrow> byte list \<times> rr list \<Rightarrow> (u64 \<times> wire_record_entry) list \<Rightarrow> (u64 \<times> wire_record_entry) list" where
  "index_name cpu = (\<lambda>(wq, recs) idx.
     let key = cpu_hash cpu wq;
         entry = (case map_of idx key of Some e \<Rightarrow> e | None \<Rightarrow> \<lparr>we_qname = wq, we_a = [], we_aaaa = []\<rparr>)
     in if we_qname entry \<noteq> wq then idx
        else AList.update key (fold index_record recs entry) idx)"

definition from_config ::
    "cpu \<Rightarrow> (str \<Rightarrow> byte list option) \<Rightarrow> ((byte list \<times> rr list) list \<Rightarrow> (byte list \<times> rr list) list) \<Rightarrow>
     local_zone list \<Rightarrow> local_data list \<Rightarrow> local_zone_set" where
  "from_config cpu hex iter zones data =
     (let records = fold (load_record cpu hex) data [];
          (zones_map, static) = fold load_key (map fst (iter records)) (fold (load_zone cpu) zones ([], []));
          idx = fold (index_name cpu) (iter records) []
      in \<lparr>wire_records = idx, records_wire = records, zones_wire = zones_map, static_names_wire = static\<rparr>)"

function find_wire :: "local_zone_set \<Rightarrow> byte list \<Rightarrow> zone_action option" where
  "find_wire zs q =
     (case map_of (zones_wire zs) q of
        Some a \<Rightarrow> Some a
      | None \<Rightarrow>
          if length q \<le> 1 then None
          else let skip = 1 + unat (q ! 0) in
            if skip \<ge> length q then None else find_wire zs (drop skip q))"
  by pat_completeness auto
termination
  by (relation "measure (\<lambda>(zs, q). length q)") auto

definition local_records_wire :: "local_zone_set \<Rightarrow> byte list \<Rightarrow> u16 \<Rightarrow> rr list" where
  "local_records_wire zs q qt =
     (case map_of (records_wire zs) q of None \<Rightarrow> [] | Some recs \<Rightarrow> filter (\<lambda>r. rr_type r = qt) recs)"

definition name_has_records_wire :: "local_zone_set \<Rightarrow> byte list \<Rightarrow> bool" where
  "name_has_records_wire zs q \<longleftrightarrow> map_of (records_wire zs) q \<noteq> None"

definition override_zone :: "cpu \<Rightarrow> str \<Rightarrow> zone_action \<Rightarrow> local_zone_set \<Rightarrow> local_zone_set" where
  "override_zone cpu nm action zs =
     (case parse_name (fqdn nm) of
        None \<Rightarrow> zs
      | Some wn \<Rightarrow> zs\<lparr>zones_wire := AList.update (wire_name_key cpu wn) action (zones_wire zs)\<rparr>)"

definition remove_zone :: "cpu \<Rightarrow> str \<Rightarrow> local_zone_set \<Rightarrow> local_zone_set" where
  "remove_zone cpu nm zs =
     (case parse_name (fqdn nm) of
        None \<Rightarrow> zs
      | Some wn \<Rightarrow> zs\<lparr>zones_wire := AList.delete (wire_name_key cpu wn) (zones_wire zs)\<rparr>)"

definition insert_record_str :: "cpu \<Rightarrow> (str \<Rightarrow> byte list option) \<Rightarrow> str \<Rightarrow> local_zone_set \<Rightarrow> local_zone_set" where
  "insert_record_str cpu hex line zs =
     (case parse_rr_line hex line of
        None \<Rightarrow> zs
      | Some wr \<Rightarrow>
          let key = wire_name_key cpu (rr_name wr) in
          zs\<lparr>zones_wire := or_insert key Static (zones_wire zs), records_wire := entry_push key wr (records_wire zs)\<rparr>)"

declare find_wire.simps [simp del]

section \<open>The walk to the enclosing zone\<close>

lemma wire_of_not_Nil [simp]: "wire_of ls \<noteq> []"
  using length_wire_of_pos [of ls] by blast

lemma wire_name_key_lower: "wire_name_key cpu n = lower (name_wire n)"
  by (simp add: wire_name_key_def copy_lowercase_lower)

lemma wire_name_key_labels: "valid_name n \<Longrightarrow> wire_name_key cpu n = wire_of (map lower (labels n))"
  by (elim valid_nameE) (simp add: wire_name_key_lower lower_wire_of)

text \<open>The deepest entry at or above a name that is given by its labels.\<close>

fun deepest :: "(byte list list \<Rightarrow> 'a option) \<Rightarrow> byte list list \<Rightarrow> 'a option" where
  "deepest m [] = m []"
| "deepest m (l # ls) = (case m (l # ls) of None \<Rightarrow> deepest m ls | Some a \<Rightarrow> Some a)"

definition none_below :: "(byte list list \<Rightarrow> 'a option) \<Rightarrow> nat \<Rightarrow> byte list list \<Rightarrow> bool" where
  "none_below m k ls \<longleftrightarrow> (\<forall>ls'. suffix ls' ls \<and> k < length ls' \<longrightarrow> m ls' = None)"

lemma none_below_Cons:
  "none_below m k (l # ls) \<longleftrightarrow> (k < length (l # ls) \<longrightarrow> m (l # ls) = None) \<and> none_below m k ls"
  by (auto simp: none_below_def suffix_Cons)

lemma none_below_self [simp]: "none_below m (length ls) ls"
  by (auto simp: none_below_def suffix_def)

lemma deepest_Some:
  "deepest m ls = Some a \<longleftrightarrow> (\<exists>ls'. suffix ls' ls \<and> m ls' = Some a \<and> none_below m (length ls') ls)"
proof (induction ls)
  case Nil
  then show ?case by (auto simp: none_below_def)
next
  case (Cons l ls)
  have len: "suffix ls' ls \<Longrightarrow> length ls' < length (l # ls)" for ls' by (auto dest: suffix_length_le)
  show ?case
  proof (cases "m (l # ls)")
    case None
    then show ?thesis using Cons.IH len by (auto simp: suffix_Cons none_below_Cons)
  next
    case (Some b)
    have "\<not> none_below m (length ls') (l # ls)" if "suffix ls' ls" for ls'
      using len [OF that] Some by (simp add: none_below_Cons)
    with Some show ?thesis using none_below_self [of m "l # ls"] by (auto simp: suffix_Cons)
  qed
qed

text \<open>What the walk relies on: a table of labels that is set and cleared at one place at a time.\<close>

locale zone_tree =
  fixes get :: "'z \<Rightarrow> byte list list \<Rightarrow> 'a option"
    and put_at :: "'k \<Rightarrow> 'a \<Rightarrow> 'z \<Rightarrow> 'z"
    and del_at :: "'k \<Rightarrow> 'z \<Rightarrow> 'z"
    and place :: "'k \<Rightarrow> byte list list option"
  assumes get_put: "get (put_at k a z) ls = (if place k = Some ls then Some a else get z ls)"
    and get_del: "get (del_at k z) ls = (if place k = Some ls then None else get z ls)"
begin

lemma deepest_put:
  assumes "place k = Some ks"
  shows "deepest (get (put_at k a z)) ls =
    (if suffix ks ls \<and> none_below (get z) (length ks) ls then Some a else deepest (get z) ls)"
proof (induction ls)
  case Nil
  then show ?case using assms by (auto simp: get_put none_below_def)
next
  case (Cons l ls)
  have len: "suffix ks ls \<Longrightarrow> length ks < length (l # ls)" by (auto dest: suffix_length_le)
  show ?case
  proof (cases "ks = l # ls")
    case True
    then show ?thesis using assms none_below_self [of "get z" "l # ls"] by (simp add: get_put)
  next
    case False
    with assms Cons len show ?thesis
      by (cases "get z (l # ls)") (auto simp: get_put suffix_Cons none_below_Cons)
  qed
qed

lemma deepest_del:
  assumes "place k = Some ks"
  shows "deepest (get (del_at k z)) ls =
    (if suffix ks ls \<and> none_below (get z) (length ks) ls
     then (case ks of [] \<Rightarrow> None | p # ps \<Rightarrow> deepest (get z) ps) else deepest (get z) ls)"
proof -
  have shorter: "deepest (get (del_at k z)) xs = deepest (get z) xs" if "length xs < length ks" for xs
    using that by (induction xs) (use assms in \<open>auto simp: get_del split: option.split\<close>)
  show ?thesis
  proof (induction ls)
    case Nil
    then show ?case using assms by (auto simp: get_del none_below_def)
  next
    case (Cons l ls)
    have len: "suffix ks ls \<Longrightarrow> length ks < length (l # ls)" by (auto dest: suffix_length_le)
    show ?case
    proof (cases "ks = l # ls")
      case True
      then have "get (del_at k z) (l # ls) = None" using assms get_del [of k z "l # ls"] by simp
      then show ?thesis using True none_below_self [of "get z" ks] shorter [of ls] by simp
    next
      case False
      with assms Cons len show ?thesis
        by (cases "get z (l # ls)") (auto simp: get_del suffix_Cons none_below_Cons)
    qed
  qed
qed

end

text \<open>The table of the store, by labels, and the place a name of the interface stands for.\<close>

definition zone_get :: "local_zone_set \<Rightarrow> byte list list \<Rightarrow> zone_action option" where
  "zone_get zs ls = (if list_all label_ok ls then map_of (zones_wire zs) (wire_of ls) else None)"

definition zone_place :: "str \<Rightarrow> byte list list option" where
  "zone_place nm = map_option (\<lambda>n. map lower (labels n)) (parse_name (fqdn nm))"

lemma zone_place_ok: "zone_place nm = Some ls \<Longrightarrow> list_all label_ok ls"
  by (auto simp: zone_place_def valid_name_def valid_labels_def dest!: parse_name_valid)

lemma label_ok_key:
  "valid_name n \<Longrightarrow> list_all label_ok ls \<Longrightarrow> wire_name_key cpu n = wire_of ls \<longleftrightarrow> map lower (labels n) = ls"
  by (subst wire_name_key_labels) (auto simp: wire_of_inj valid_name_def valid_labels_def)

interpretation zones: zone_tree zone_get "override_zone cpu" "remove_zone cpu" zone_place
  for cpu
proof
  fix k a z ls
  show "zone_get (override_zone cpu k a z) ls = (if zone_place k = Some ls then Some a else zone_get z ls)"
    using zone_place_ok [of k ls] label_ok_key [OF parse_name_valid, of "fqdn k" _ ls cpu]
    by (auto simp: zone_get_def override_zone_def update_conv' zone_place_def split: option.split)
  show "zone_get (remove_zone cpu k z) ls = (if zone_place k = Some ls then None else zone_get z ls)"
    using zone_place_ok [of k ls] label_ok_key [OF parse_name_valid, of "fqdn k" _ ls cpu]
    by (auto simp: zone_get_def remove_zone_def delete_conv' zone_place_def split: option.split)
qed

lemma find_wire_labels: "list_all label_ok ls \<Longrightarrow> find_wire zs (wire_of ls) = deepest (zone_get zs) ls"
proof (induction ls)
  case Nil
  then show ?case by (simp add: find_wire.simps [of zs "[0]"] zone_get_def split: option.split)
next
  case (Cons l ls)
  have l: "label_ok l" using Cons.prems by simp
  then have "l \<noteq> []" "unat (wire_of (l # ls) ! 0) = length l" by (simp_all add: label_ok_def unat_of_length)
  then have "find_wire zs (wire_of (l # ls)) =
      (case map_of (zones_wire zs) (wire_of (l # ls)) of None \<Rightarrow> find_wire zs (wire_of ls) | Some a \<Rightarrow> Some a)"
    by (subst find_wire.simps) (simp add: Let_def split: option.split)
  with Cons show ?case by (simp add: zone_get_def split: option.split)
qed

lemma find_wire_deepest:
  "valid_name q \<Longrightarrow> find_wire zs (wire_name_key cpu q) = deepest (zone_get zs) (map lower (labels q))"
  using find_wire_labels [of "map lower (labels q)" zs]
  unfolding wire_name_key_labels by (simp add: valid_name_def valid_labels_def)

text \<open>
  C19. A query gets the action of the deepest configured zone at or above its name, whatever the case
  of either. Overriding a zone gives its action to the names at or below it that have no deeper zone and
  leaves every other name alone; removing a zone hands those names to the zone above it.
\<close>

theorem zone_actions:
  assumes "valid_name q" "zone_place nm = Some ks"
  shows "(find_wire zs (wire_name_key cpu q) = Some a \<longleftrightarrow>
      (\<exists>ls. suffix ls (map lower (labels q)) \<and> zone_get zs ls = Some a \<and>
         none_below (zone_get zs) (length ls) (map lower (labels q)))) \<and>
    find_wire (override_zone cpu nm b zs) (wire_name_key cpu q) =
      (if suffix ks (map lower (labels q)) \<and> none_below (zone_get zs) (length ks) (map lower (labels q))
       then Some b else find_wire zs (wire_name_key cpu q)) \<and>
    find_wire (remove_zone cpu nm zs) (wire_name_key cpu q) =
      (if suffix ks (map lower (labels q)) \<and> none_below (zone_get zs) (length ks) (map lower (labels q))
       then (case ks of [] \<Rightarrow> None | p # ps \<Rightarrow> find_wire zs (wire_of ps)) else find_wire zs (wire_name_key cpu q))"
proof -
  have "list_all label_ok ps" if "ks = p # ps" for p ps using zone_place_ok [OF assms(2)] that by simp
  then show ?thesis
    unfolding find_wire_deepest [OF assms(1)] zones.deepest_put [OF assms(2)] zones.deepest_del [OF assms(2)]
    by (auto simp: deepest_Some find_wire_labels split: list.split)
qed

text \<open>A processor without vector instructions, for concrete inputs.\<close>

definition plain_cpu :: cpu where
  "plain_cpu = \<lparr>cpu_x86_64 = False, cpu_level = Scalar, cpu_target = Other_Target, cpu_align = \<lambda>bs. (bs, [], []), cpu_crc = False\<rparr>"

theorem zone_actions_witness:
  "find_wire (override_zone plain_cpu (ascii ''a'') NxDomain
      \<lparr>wire_records = [], records_wire = [], zones_wire = [([0], Refuse)], static_names_wire = []\<rparr>)
    (wire_name_key plain_cpu (Name [1, 98, 1, 65, 0])) = Some NxDomain"
proof -
  let ?zs = "\<lparr>wire_records = [], records_wire = [], zones_wire = [([0], Refuse)], static_names_wire = []\<rparr> :: local_zone_set"
  have v: "valid_name (Name [1, 98, 1, 65, 0])" by code_simp
  have p: "zone_place (ascii ''a'') = Some [[97]]"
    using sample_name by (simp add: zone_place_def to_ascii_lowercase_def)
  have l: "map lower (labels (Name [1, 98, 1, 65, 0])) = [[98], [97]]" by code_simp
  have "wire_of ls \<noteq> [0]" if "1 < length ls" for ls using that by (cases ls) auto
  then have "none_below (zone_get ?zs) 1 [[98], [97]]" by (auto simp: none_below_def zone_get_def)
  then show ?thesis using zone_actions [OF v p] unfolding l by (simp add: suffix_Cons)
qed

section \<open>The store built from the configuration\<close>

definition config_records :: "(str \<Rightarrow> byte list option) \<Rightarrow> local_data list \<Rightarrow> rr list" where
  "config_records hex data = List.map_filter (\<lambda>d. parse_rr_line hex (ld_rr d)) data"

definition config_zones :: "cpu \<Rightarrow> local_zone list \<Rightarrow> (byte list \<times> zone_action) list" where
  "config_zones cpu zones = List.map_filter (\<lambda>z.
     map_option (\<lambda>n. (wire_name_key cpu n, zone_action_from (lz_type z))) (parse_name (fqdn (lz_name z)))) zones"

lemma config_records_snoc:
  "config_records hex (data @ [d]) =
     config_records hex data @ (case parse_rr_line hex (ld_rr d) of None \<Rightarrow> [] | Some r \<Rightarrow> [r])"
  by (simp add: config_records_def map_filter_def split: option.split)

lemma config_records_parsed: "r \<in> set (config_records hex data) \<Longrightarrow> \<exists>line. parse_rr_line hex line = Some r"
  by (auto simp: config_records_def map_filter_def)

lemma load_records:
  "distinct (map fst (fold (load_record cpu hex) data [])) \<and>
   map_of (fold (load_record cpu hex) data []) k =
     (let rs = filter (\<lambda>r. wire_name_key cpu (rr_name r) = k) (config_records hex data)
      in if rs = [] then None else Some rs)"
proof (induction data arbitrary: k rule: rev_induct)
  case Nil
  then show ?case by (simp add: config_records_def map_filter_def)
next
  case (snoc d data)
  then show ?case
    by (cases "parse_rr_line hex (ld_rr d)") (auto simp: load_record_def config_records_snoc Let_def)
qed

lemma load_zone_pair:
  "load_zone cpu z (zm, st) =
     (case parse_name (fqdn (lz_name z)) of
        None \<Rightarrow> (zm, st)
      | Some n \<Rightarrow> (AList.update (wire_name_key cpu n) (zone_action_from (lz_type z)) zm, List.insert (wire_name_key cpu n) st))"
  by (simp add: load_zone_def Let_def split: option.split)

lemma load_key_pair: "load_key k (zm, st) = (or_insert k Static zm, List.insert k st)"
  by (simp add: load_key_def)

lemma load_zones:
  "map_of (fst (fold (load_zone cpu) zones (zm, st))) k =
     (case map_of (rev (config_zones cpu zones)) k of None \<Rightarrow> map_of zm k | Some a \<Rightarrow> Some a) \<and>
   set (snd (fold (load_zone cpu) zones (zm, st))) = set st \<union> fst ` set (config_zones cpu zones)"
proof (induction zones arbitrary: zm st)
  case Nil
  then show ?case by (simp add: config_zones_def map_filter_def)
next
  case (Cons z zones)
  show ?case
  proof (cases "parse_name (fqdn (lz_name z))")
    case None
    then show ?thesis using Cons [of zm st] by (simp add: load_zone_pair config_zones_def map_filter_def)
  next
    case (Some n)
    let ?k = "wire_name_key cpu n" and ?a = "zone_action_from (lz_type z)"
    have "config_zones cpu (z # zones) = (?k, ?a) # config_zones cpu zones"
      using Some by (simp add: config_zones_def map_filter_def)
    with Some Cons [of "AList.update ?k ?a zm" "List.insert ?k st"] show ?thesis
      by (auto simp: load_zone_pair update_conv' map_add_def split: option.split)
  qed
qed

lemma load_keys:
  "map_of (fst (fold load_key ks (zm, st))) k =
     (case map_of zm k of None \<Rightarrow> if k \<in> set ks then Some Static else None | Some a \<Rightarrow> Some a) \<and>
   set (snd (fold load_key ks (zm, st))) = set st \<union> set ks"
proof (induction ks arbitrary: zm st)
  case (Cons x ks)
  show ?case using Cons [of "or_insert x Static zm" "List.insert x st"]
    by (auto simp: load_key_pair split: option.split)
qed (simp split: option.split)

text \<open>The address records are the records of type A and AAAA.\<close>

definition addr_typed :: "rr \<Rightarrow> bool" where
  "addr_typed r \<longleftrightarrow> (rr_type r = rtype_A \<longleftrightarrow> (\<exists>a. rr_data r = A a)) \<and>
     (rr_type r = rtype_AAAA \<longleftrightarrow> (\<exists>a. rr_data r = Aaaa a))"

lemma parse_rdata_addr:
  assumes "parse_rdata hex ty rest = Some rd"
  shows "(rdata_rtype rd = rtype_A \<longleftrightarrow> (\<exists>a. rd = A a)) \<and> (rdata_rtype rd = rtype_AAAA \<longleftrightarrow> (\<exists>a. rd = Aaaa a))"
proof -
  have "rdata_rtype rd \<in> {rtype_SSHFP, rtype_TLSA, rtype_NAPTR}" if "rd = Unknown t d" for t d
    using assms unfolding that parse_rdata_def parse_soa_def parse_mx_def parse_srv_def parse_caa_def parse_txt_def
      parse_sshfp_def parse_tlsa_def parse_naptr_def
    by (auto split: if_splits bind_splits)
  then show ?thesis by (cases rd) auto
qed

lemma parse_rr_line_addr: "parse_rr_line hex line = Some r \<Longrightarrow> addr_typed r"
  by (erule parse_rr_lineE) (simp add: addr_typed_def parse_rdata_addr)

lemma index_records:
  "list_all addr_typed rs \<Longrightarrow> fold index_record rs e =
     e\<lparr>we_a := we_a e @ map wire_rdata_of (filter (\<lambda>r. rr_type r = rtype_A) rs),
       we_aaaa := we_aaaa e @ map wire_rdata_of (filter (\<lambda>r. rr_type r = rtype_AAAA) rs)\<rparr>"
proof (induction rs arbitrary: e)
  case (Cons r rs)
  then have "addr_typed r" by simp
  then have "index_record r e =
      e\<lparr>we_a := we_a e @ map wire_rdata_of (filter (\<lambda>r. rr_type r = rtype_A) [r]),
        we_aaaa := we_aaaa e @ map wire_rdata_of (filter (\<lambda>r. rr_type r = rtype_AAAA) [r])\<rparr>"
    by (cases "rr_data r") (auto simp: index_record_def addr_typed_def wire_rdata_of_def)
  with Cons show ?case by simp
qed simp

definition index_ok :: "cpu \<Rightarrow> (byte list \<Rightarrow> rr list option) \<Rightarrow> (u64 \<times> wire_record_entry) list \<Rightarrow> bool" where
  "index_ok cpu recs idx \<longleftrightarrow> (\<forall>h e. map_of idx h = Some e \<longrightarrow> h = cpu_hash cpu (we_qname e) \<and>
     (\<exists>rs. recs (we_qname e) = Some rs \<and>
        we_a e = map wire_rdata_of (filter (\<lambda>r. rr_type r = rtype_A) rs) \<and>
        we_aaaa e = map wire_rdata_of (filter (\<lambda>r. rr_type r = rtype_AAAA) rs)))"

lemma index_ok_update:
  "index_ok cpu recs idx \<Longrightarrow> recs wq = Some rs \<Longrightarrow>
     index_ok cpu recs (AList.update (cpu_hash cpu wq)
       \<lparr>we_qname = wq, we_a = map wire_rdata_of (filter (\<lambda>r. rr_type r = rtype_A) rs),
         we_aaaa = map wire_rdata_of (filter (\<lambda>r. rr_type r = rtype_AAAA) rs)\<rparr> idx)"
  by (auto simp: index_ok_def update_conv')

lemma index_names:
  assumes "distinct (map fst m)" "\<forall>(k, rs) \<in> set m. list_all addr_typed rs"
  shows "index_ok cpu (map_of m) (fold (index_name cpu) m [])"
  using assms
proof (induction m rule: rev_induct)
  case Nil
  then show ?case by (simp add: index_ok_def)
next
  case (snoc x m)
  obtain wq rs where x: "x = (wq, rs)" by (cases x)
  let ?idx = "fold (index_name cpu) m []" and ?h = "cpu_hash cpu wq"
  have ok: "index_ok cpu (map_of m) ?idx" using snoc by simp
  have new: "map_of m wq = None" using snoc.prems(1) by (simp add: x map_of_eq_None_iff)
  then have get: "map_of (m @ [x]) = (map_of m)(wq \<mapsto> rs)" by (auto simp: x fun_eq_iff map_add_def split: option.split)
  have no: "we_qname e \<noteq> wq" if "map_of ?idx h = Some e" for h e
  proof -
    from ok that have "map_of m (we_qname e) \<noteq> None" unfolding index_ok_def by blast
    with new show ?thesis by auto
  qed
  have old: "index_ok cpu (map_of (m @ [x])) ?idx"
    unfolding index_ok_def get
  proof (intro allI impI)
    fix h e
    assume e: "map_of ?idx h = Some e"
    then have "((map_of m)(wq \<mapsto> rs)) (we_qname e) = map_of m (we_qname e)" using no by simp
    with ok e show "h = cpu_hash cpu (we_qname e) \<and> (\<exists>rs'. ((map_of m)(wq \<mapsto> rs)) (we_qname e) = Some rs' \<and>
        we_a e = map wire_rdata_of (filter (\<lambda>r. rr_type r = rtype_A) rs') \<and>
        we_aaaa e = map wire_rdata_of (filter (\<lambda>r. rr_type r = rtype_AAAA) rs'))"
      unfolding index_ok_def by simp
  qed
  show ?case
  proof (cases "map_of ?idx ?h")
    case (Some e)
    then show ?thesis using old no [OF Some] by (simp add: index_name_def x Let_def)
  next
    case None
    have "list_all addr_typed rs" using snoc.prems(2) by (simp add: x)
    then have "fold (index_name cpu) (m @ [x]) [] = AList.update ?h
        \<lparr>we_qname = wq, we_a = map wire_rdata_of (filter (\<lambda>r. rr_type r = rtype_A) rs),
          we_aaaa = map wire_rdata_of (filter (\<lambda>r. rr_type r = rtype_AAAA) rs)\<rparr> ?idx"
      using None by (simp add: index_name_def x index_records)
    moreover have "map_of (m @ [x]) wq = Some rs" by (simp only: get fun_upd_same)
    ultimately show ?thesis using index_ok_update [OF old] by metis
  qed
qed

lemma from_config_records: "records_wire (from_config cpu hex iter zones data) = fold (load_record cpu hex) data []"
  by (simp add: from_config_def Let_def split: prod.split)

lemma from_config_index:
  assumes "iterates iter"
  shows "index_ok cpu (map_of (records_wire (from_config cpu hex iter zones data))) (wire_records (from_config cpu hex iter zones data))"
proof -
  let ?m = "fold (load_record cpu hex) data []"
  have d: "distinct (map fst ?m)" using load_records [of cpu hex data] by simp
  have "list_all addr_typed rs" if "(k, rs) \<in> set ?m" for k rs
  proof -
    from that d have "map_of ?m k = Some rs" by simp
    then have "set rs \<subseteq> set (config_records hex data)"
      using load_records [of cpu hex data k] by (auto simp: Let_def split: if_splits)
    then show ?thesis by (auto simp: list_all_iff dest!: subsetD config_records_parsed parse_rr_line_addr)
  qed
  then have "\<forall>(k, rs) \<in> set (iter ?m). list_all addr_typed rs" using iterates_set [OF assms, of ?m] by auto
  moreover have "distinct (map fst (iter ?m))" using d iterates_distinct [OF assms] by blast
  ultimately have "index_ok cpu (map_of (iter ?m)) (fold (index_name cpu) (iter ?m) [])" by (rule index_names [rotated])
  then show ?thesis using map_of_iter [OF assms d] by (simp add: from_config_def Let_def split: prod.split)
qed

end
