(* ===== verification/Wire_Serve.thy ===== *)
theory Wire_Serve
  imports Local_Zones
begin

unbundle bit_operations_syntax

text \<open>
  Serving from the local zones, \<open>dns/wire_serve.rs\<close>: the decision on a query, the chain of CNAME
  records, the answer to a datagram, and zone transfers. \<open>None\<close> is the code's own \<open>None\<close> (the query is
  forwarded); where the encoder is called, an outer \<open>option\<close> stands for a panic. The clock and the order
  in which the record table is iterated are arguments.
\<close>

section \<open>The code\<close>

definition lower_key :: "cpu \<Rightarrow> byte list \<Rightarrow> byte list" where
  "lower_key cpu wire_name = copy_lowercase_label (cpu_x86_64 cpu) (cpu_level cpu) [] wire_name"

fun follow_loop :: "cpu \<Rightarrow> local_zone_set \<Rightarrow> u16 \<Rightarrow> nat \<Rightarrow> byte list \<Rightarrow> rr list \<Rightarrow> rr list" where
  "follow_loop cpu zs qt 0 current chain = []"
| "follow_loop cpu zs qt (Suc k) current chain =
     (case local_records_wire zs current rtype_CNAME of
        [] \<Rightarrow> []
      | cname_rec # _ \<Rightarrow>
          (case rr_data cname_rec of
             Cname n \<Rightarrow>
               let target = lower_key cpu (name_wire n);
                   chain = chain @ [cname_rec];
                   resolved = local_records_wire zs target qt
               in if resolved \<noteq> [] then chain @ resolved else follow_loop cpu zs qt k target chain
           | _ \<Rightarrow> []))"

definition follow_cname :: "cpu \<Rightarrow> local_zone_set \<Rightarrow> byte list \<Rightarrow> u16 \<Rightarrow> rr list" where
  "follow_cname cpu zs start qt = follow_loop cpu zs qt 8 start []"

text \<open>The \<open>match action\<close> of \<open>answer_local\<close>: whether AA is set, the response code, the answers.\<close>

definition zone_reply :: "cpu \<Rightarrow> local_zone_set \<Rightarrow> zone_action \<Rightarrow> byte list \<Rightarrow> u16 \<Rightarrow> bool \<times> u16 \<times> rr list" where
  "zone_reply cpu zs action key qt =
     (case action of
        Refuse \<Rightarrow> (False, rcode_REFUSED, [])
      | NxDomain \<Rightarrow> (True, rcode_NXDOMAIN, [])
      | BlockPage \<Rightarrow>
          let recs = local_records_wire zs key qt in
          if recs = [] then (True, rcode_NXDOMAIN, []) else (True, rcode_NOERROR, recs)
      | _ \<Rightarrow>
          let recs = local_records_wire zs key qt in
          if recs \<noteq> [] then (True, rcode_NOERROR, recs)
          else let chain = (if qt \<noteq> rtype_CNAME then follow_cname cpu zs key qt else []) in
            if chain \<noteq> [] then (True, rcode_NOERROR, chain)
            else if name_has_records_wire zs key then (True, rcode_NOERROR, [])
            else (True, rcode_NXDOMAIN, []))"

definition clamp_u16 :: "u16 \<Rightarrow> u16 \<Rightarrow> u16 \<Rightarrow> u16" where
  "clamp_u16 v lo hi = (if v < lo then lo else if v > hi then hi else v)"

definition echo_edns :: "message \<Rightarrow> rr list" where
  "echo_edns query =
     (case message_edns query of
        Inr (Some client) \<Rightarrow>
          let server = edns_default\<lparr>udp_payload := clamp_u16 (udp_payload client) 512 (udp_payload edns_default)\<rparr>;
              server = set_dnssec_ok (dnssec_ok client) server
          in [to_record server]
      | _ \<Rightarrow> [])"

definition answer_local :: "cpu \<Rightarrow> message \<Rightarrow> local_zone_set \<Rightarrow> (message \<times> zone_action) option" where
  "answer_local cpu query zs = do {
     question \<leftarrow> first_question query;
     let key = lower_key cpu (name_wire (qname question));
     action \<leftarrow> find_wire zs key;
     let h = set_ad False (set_tc False (set_ra True (set_aa False (set_qr True (msg_header query)))));
     let (aa, rc, recs) = zone_reply cpu zs action key (qtype question);
     let h = (if aa then set_aa True h else h);
     let h = set_rcode_low rc h;
     Some (\<lparr>msg_header = h, questions = [question], answers = recs, authority = [], additional = echo_edns query\<rparr>, action)
   }"

definition serve_datagram :: "cpu \<Rightarrow> byte list \<Rightarrow> local_zone_set \<Rightarrow> (byte list \<times> zone_action) option option" where
  "serve_datagram cpu query zs =
     (case message_parse query of
        Inl _ \<Rightarrow> Some None
      | Inr msg \<Rightarrow>
          (case answer_local cpu msg zs of
             None \<Rightarrow> Some None
           | Some (resp, action) \<Rightarrow> do { buf \<leftarrow> message_encode resp; Some (Some (buf, action)) }))"

function wire_name_in_zone :: "byte list \<Rightarrow> byte list \<Rightarrow> bool" where
  "wire_name_in_zone name_key zone =
     (if name_key = zone then True
      else if length name_key \<le> 1 then False
      else let skip = 1 + unat (name_key ! 0) in
        if skip \<ge> length name_key then False else wire_name_in_zone (drop skip name_key) zone)"
  by pat_completeness auto
termination
  by (relation "measure (\<lambda>(nm, z). length nm)") auto

definition synthetic_soa :: "name \<Rightarrow> u32 \<Rightarrow> rr" where
  "synthetic_soa zone serial =
     (let mname = (case parse_name (ascii ''ns1.runbound.local.'') of Some n \<Rightarrow> n | None \<Rightarrow> zone);
          rname = (case parse_name (ascii ''hostmaster.runbound.local.'') of Some n \<Rightarrow> n | None \<Rightarrow> zone)
      in \<lparr>rr_name = zone, rr_type = rtype_SOA, rr_class = class_IN, rr_ttl = 3600,
           rr_data = Soa mname rname serial 3600 900 86400 300\<rparr>)"

text \<open>The records of a transfer, before they are put in a message; \<open>now\<close> is the time since the epoch in
  seconds, \<open>None\<close> when the clock stands before it.\<close>

definition zone_records ::
    "((byte list \<times> rr list) list \<Rightarrow> (byte list \<times> rr list) list) \<Rightarrow> local_zone_set \<Rightarrow> byte list \<Rightarrow> rr list" where
  "zone_records iter zs zone_key =
     concat (map (\<lambda>(name_key, recs). if wire_name_in_zone name_key zone_key
         then map (\<lambda>r. r\<lparr>rr_class := class_IN\<rparr>) recs else []) (iter (records_wire zs)))"

definition axfr_answers :: "nat option \<Rightarrow> name \<Rightarrow> rr list \<Rightarrow> rr list" where
  "axfr_answers now zone records =
     (let serial = (case now of Some secs \<Rightarrow> of_nat (secs div 60) | None \<Rightarrow> 1);
          soa = (case find (\<lambda>r. rr_type r = rtype_SOA) records of Some r \<Rightarrow> r | None \<Rightarrow> synthetic_soa zone serial)
      in [soa] @ filter (\<lambda>r. rr_type r \<noteq> rtype_SOA) records @ [soa])"

definition axfr_message ::
    "cpu \<Rightarrow> ((byte list \<times> rr list) list \<Rightarrow> (byte list \<times> rr list) list) \<Rightarrow> nat option \<Rightarrow> message \<Rightarrow> local_zone_set \<Rightarrow> message option" where
  "axfr_message cpu iter now query zs = do {
     question \<leftarrow> first_question query;
     let zone_key = lower_key cpu (name_wire (qname question));
     let records = zone_records iter zs zone_key;
     if records = [] then None
     else Some
       \<lparr>msg_header = set_rcode_low rcode_NOERROR (set_ad False (set_tc False (set_ra False (set_aa True (set_qr True (msg_header query)))))),
         questions = [question], answers = axfr_answers now (qname question) records, authority = [], additional = []\<rparr>
   }"

definition axfr_response ::
    "cpu \<Rightarrow> ((byte list \<times> rr list) list \<Rightarrow> (byte list \<times> rr list) list) \<Rightarrow> nat option \<Rightarrow> message \<Rightarrow> local_zone_set \<Rightarrow>
     byte list option option" where
  "axfr_response cpu iter now query zs =
     (case axfr_message cpu iter now query zs of
        None \<Rightarrow> Some None
      | Some resp \<Rightarrow> do { buf \<leftarrow> message_encode resp; Some (Some buf) })"

declare wire_name_in_zone.simps [simp del]

section \<open>Chains of CNAME records\<close>

text \<open>\<open>cname_path cpu zs qt k key rs\<close>: following \<open>k\<close> CNAME records from \<open>key\<close>, each at a name without records of
  type \<open>qt\<close> but the last, leads to records of that type; \<open>rs\<close> lists the links and those records.\<close>

inductive cname_path :: "cpu \<Rightarrow> local_zone_set \<Rightarrow> u16 \<Rightarrow> nat \<Rightarrow> byte list \<Rightarrow> rr list \<Rightarrow> bool"
  for cpu zs qt where
  last_link: "local_records_wire zs key rtype_CNAME = c # cs \<Longrightarrow> rr_data c = Cname n \<Longrightarrow>
     local_records_wire zs (lower_key cpu (name_wire n)) qt = rs \<Longrightarrow> rs \<noteq> [] \<Longrightarrow>
     cname_path cpu zs qt 1 key (c # rs)"
| link: "local_records_wire zs key rtype_CNAME = c # cs \<Longrightarrow> rr_data c = Cname n \<Longrightarrow>
     local_records_wire zs (lower_key cpu (name_wire n)) qt = [] \<Longrightarrow>
     cname_path cpu zs qt k (lower_key cpu (name_wire n)) rs \<Longrightarrow>
     cname_path cpu zs qt (Suc k) key (c # rs)"

lemma follow_loop_complete:
  "cname_path cpu zs qt k key rs \<Longrightarrow> k \<le> m \<Longrightarrow> follow_loop cpu zs qt m key chain = chain @ rs"
proof (induction arbitrary: m chain rule: cname_path.induct)
  case (last_link key c cs n rs)
  then show ?case by (cases m) simp_all
next
  case (link key c cs n k rs)
  then show ?case by (cases m) simp_all
qed

lemma follow_loop_sound:
  "follow_loop cpu zs qt m key chain \<noteq> [] \<Longrightarrow> \<exists>k \<le> m. \<exists>rs. cname_path cpu zs qt k key rs"
proof (induction cpu zs qt m key chain rule: follow_loop.induct)
  case (2 cpu zs qt m key chain)
  obtain c cs n where c: "local_records_wire zs key rtype_CNAME = c # cs" "rr_data c = Cname n"
    using "2.prems" by (auto split: list.splits rdata.splits)
  let ?t = "lower_key cpu (name_wire n)"
  show ?case
  proof (cases "local_records_wire zs ?t qt")
    case Nil
    with "2.prems" c have "follow_loop cpu zs qt m ?t (chain @ [c]) \<noteq> []" by simp
    with "2.IH" [OF c refl refl refl] Nil obtain k rs where "k \<le> m" "cname_path cpu zs qt k ?t rs" by auto
    with c Nil show ?thesis by (blast intro: cname_path.link Suc_le_mono [THEN iffD2])
  next
    case (Cons r rs)
    with c have "cname_path cpu zs qt 1 key (c # r # rs)" by (intro cname_path.last_link) simp_all
    then show ?thesis by (intro exI [of _ 1]) auto
  qed
qed simp

lemma cname_path_nonempty: "cname_path cpu zs qt k key rs \<Longrightarrow> rs \<noteq> [] \<and> 0 < k \<and> name_has_records_wire zs key"
  by (erule cname_path.cases) (auto simp: local_records_wire_def name_has_records_wire_def split: option.splits)

lemma follow_cname_path: "follow_cname cpu zs key qt = rs \<and> rs \<noteq> [] \<longleftrightarrow> (\<exists>k \<le> 8. cname_path cpu zs qt k key rs)"
proof
  assume a: "follow_cname cpu zs key qt = rs \<and> rs \<noteq> []"
  then obtain k rs' where k: "k \<le> 8" "cname_path cpu zs qt k key rs'"
    using follow_loop_sound [of cpu zs qt 8 key "[]"] by (auto simp: follow_cname_def)
  with a follow_loop_complete [OF k(2,1), of "[]"] show "\<exists>k \<le> 8. cname_path cpu zs qt k key rs"
    by (auto simp: follow_cname_def)
next
  assume "\<exists>k \<le> 8. cname_path cpu zs qt k key rs"
  then show "follow_cname cpu zs key qt = rs \<and> rs \<noteq> []"
    using follow_loop_complete [of cpu zs qt _ key rs 8 "[]"] cname_path_nonempty by (fastforce simp: follow_cname_def)
qed

section \<open>The decision on a query\<close>

lemma local_records_held:
  "local_records_wire zs key qt \<noteq> [] \<Longrightarrow> name_has_records_wire zs key"
  by (auto simp: local_records_wire_def name_has_records_wire_def split: option.splits)

lemma zone_reply_cases:
  assumes "zone_reply cpu zs action key qt = (aa, rc, recs)"
  shows "aa \<longleftrightarrow> action \<noteq> Refuse"
    "rc = (if action = Refuse then rcode_REFUSED
       else if action = NxDomain \<or> action = BlockPage \<and> local_records_wire zs key qt = [] \<or>
         action \<in> {Static, Redirect} \<and> \<not> name_has_records_wire zs key then rcode_NXDOMAIN
       else rcode_NOERROR)"
    "recs = (if action \<in> {BlockPage, Static, Redirect} \<and> local_records_wire zs key qt \<noteq> [] then local_records_wire zs key qt
       else if action \<in> {Static, Redirect} \<and> qt \<noteq> rtype_CNAME then follow_cname cpu zs key qt else [])"
  using assms local_records_held [of zs key qt] follow_cname_path [of cpu zs key qt "follow_cname cpu zs key qt"]
  by (auto simp: zone_reply_def Let_def split: zone_action.splits if_splits dest!: cname_path_nonempty)

lemma edns_reply_payload:
  "512 \<le> udp_payload e \<Longrightarrow> rr_class (to_record e) = udp_payload e"
  by (simp add: to_record_def Let_def max_def)

lemma echo_edns_cases:
  "case message_edns query of
     Inr (Some client) \<Rightarrow> \<exists>server. echo_edns query = [to_record server] \<and> edns_options server = [] \<and>
       512 \<le> udp_payload server \<and> udp_payload server \<le> 1232 \<and>
       (512 \<le> udp_payload client \<longrightarrow> udp_payload server \<le> udp_payload client) \<and> (dnssec_ok server \<longleftrightarrow> dnssec_ok client)
   | _ \<Rightarrow> echo_edns query = []"
  by (auto simp: echo_edns_def clamp_u16_def edns_default_def set_dnssec_ok_def dnssec_ok_def Let_def not_less
      split: sum.split option.split)

text \<open>
  C9. The verdict of the local zones on every branch. No answer is made, and the query is forwarded,
  exactly when there is no question or no zone encloses its name. Otherwise the reply repeats the
  identifier and the question, says that recursion is available and never that the data is authentic, and
  its response code is REFUSED for a refusing zone, NXDOMAIN for a denying zone, for a block page without
  a record and for a static zone without the name, and NOERROR in all other cases. Records are given only
  with NOERROR: all those the store holds for the name and type, which a static zone and a block page never
  leave out, or, in a static zone that holds none, a chain of at most eight CNAME records that ends in
  records of the type, and every such chain is found. An OPT record is returned exactly for a
  readable one, with a payload size from 512 to 1232 and the DO flag of the query.
\<close>

theorem answer_local_verdict:
  "case answer_local cpu query zs of
     None \<Rightarrow> \<forall>q. first_question query = Some q \<longrightarrow> find_wire zs (lower_key cpu (name_wire (qname q))) = None
   | Some (resp, act) \<Rightarrow> \<exists>q key held. first_question query = Some q \<and> key = lower_key cpu (name_wire (qname q)) \<and>
       held = local_records_wire zs key (qtype q) \<and> find_wire zs key = Some act \<and>
       questions resp = [q] \<and> authority resp = [] \<and> hid (msg_header resp) = hid (msg_header query) \<and>
       hdr_qr (msg_header resp) \<and> hdr_ra (msg_header resp) \<and> \<not> hdr_tc (msg_header resp) \<and> \<not> hdr_ad (msg_header resp) \<and>
       (hdr_rd (msg_header resp) \<longleftrightarrow> hdr_rd (msg_header query)) \<and> (hdr_aa (msg_header resp) \<longleftrightarrow> act \<noteq> Refuse) \<and>
       rcode_low (msg_header resp) =
         (if act = Refuse then rcode_REFUSED
          else if act = NxDomain \<or> act = BlockPage \<and> held = [] \<or>
            act \<in> {Static, Redirect} \<and> \<not> name_has_records_wire zs key then rcode_NXDOMAIN
          else rcode_NOERROR) \<and>
       (answers resp \<noteq> [] \<longrightarrow> rcode_low (msg_header resp) = rcode_NOERROR \<and>
          (answers resp = held \<or> act \<in> {Static, Redirect} \<and> (\<exists>k \<le> 8. cname_path cpu zs (qtype q) k key (answers resp)))) \<and>
       (act \<in> {Static, Redirect, BlockPage} \<and> held \<noteq> [] \<longrightarrow> answers resp = held) \<and>
       (\<forall>k rs. act \<in> {Static, Redirect} \<and> held = [] \<and> qtype q \<noteq> rtype_CNAME \<and> k \<le> 8 \<and>
          cname_path cpu zs (qtype q) k key rs \<longrightarrow> answers resp = rs) \<and>
       (case message_edns query of
          Inr (Some client) \<Rightarrow> \<exists>server. additional resp = [to_record server] \<and> edns_options server = [] \<and>
            512 \<le> udp_payload server \<and> udp_payload server \<le> 1232 \<and>
            (512 \<le> udp_payload client \<longrightarrow> udp_payload server \<le> udp_payload client) \<and> (dnssec_ok server \<longleftrightarrow> dnssec_ok client)
        | _ \<Rightarrow> additional resp = [])"
proof (cases "answer_local cpu query zs")
  case None
  then show ?thesis by (auto simp: answer_local_def Let_def split: prod.splits bind_splits)
next
  case (Some x)
  obtain resp act where x: "x = (resp, act)" by (cases x)
  from Some x obtain q where q: "first_question query = Some q" "find_wire zs (lower_key cpu (name_wire (qname q))) = Some act"
    by (auto simp: answer_local_def Let_def split: prod.splits bind_splits)
  define key where "key = lower_key cpu (name_wire (qname q))"
  obtain aa rc recs where z: "zone_reply cpu zs act key (qtype q) = (aa, rc, recs)" by (cases "zone_reply cpu zs act key (qtype q)")
  note zc = zone_reply_cases [OF z]
  have fc: "follow_cname cpu zs key (qtype q) \<noteq> [] \<Longrightarrow> \<exists>k \<le> 8. cname_path cpu zs (qtype q) k key (follow_cname cpu zs key (qtype q))"
    "k \<le> 8 \<Longrightarrow> cname_path cpu zs (qtype q) k key rs \<Longrightarrow> follow_cname cpu zs key (qtype q) = rs" for k rs
    using follow_cname_path by blast+
  have rc: "rc < 16" using zc(2) by simp
  from Some x q z have resp: "resp = \<lparr>msg_header = set_rcode_low rc (if aa then set_aa True
      (set_ad False (set_tc False (set_ra True (set_aa False (set_qr True (msg_header query))))))
      else set_ad False (set_tc False (set_ra True (set_aa False (set_qr True (msg_header query)))))),
      questions = [q], answers = recs, authority = [], additional = echo_edns query\<rparr>"
    by (simp add: answer_local_def Let_def key_def)
  then have h: "hid (msg_header resp) = hid (msg_header query) \<and> hdr_qr (msg_header resp) \<and> hdr_ra (msg_header resp) \<and>
      \<not> hdr_tc (msg_header resp) \<and> \<not> hdr_ad (msg_header resp) \<and> (hdr_rd (msg_header resp) \<longleftrightarrow> hdr_rd (msg_header query)) \<and>
      (hdr_aa (msg_header resp) \<longleftrightarrow> act \<noteq> Refuse)" "rcode_low (msg_header resp) = rc"
    using rc zc(1) by simp_all
  have r: "questions resp = [q]" "authority resp = []" "additional resp = echo_edns query" by (simp_all add: resp)
  have a: "answers resp \<noteq> [] \<longrightarrow> rc = rcode_NOERROR \<and> (answers resp = local_records_wire zs key (qtype q) \<or>
      act \<in> {Static, Redirect} \<and> (\<exists>k \<le> 8. cname_path cpu zs (qtype q) k key (answers resp)))"
    using zc(2,3) local_records_held [of zs key "qtype q"] fc(1) cname_path_nonempty unfolding resp
    by (fastforce split: if_splits)
  have c: "\<forall>k rs. act \<in> {Static, Redirect} \<and> local_records_wire zs key (qtype q) = [] \<and> qtype q \<noteq> rtype_CNAME \<and> k \<le> 8 \<and>
      cname_path cpu zs (qtype q) k key rs \<longrightarrow> answers resp = rs"
    using zc(3) fc(2) unfolding resp by auto
  have d: "act \<in> {Static, Redirect, BlockPage} \<and> local_records_wire zs key (qtype q) \<noteq> [] \<longrightarrow>
      answers resp = local_records_wire zs key (qtype q)"
    using zc(3) unfolding resp by auto
  show ?thesis
    unfolding Some x option.case prod.case r h(2)
    using q(1) key_def q(2) [folded key_def] h(1) a d c zc(2) echo_edns_cases [of query]
    by (elim conjE) (intro exI [of _ q] exI [of _ key] exI [of _ "local_records_wire zs key (qtype q)"] conjI; (assumption | rule refl))
qed

definition sample_zones :: local_zone_set where
  "sample_zones = \<lparr>wire_records = [],
     records_wire =
       [([1, 97, 0], [\<lparr>rr_name = Name [1, 97, 0], rr_type = 5, rr_class = 1, rr_ttl = 60, rr_data = Cname (Name [1, 66, 0])\<rparr>]),
        ([1, 98, 0], [\<lparr>rr_name = Name [1, 98, 0], rr_type = 1, rr_class = 1, rr_ttl = 60, rr_data = A 1\<rparr>])],
     zones_wire = [([1, 97, 0], Static)], static_names_wire = []\<rparr>"

theorem answer_local_verdict_witness:
  "\<exists>resp. answer_local plain_cpu
      \<lparr>msg_header = header_default, questions = [\<lparr>qname = Name [1, 65, 0], qtype = 1, qclass = 1\<rparr>], answers = [], authority = [], additional = []\<rparr>
      sample_zones = Some (resp, Static) \<and>
    rcode_low (msg_header resp) = rcode_NOERROR \<and> map rr_data (answers resp) = [Cname (Name [1, 66, 0]), A 1]"
proof -
  let ?q = "\<lparr>msg_header = header_default, questions = [\<lparr>qname = Name [1, 65, 0], qtype = 1, qclass = 1\<rparr>],
    answers = [], authority = [], additional = []\<rparr>"
  have k: "lower_key plain_cpu [1, 65, 0] = [1, 97, 0]" "lower_key plain_cpu [1, 66, 0] = [1, 98, 0]"
    unfolding lower_key_def copy_lowercase_lower by code_simp+
  have f: "first_question ?q = Some \<lparr>qname = Name [1, 65, 0], qtype = 1, qclass = 1\<rparr>"
    "find_wire sample_zones [1, 97, 0] = Some Static" "local_records_wire sample_zones [1, 97, 0] 1 = []"
    "name_has_records_wire sample_zones [1, 97, 0]"
    by (simp_all add: first_question_def find_wire.simps local_records_wire_def name_has_records_wire_def sample_zones_def)
  let ?rs = "[\<lparr>rr_name = Name [1, 97, 0], rr_type = 5, rr_class = 1, rr_ttl = 60, rr_data = Cname (Name [1, 66, 0])\<rparr>,
    \<lparr>rr_name = Name [1, 98, 0], rr_type = 1, rr_class = 1, rr_ttl = 60, rr_data = A 1\<rparr>]"
  have c: "cname_path plain_cpu sample_zones 1 1 [1, 97, 0] ?rs"
    by (rule cname_path.last_link [where n = "Name [1, 66, 0]" and cs = "[]"]) (simp_all add: k local_records_wire_def sample_zones_def)
  note v = answer_local_verdict [where cpu = plain_cpu and query = ?q and zs = sample_zones]
  obtain resp act where a: "answer_local plain_cpu ?q sample_zones = Some (resp, act)"
    using v f k by (cases "answer_local plain_cpu ?q sample_zones") (simp_all, metis surj_pair)
  from v [unfolded a option.case prod.case] obtain q key held where e: "first_question ?q = Some q"
      "key = lower_key plain_cpu (name_wire (qname q))" "held = local_records_wire sample_zones key (qtype q)"
      "find_wire sample_zones key = Some act"
      "rcode_low (msg_header resp) =
         (if act = Refuse then rcode_REFUSED
          else if act = NxDomain \<or> act = BlockPage \<and> held = [] \<or>
            act \<in> {Static, Redirect} \<and> \<not> name_has_records_wire sample_zones key then rcode_NXDOMAIN
          else rcode_NOERROR)"
      "\<forall>k rs. act \<in> {Static, Redirect} \<and> held = [] \<and> qtype q \<noteq> rtype_CNAME \<and> k \<le> 8 \<and>
          cname_path plain_cpu sample_zones (qtype q) k key rs \<longrightarrow> answers resp = rs"
    by (elim exE conjE) (rule that; assumption)
  have q: "q = \<lparr>qname = Name [1, 65, 0], qtype = 1, qclass = 1\<rparr>" using e(1) unfolding f(1) by simp
  have key: "key = [1, 97, 0]" using e(2) k(1) by (simp add: q)
  have held: "held = []" using e(3) f(3) by (simp add: q key)
  have act: "act = Static" using e(4) f(2) by (simp add: key)
  have "answers resp = ?rs" using e(6) [rule_format, of 1 ?rs] c by (simp add: q key held act)
  then show ?thesis using a e(5) f(4) by (simp add: key act)
qed

section \<open>Replies to datagrams\<close>

text \<open>A store whose records the codec can carry, in numbers that fit the count fields of a message.\<close>

definition store_ok :: "local_zone_set \<Rightarrow> bool" where
  "store_ok zs \<longleftrightarrow> (\<forall>key rs. map_of (records_wire zs) key = Some rs \<longrightarrow> list_all rr_ok rs \<and> length rs \<le> 65000)"

lemma local_records_ok:
  "store_ok zs \<Longrightarrow> list_all rr_ok (local_records_wire zs key qt) \<and> length (local_records_wire zs key qt) \<le> 65000"
  by (auto simp: store_ok_def local_records_wire_def list_all_iff intro: order.trans [OF length_filter_le] split: option.split)

lemma cname_path_ok: "cname_path cpu zs qt k key rs \<Longrightarrow> store_ok zs \<Longrightarrow> list_all rr_ok rs \<and> length rs \<le> 65000 + k"
proof (induction rule: cname_path.induct)
  case (last_link key c cs n rs)
  then show ?case using local_records_ok [of zs key rtype_CNAME] local_records_ok [of zs _ qt] by force
next
  case (link key c cs n k rs)
  then show ?case using local_records_ok [of zs key rtype_CNAME] by simp
qed

lemma zone_reply_ok:
  assumes "store_ok zs" "zone_reply cpu zs action key qt = (aa, rc, recs)"
  shows "list_all rr_ok recs \<and> length recs \<le> 65535"
proof -
  have "list_all rr_ok rs \<and> length rs \<le> 65008" if "follow_cname cpu zs key qt = rs" for rs
  proof (cases "rs = []")
    case False
    with that follow_cname_path [of cpu zs key qt rs] obtain k where "k \<le> 8" "cname_path cpu zs qt k key rs" by auto
    with cname_path_ok [OF this(2) assms(1)] show ?thesis by simp
  qed simp
  with local_records_ok [OF assms(1), of key qt] zone_reply_cases(3) [OF assms(2)] show ?thesis by fastforce
qed

lemma plain_opt_ok: "edns_options e = [] \<Longrightarrow> rr_ok (to_record e)"
  by (simp add: to_record_def rr_ok_def rdata_ok_def)

lemma answer_local_ok:
  assumes "store_ok zs" "answer_local cpu query zs = Some (resp, act)" "list_all question_ok (questions query)"
  shows "message_ok resp"
proof -
  have q: "list_all question_ok (questions resp)" "length (questions resp) = 1" "authority resp = []" "additional resp = echo_edns query"
    using assms(2,3) by (auto simp: answer_local_def first_question_def Let_def split: bind_splits prod.splits list.splits if_splits)
  moreover have "list_all rr_ok (echo_edns query) \<and> length (echo_edns query) \<le> 1"
    using echo_edns_cases [of query] plain_opt_ok by (auto split: sum.splits option.splits)
  moreover have "list_all rr_ok (answers resp) \<and> length (answers resp) \<le> 65535"
    using assms(2) zone_reply_ok [OF assms(1)] by (auto simp: answer_local_def Let_def split: bind_splits prod.splits)
  ultimately show ?thesis by (simp add: message_ok_def)
qed

text \<open>
  C10. Serving a datagram from a store of well-formed records never panics, whatever the datagram, and
  what it sends back is a message that reads as the reply decided on: the identifier of the query, its
  question and the response code, and the same records up to the case of their names.
\<close>

theorem serve_datagram_reply:
  assumes "store_ok zs"
  shows "\<exists>r. serve_datagram cpu query zs = Some r \<and>
    (case r of
       None \<Rightarrow> \<forall>msg. message_parse query = Inr msg \<longrightarrow> answer_local cpu msg zs = None
     | Some (buf, act) \<Rightarrow> \<exists>msg resp resp'. message_parse query = Inr msg \<and> answer_local cpu msg zs = Some (resp, act) \<and>
         message_parse buf = Inr resp' \<and> message_same resp resp' \<and> hid (msg_header resp') = hid (msg_header msg) \<and>
         rcode_low (msg_header resp') = rcode_low (msg_header resp))"
proof (cases "message_parse query")
  case (Inl err)
  then show ?thesis by (simp add: serve_datagram_def)
next
  case (Inr msg)
  have qs: "list_all question_ok (questions msg)" using message_parse_counts(6) [OF Inr] .
  show ?thesis
  proof (cases "answer_local cpu msg zs")
    case None
    then show ?thesis by (simp add: serve_datagram_def Inr)
  next
    case (Some x)
    obtain resp act where x: "x = (resp, act)" by (cases x)
    have ok: "message_ok resp" using answer_local_ok [OF assms Some [unfolded x] qs] .
    then obtain buf resp' where buf: "message_encode resp = Some buf" "\<forall>rest. message_parse (buf @ rest) = Inr resp'"
      "message_same resp resp'" using message_sameI [OF ok, of True] by (auto simp: message_encode_def)
    have "hid (msg_header resp) = hid (msg_header msg)"
      using Some x by (auto simp: answer_local_def Let_def split: bind_splits prod.splits)
    moreover have "message_parse buf = Inr resp'" using buf(2) [rule_format, of "[]"] by simp
    moreover have "rcode_low (msg_header resp') = rcode_low (msg_header resp)" "hid (msg_header resp') = hid (msg_header resp)"
      using buf(3) by (simp_all add: message_same_def counted_header_def rcode_low_def)
    ultimately show ?thesis using buf Some x Inr by (simp add: serve_datagram_def)
  qed
qed

theorem serve_datagram_reply_witness:
  "\<exists>buf resp. serve_datagram plain_cpu sample_query
      \<lparr>wire_records = [], records_wire = [], zones_wire = [([0], NxDomain)], static_names_wire = []\<rparr> = Some (Some (buf, NxDomain)) \<and>
    message_parse buf = Inr resp \<and> hid (msg_header resp) = 7"
proof -
  let ?zs = "\<lparr>wire_records = [], records_wire = [], zones_wire = [([0], NxDomain)], static_names_wire = []\<rparr> :: local_zone_set"
  have ok: "store_ok ?zs" by (simp add: store_ok_def)
  obtain msg where m: "message_parse sample_query = Inr msg" "hid (msg_header msg) = 7"
    "first_question msg = Some \<lparr>qname = sample_name, qtype = rtype_A, qclass = class_IN\<rparr>"
    using sample_query_parses by (simp add: first_question_def)
  have "find_wire ?zs (lower_key plain_cpu (name_wire sample_name)) = Some NxDomain"
    unfolding lower_key_def copy_lowercase_lower by code_simp
  then obtain resp where "answer_local plain_cpu msg ?zs = Some (resp, NxDomain)"
    using m(3) by (simp add: answer_local_def zone_reply_def)
  with serve_datagram_reply [OF ok, of plain_cpu sample_query] m show ?thesis
    by (auto split: option.splits)
qed

end
