(* ===== verification/Fast_Path.thy ===== *)
theory Fast_Path
  imports Wire_Serve Ip_Acl
begin

unbundle bit_operations_syntax

text \<open>
  The two ways the packet loops of \<open>dns/xdp/worker.rs\<close> and \<open>dns/kernel_loop.rs\<close> answer a query from the
  local zones: \<open>answer_dns_wire\<close>, which reads the query in place and copies prepared octets, and
  \<open>answer_dns\<close>, which goes through the message codec. The output buffer is threaded through; the outer
  \<open>option\<close> stands for a panic.
\<close>

section \<open>The code\<close>

abbreviation (input) opcode_QUERY :: byte where "opcode_QUERY \<equiv> 0"
abbreviation (input) rtype_ANY :: u16 where "rtype_ANY \<equiv> 255"

datatype wire_answer = Answered nat | Fallback | Drop

definition acl_gate :: "acl_entry list \<Rightarrow> ip_addr option \<Rightarrow> acl_action" where
  "acl_gate acl src_ip = (case src_ip of None \<Rightarrow> Allow | Some ip \<Rightarrow> acl_check acl ip)"

definition answered :: "byte list \<Rightarrow> out_buf option \<Rightarrow> wire_answer \<times> byte list" where
  "answered out b = (case b of Some (len, out) \<Rightarrow> (Answered len, out) | None \<Rightarrow> (Fallback, out))"

definition answer_from_index ::
    "cpu \<Rightarrow> wire_query \<Rightarrow> byte list \<Rightarrow> local_zone_set \<Rightarrow> (wire_answer \<times> byte list) option" where
  "answer_from_index cpu wq out zs =
     (if wq_qclass wq = 1 \<and> (wq_qtype wq = 1 \<or> wq_qtype wq = 28) then
        let qname_lc = normalize_query_qname (cpu_x86_64 cpu) (cpu_level cpu) (wq_qname_wire wq);
            key = cpu_hash cpu qname_lc
        in case map_of (wire_records zs) key of
             None \<Rightarrow> Some (Fallback, out)
           | Some entry \<Rightarrow>
               if bytes_eq (cpu_x86_64 cpu) (cpu_level cpu) (we_qname entry) qname_lc then
                 let recs = (if wq_qtype wq = 1 then we_a entry else we_aaaa entry) in
                 if recs \<noteq> [] then do {
                   b \<leftarrow> build_answer_a_aaaa_wire wq out recs (wq_edns wq);
                   Some (answered out b)
                 }
                 else Some (Fallback, out)
               else Some (Fallback, out)
      else Some (Fallback, out))"

definition answer_dns_wire ::
    "cpu \<Rightarrow> byte list \<Rightarrow> byte list \<Rightarrow> local_zone_set \<Rightarrow> acl_entry list \<Rightarrow> ip_addr option \<Rightarrow> (wire_answer \<times> byte list) option" where
  "answer_dns_wire cpu query_bytes out zs acl src_ip = do {
     parsed \<leftarrow> parse_query (cpu_x86_64 cpu) query_bytes;
     (case parsed of
        None \<Rightarrow> Some (Fallback, out)
      | Some wq \<Rightarrow>
          if (case wq_edns wq of None \<Rightarrow> False | Some e \<Rightarrow> ei_do_bit e) then Some (Fallback, out)
          else if wq_qtype wq = 255 then Some (Fallback, out)
          else
            (case acl_gate acl src_ip of
               Deny \<Rightarrow> Some (Drop, out)
             | acl_action.Refuse \<Rightarrow> do { b \<leftarrow> build_refused wq out (wq_edns wq); Some (answered out b) }
             | Allow \<Rightarrow> answer_from_index cpu wq out zs))
   }"

record query_stats =
  st_blocked :: u64
  st_nxdomain :: u64
  st_local_hits :: u64

definition count_action :: "zone_action \<Rightarrow> query_stats \<Rightarrow> query_stats" where
  "count_action action st =
     (case action of
        zone_action.Refuse \<Rightarrow> st\<lparr>st_blocked := st_blocked st + 1\<rparr>
      | BlockPage \<Rightarrow> st\<lparr>st_blocked := st_blocked st + 1\<rparr>
      | NxDomain \<Rightarrow> st\<lparr>st_nxdomain := st_nxdomain st + 1\<rparr>
      | _ \<Rightarrow> st\<lparr>st_local_hits := st_local_hits st + 1\<rparr>)"

definition refused_message :: "message \<Rightarrow> question \<Rightarrow> message" where
  "refused_message query q =
     \<lparr>msg_header = set_rcode_low rcode_REFUSED (set_ra False (set_aa False (set_qr True (msg_header query)))),
       questions = [q], answers = [], authority = [], additional = []\<rparr>"

definition answer_dns ::
    "cpu \<Rightarrow> byte list \<Rightarrow> local_zone_set \<Rightarrow> acl_entry list \<Rightarrow> ip_addr option \<Rightarrow> byte list \<Rightarrow> query_stats \<Rightarrow>
     (bool \<times> byte list \<times> query_stats) option" where
  "answer_dns cpu query_bytes zs acl src_ip out st =
     (case message_parse query_bytes of
        Inl _ \<Rightarrow> Some (False, out, st)
      | Inr query \<Rightarrow>
          if hdr_qr (msg_header query) \<or> hdr_opcode (msg_header query) \<noteq> opcode_QUERY then Some (False, out, st)
          else (case first_question query of
             None \<Rightarrow> Some (False, out, st)
           | Some q \<Rightarrow>
               (case acl_gate acl src_ip of
                  Deny \<Rightarrow> Some (False, out, st)
                | acl_action.Refuse \<Rightarrow> do { buf \<leftarrow> message_encode (refused_message query q); Some (True, buf, st) }
                | Allow \<Rightarrow>
                    if qtype q = rtype_ANY then Some (False, out, st)
                    else (case answer_local cpu query zs of
                            None \<Rightarrow> Some (False, out, st)
                          | Some (resp, action) \<Rightarrow> do {
                              buf \<leftarrow> message_encode resp;
                              Some (True, buf, count_action action st)
                            }))))"

section \<open>The fast path agrees with the serving core\<close>

lemma bytes_eq_iff: "bytes_eq x86_64 level a b \<longleftrightarrow> a = b"
  by (auto simp: bytes_eq_def bytes_eq_sse2 bytes_eq_avx2)

lemma normalize_lower: "normalize_query_qname x86_64 level w = lower w"
  by (simp add: normalize_query_qname_def copy_lowercase_lower)

lemma lower_key_lower: "lower_key cpu w = lower w"
  by (simp add: lower_key_def copy_lowercase_lower)

text \<open>The flag word of a local answer to a query with the opcode QUERY and the Z and CD bits clear.\<close>

lemma answer_flags:
  assumes "hflags h AND 0x7850 = 0"
  shows "hflags (set_rcode_low 0 (set_aa True (set_ad False (set_tc False (set_ra True (set_aa False (set_qr True h))))))) =
    0x8480 OR rd_flag (hdr_rd h)"
proof -
  have "\<not> (bit (hflags h) n \<and> bit (0x7850 :: u16) n)" for n
    using arg_cong [OF assms, of "\<lambda>w. bit w n"] by (simp add: bit_and_iff)
  then have z: "\<not> bit (hflags h) 4" "\<not> bit (hflags h) 6" "\<not> bit (hflags h) 11" "\<not> bit (hflags h) 12"
    "\<not> bit (hflags h) 13" "\<not> bit (hflags h) 14" by fastforce+
  have rd: "hdr_rd h \<longleftrightarrow> bit (hflags h) 8"
    using bit_iff_and_push_bit_not_eq_0 [of "hflags h" 8] by (simp add: hdr_rd_def flag_get_def)
  show ?thesis
  proof (rule bit_eqI)
    fix n
    assume "possible_bit TYPE(u16) n"
    then have "n < 16" by simp
    then have "n \<in> {0, 1, 2, 3, 4, 5, 6, 7} \<or> n \<in> {8, 9, 10, 11, 12, 13, 14, 15}" by (simp add: less_eq_Suc_le) presburger
    then show "bit (hflags (set_rcode_low 0 (set_aa True (set_ad False (set_tc False (set_ra True (set_aa False (set_qr True h)))))))) n =
        bit (0x8480 OR rd_flag (hdr_rd h)) n"
      by (elim disjE insertE emptyE) (use z rd in \<open>simp_all add: set_rcode_low_def set_aa_def set_ad_def set_tc_def set_ra_def set_qr_def flag_set_def
        rd_flag_def bit_or_iff bit_and_iff bit_not_iff bit_push_bit_iff\<close>)
  qed
qed

text \<open>The records of a name in a configured store are records for that name.\<close>

lemma config_records_for:
  assumes "valid_name n" "r \<in> set (local_records_wire (from_config cpu hex iter zones data) (lower (name_wire n)) qt)"
  shows "record_for n qt r"
proof -
  obtain rs where rs: "map_of (fold (load_record cpu hex) data []) (lower (name_wire n)) = Some rs" "r \<in> set rs" "rr_type r = qt"
    using assms(2) unfolding local_records_wire_def from_config_records
    by (cases "map_of (fold (load_record cpu hex) data []) (lower (name_wire n))") auto
  then have "r \<in> set (config_records hex data)" "wire_name_key cpu (rr_name r) = lower (name_wire n)"
    using load_records [of cpu hex data "lower (name_wire n)"] by (auto simp: Let_def split: if_splits)
  with rs(3) show ?thesis
    by (auto simp: record_for_def wire_name_key_lower dest!: config_records_parsed parse_rr_line_typed)
qed

text \<open>An answer of the index is made from the records of the queried name and type.\<close>

lemma answer_from_index_Answered:
  assumes "index_ok cpu (map_of (records_wire zs)) (wire_records zs)"
    and "answer_from_index cpu wq out zs = Some (Answered len, out')"
  shows "wq_qclass wq = class_IN \<and> local_records_wire zs (lower (wq_qname_wire wq)) (wq_qtype wq) \<noteq> [] \<and>
    build_answer_a_aaaa_wire wq out (map wire_rdata_of (local_records_wire zs (lower (wq_qname_wire wq)) (wq_qtype wq))) (wq_edns wq) =
      Some (Some (len, out'))"
proof -
  let ?k = "lower (wq_qname_wire wq)"
  have "wq_qclass wq = 1 \<and> (wq_qtype wq = 1 \<or> wq_qtype wq = 28)"
  proof (rule ccontr)
    assume "\<not> ?thesis"
    then have "answer_from_index cpu wq out zs = Some (Fallback, out)" unfolding answer_from_index_def by (rule if_not_P)
    with assms(2) show False by simp
  qed
  then have t: "wq_qclass wq = 1" "wq_qtype wq = 1 \<or> wq_qtype wq = 28" by simp_all
  obtain e where e: "map_of (wire_records zs) (cpu_hash cpu ?k) = Some e"
    using assms(2) t by (cases "map_of (wire_records zs) (cpu_hash cpu ?k)") (simp_all add: answer_from_index_def normalize_lower)
  define recs where "recs = (if wq_qtype wq = 1 then we_a e else we_aaaa e)"
  have a: "(if we_qname e = ?k then if recs \<noteq> [] then build_answer_a_aaaa_wire wq out recs (wq_edns wq) \<bind> (\<lambda>b. Some (answered out b))
      else Some (Fallback, out) else Some (Fallback, out)) = Some (Answered len, out')"
    using assms(2) unfolding answer_from_index_def Let_def normalize_lower bytes_eq_iff recs_def
    by (simp only: eqTrueI [OF conjI [OF t]] e option.case if_True)
  then have q: "we_qname e = ?k" "recs \<noteq> []" by (auto split: if_splits)
  then have b: "build_answer_a_aaaa_wire wq out recs (wq_edns wq) = Some (Some (len, out'))"
    using a by (auto simp: answered_def split: option.splits bind_splits)
  from assms(1) [unfolded index_ok_def, rule_format, OF e] q(1) obtain rs where rs: "map_of (records_wire zs) ?k = Some rs"
    "we_a e = map wire_rdata_of (filter (\<lambda>r. rr_type r = rtype_A) rs)"
    "we_aaaa e = map wire_rdata_of (filter (\<lambda>r. rr_type r = rtype_AAAA) rs)"
    by auto
  then have "recs = map wire_rdata_of (local_records_wire zs ?k (wq_qtype wq))"
    using t(2) by (auto simp: local_records_wire_def recs_def)
  with q(2) t(1) b show ?thesis by auto
qed

lemma echo_plain_opt:
  assumes "ed = None \<or> (\<exists>p t. ed = Some (p, t, []) \<and> \<not> bit t 15 \<and> 512 \<le> p \<and> p \<le> 1232)"
  shows "echo_edns ((query_message h n qt cls ed)\<lparr>msg_header := h'\<rparr>) =
    (case map_option (\<lambda>(p, t, d). (p, 0, [])) ed of None \<Rightarrow> [] | Some (p, t, d) \<Rightarrow> [opt_record p t d])"
proof (cases ed)
  case None
  then show ?thesis by (simp add: echo_edns_def message_edns_def query_message_def)
next
  case (Some x)
  with assms obtain p t where ed: "ed = Some (p, t, [])" "\<not> bit t 15" "512 \<le> p" "p \<le> 1232" by auto
  have "bit (ucast t :: u16) 15 \<longleftrightarrow> bit t 15" by (simp add: bit_ucast_iff)
  then have "(ucast t :: u16) AND 0x8000 = 0"
    using ed(2) bit_iff_and_push_bit_not_eq_0 [of "ucast t :: u16" 15] by simp
  then show ?thesis using ed(1,3,4)
    by (auto simp: echo_edns_def message_edns_def query_message_def opt_record_def from_record_def edns_opts.simps
        to_record_def set_dnssec_ok_def dnssec_ok_def edns_default_def clamp_u16_def max_def not_less Let_def)
qed

text \<open>The encoder overwrites the counts of the header it is given.\<close>

lemma encode_counts:
  assumes "hid h = hid h'" "hflags h = hflags h'"
  shows "message_encode \<lparr>msg_header = h, questions = qs, answers = an, authority = ns, additional = ar\<rparr> =
    message_encode \<lparr>msg_header = h', questions = qs, answers = an, authority = ns, additional = ar\<rparr>"
  using assms by (cases h; cases h') (simp add: message_encode_def encode_with_def)

text \<open>What the builder writes is the encoding of the reply with the same header word.\<close>

lemma fast_octets:
  assumes "valid_name n" "\<not> is_root n" "\<forall>r \<in> set rs. record_for n qt r"
    and "hid h' = qid" "hflags h' = 0x8480 OR rd_flag rd"
    and "build_answer_a_aaaa_wire
        \<lparr>wq_id = qid, wq_qname_wire = name_wire n, wq_qtype = qt, wq_qclass = cls, wq_rd = rd, wq_edns = edns'\<rparr>
        out (map wire_rdata_of rs) (map_option (\<lambda>(p, t, d). \<lparr>ei_udp_payload = p, ei_do_bit = bit t 15\<rparr>) ed) = Some (Some (len, out'))"
  shows "message_encode \<lparr>msg_header = h', questions = [\<lparr>qname = n, qtype = qt, qclass = cls\<rparr>], answers = rs, authority = [],
    additional = (case map_option (\<lambda>(p, t, d). (p, 0, [])) ed of None \<Rightarrow> [] | Some (p, t, d) \<Rightarrow> [opt_record p t d])\<rparr> =
    Some (take len out')"
proof -
  let ?edns = "map_option (\<lambda>(p, t, d). \<lparr>ei_udp_payload = p, ei_do_bit = bit t 15\<rparr>) ed"
  let ?h = "\<lparr>hid = qid, hflags = 0x8480 OR rd_flag rd, qdcount = 0, ancount = 0, nscount = 0, arcount = 0\<rparr>"
  have ed: "(case map_option (\<lambda>(p, t, d). (p, 0, [])) ed of None \<Rightarrow> [] | Some (p, t, d) \<Rightarrow> [opt_record p t d]) =
      (case ?edns of None \<Rightarrow> [] | Some e \<Rightarrow> [opt_record (ei_udp_payload e) 0 []])" by (cases ed) auto
  have "message_encode \<lparr>msg_header = h', questions = [\<lparr>qname = n, qtype = qt, qclass = cls\<rparr>], answers = rs, authority = [], additional = ar\<rparr> =
      message_encode \<lparr>msg_header = ?h, questions = [\<lparr>qname = n, qtype = qt, qclass = cls\<rparr>], answers = rs, authority = [], additional = ar\<rparr>" for ar
    by (rule encode_counts) (use assms(4,5) in simp_all)
  with build_answer_encoding [OF assms(1-3), of qid rd cls ?edns edns' out] assms(6) show ?thesis
    unfolding ed by (auto split: if_splits)
qed

text \<open>
  C8. The two paths give a client the same octets where the zone serves data: for a store built from the
  configuration and a query that reads the same on both (opcode QUERY, the Z and CD bits clear, a name other than
  the root without a NUL octet in a label, at most an OPT record without options, with the DO flag clear and a
  payload size from 512 to 1232), an answer of the fast path to an admitted client is, octet for octet, the
  datagram of the serving core when the zone's action is Static, Redirect or BlockPage. The fast path does not look
  at the action, though: when the zone is to refuse or to deny, the serving core sends no records, with REFUSED or
  NXDOMAIN, for the same query that the fast path answers with the configured addresses.
\<close>

theorem fast_path_agrees:
  assumes "iterates iter" "zs = from_config cpu hex iter zones data"
    and "valid_name n" "\<not> is_root n" "\<forall>l \<in> set (labels n). 0 \<notin> set l"
    and "\<not> hdr_qr h" "hflags h AND 0x7850 = 0"
    and "ed = None \<or> (\<exists>p t. ed = Some (p, t, []) \<and> \<not> bit t 15 \<and> 512 \<le> p \<and> p \<le> 1232)"
    and "message_encode (query_message h n qt cls ed) = Some query"
    and "acl_gate acl src_ip = Allow" "find_wire zs (lower (name_wire n)) = Some act"
    and "answer_dns_wire cpu query out zs acl src_ip = Some (Answered len, out')"
  shows "local_records_wire zs (lower (name_wire n)) qt \<noteq> [] \<and>
    (act \<in> {Static, Redirect, BlockPage} \<longrightarrow> serve_datagram cpu query zs = Some (Some (take len out', act))) \<and>
    (act \<in> {zone_action.Refuse, NxDomain} \<longrightarrow> (\<exists>m resp. message_parse query = Inr m \<and> answer_local cpu m zs = Some (resp, act) \<and>
       answers resp = [] \<and> rcode_low (msg_header resp) = (if act = zone_action.Refuse then rcode_REFUSED else rcode_NXDOMAIN)))"
proof -
  let ?edns = "map_option (\<lambda>(p, t, d). \<lparr>ei_udp_payload = p, ei_do_bit = bit t 15\<rparr>) ed"
  let ?wq = "\<lparr>wq_id = hid h, wq_qname_wire = name_wire n, wq_qtype = qt, wq_qclass = cls, wq_rd = hdr_rd h, wq_edns = ?edns\<rparr>"
  let ?held = "local_records_wire zs (lower (name_wire n)) qt"
  have query: "query = query_wire h n qt cls ed" using assms(9) encode_query_wire [OF assms(3)] by simp
  have parsed: "parse_query (cpu_x86_64 cpu) query = Some (Some ?wq)"
    unfolding query by (rule parse_query_wire [OF assms(3,5,6)])
  have "answer_from_index cpu ?wq out zs = Some (Answered len, out')"
    using assms(8,10,12) parsed by (auto simp: answer_dns_wire_def split: if_splits option.splits)
  note index = answer_from_index_Answered [OF from_config_index [OF assms(1), of cpu hex zones data, folded assms(2)] this]
  then have held: "cls = class_IN" "?held \<noteq> []" by simp_all
  have b: "build_answer_a_aaaa_wire ?wq out (map wire_rdata_of ?held) ?edns = Some (Some (len, out'))"
    using conjunct2 [OF conjunct2 [OF index]] unfolding wire_query.select_convs .
  have for_n: "\<forall>r \<in> set ?held. record_for n qt r" using config_records_for [OF assms(3)] assms(2) by blast
  let ?resp = "\<lparr>msg_header = set_rcode_low 0 (set_aa True (set_ad False (set_tc False (set_ra True (set_aa False (set_qr True (query_header h ed))))))),
    questions = [\<lparr>qname = n, qtype = qt, qclass = cls\<rparr>], answers = ?held, authority = [],
    additional = (case map_option (\<lambda>(p, t, d). (p, 0, [])) ed of None \<Rightarrow> [] | Some (p, t, d) \<Rightarrow> [opt_record p t d])\<rparr>"
  have ed: "case ed of None \<Rightarrow> True | Some (p, t, d) \<Rightarrow> length d \<le> 65535" using assms(8) by auto
  let ?m = "(query_message h n qt cls ed)\<lparr>msg_header := query_header h ed\<rparr>"
  have parse: "message_parse query = Inr ?m" unfolding query by (simp add: message_parse_query_wire [OF assms(3) ed])
  have deny: "\<exists>resp. answer_local cpu ?m zs = Some (resp, act) \<and> answers resp = [] \<and>
      rcode_low (msg_header resp) = (if act = zone_action.Refuse then rcode_REFUSED else rcode_NXDOMAIN)" if "act \<in> {zone_action.Refuse, NxDomain}"
    using that assms(11) by (auto simp: answer_local_def first_question_def query_message_def lower_key_lower zone_reply_def Let_def)
  have "zone_reply cpu zs act (lower (name_wire n)) qt = (True, rcode_NOERROR, ?held)" if "act \<in> {Static, Redirect, BlockPage}"
    using that held(2) by (auto simp: zone_reply_def Let_def)
  then have "answer_local cpu ?m zs = Some (?resp, act)" if "act \<in> {Static, Redirect, BlockPage}"
    using that assms(11) echo_plain_opt [OF assms(8)]
    by (simp add: answer_local_def first_question_def query_message_def lower_key_lower)
  then have serve: "serve_datagram cpu query zs = (message_encode ?resp \<bind> (\<lambda>buf. Some (Some (buf, act))))"
    if "act \<in> {Static, Redirect, BlockPage}"
    unfolding serve_datagram_def parse using that by simp
  have flags: "hflags (set_rcode_low 0 (set_aa True (set_ad False (set_tc False (set_ra True (set_aa False (set_qr True (query_header h ed)))))))) =
      0x8480 OR rd_flag (hdr_rd h)"
    using answer_flags [of "query_header h ed"] assms(7) by (simp add: query_header_def hdr_rd_def flag_get_def)
  have "message_encode ?resp = Some (take len out')"
    using b by (intro fast_octets [OF assms(3,4) for_n _ flags]) (simp_all add: query_header_def)
  with serve deny held(2) parse show ?thesis by simp
qed

definition sample_store :: local_zone_set where
  "sample_store = from_config plain_cpu (\<lambda>_. None) (\<lambda>xs. xs) [] [\<lparr>ld_rr = ascii ''a 60 A 1.2.3.4''\<rparr>]"

lemma sample_store_eval:
  "sample_store = \<lparr>wire_records = [(cpu_hash plain_cpu [1, 97, 0],
       \<lparr>we_qname = [1, 97, 0], we_a = [\<lparr>wr_ttl = 60, wr_rdata = be_bytes 4 (0x01020304 :: u32)\<rparr>], we_aaaa = []\<rparr>)],
     records_wire = [([1, 97, 0], [\<lparr>rr_name = Name [1, 97, 0], rr_type = 1, rr_class = 1, rr_ttl = 60, rr_data = A 0x01020304\<rparr>])],
     zones_wire = [([1, 97, 0], Static)], static_names_wire = [[1, 97, 0]]\<rparr>"
proof -
  have "wire_name_key plain_cpu (Name [1, 97, 0]) = [1, 97, 0]" unfolding wire_name_key_lower by code_simp
  then show ?thesis using sample_line
    by (simp add: sample_store_def from_config_def load_record_def load_key_def index_name_def index_record_def entry_push_def or_insert_def)
qed

theorem fast_path_agrees_witness:
  "\<exists>query len out. answer_dns_wire plain_cpu query (replicate 512 0) sample_store [] None = Some (Answered len, out) \<and>
    serve_datagram plain_cpu query sample_store = Some (Some (take len out, Static))"
proof -
  let ?n = "Name [1, 97, 0]" and ?h = "header_default"
  let ?wq = "\<lparr>wq_id = 0, wq_qname_wire = [1, 97, 0], wq_qtype = 1, wq_qclass = 1, wq_rd = False, wq_edns = None\<rparr>"
  have v: "valid_name ?n" "\<not> is_root ?n" "\<forall>l \<in> set (labels ?n). 0 \<notin> set l" by code_simp+
  have h: "\<not> hdr_qr ?h" "hflags ?h AND 0x7850 = 0" "\<not> hdr_rd ?h" "hid ?h = 0" by (simp_all add: header_default_def hdr_qr_def hdr_rd_def flag_get_def)
  have l: "lower (name_wire ?n) = [1, 97, 0]" by code_simp
  note q = encode_query_wire [OF v(1), of ?h 1 1 None]
  have p: "parse_query False (query_wire ?h ?n 1 1 None) = Some (Some ?wq)" using parse_query_wire [OF v(1,3) h(1)] h(3,4) by simp
  obtain len out where b: "build_answer_a_aaaa_wire ?wq (replicate 512 0) [\<lparr>wr_ttl = 60, wr_rdata = be_bytes 4 (0x01020304 :: u32)\<rparr>] None = Some (Some (len, out))"
    by (simp add: build_answer_wire head_wire_def answer_wire_def opt_wire_def length_be_bytes written_def)
  have "answer_from_index plain_cpu ?wq (replicate 512 0) sample_store = Some (Answered len, out)"
    using b l by (simp add: answer_from_index_def sample_store_eval normalize_lower bytes_eq_iff answered_def)
  then have a: "answer_dns_wire plain_cpu (query_wire ?h ?n 1 1 None) (replicate 512 0) sample_store [] None = Some (Answered len, out)"
    using p by (simp add: answer_dns_wire_def acl_gate_def plain_cpu_def)
  have f: "find_wire sample_store (lower (name_wire ?n)) = Some Static" unfolding l by (simp add: find_wire.simps sample_store_eval)
  have "serve_datagram plain_cpu (query_wire ?h ?n 1 1 None) sample_store = Some (Some (take len out, Static))"
    using fast_path_agrees [OF iterates_id sample_store_def v h(1,2) _ q _ f a] by (simp add: acl_gate_def)
  with a show ?thesis by blast
qed

end
