(* ===== verification/Subnet_Policy.thy ===== *)
theory Subnet_Policy
  imports Ip_Acl
begin

text \<open>
  The filters per client network, \<open>subnet_policy.rs\<close>: how the stored policies are compiled, replaced while
  the server runs, and asked about a query. The two process-wide variables are the record \<open>policy_state\<close>;
  a \<open>HashSet\<close> of domains is the list of its elements, of which only membership is asked. Reading and
  writing the JSON file is left out: the policies it holds are an argument.
\<close>

section \<open>The code\<close>

record subnet_policy =
  sp_name :: str
  sp_subnet :: str
  sp_blacklist_extra :: "str list"

record compiled =
  cp_name :: str
  cp_cidr :: cidr_block
  cp_domains :: "str list"
  cp_blocked :: u64

record policy_state =
  has_policies_flag :: bool
  live :: "compiled list option"

definition str_lower :: "str \<Rightarrow> str" where
  "str_lower s = map (\<lambda>c. if 65 \<le> c \<and> c \<le> 90 then c + 32 else c) s"

function parent_in :: "str list \<Rightarrow> str \<Rightarrow> bool" where
  "parent_in domains rest =
     (case split_once 46 rest of
        None \<Rightarrow> False
      | Some (_, rest) \<Rightarrow> if rest \<noteq> [] \<and> rest \<in> set domains then True else parent_in domains rest)"
  by pat_completeness auto
termination
proof (relation "measure (\<lambda>(d, s). length s)")
  fix domains rest x a b
  assume "split_once 46 rest = Some x" "(a, b) = x"
  then have "dropWhile (\<lambda>x. x \<noteq> 46) rest = 46 # b" by (auto simp: split_once_def split: list.splits dest: dropWhile_eq_Cons_conv [THEN iffD1])
  then show "((domains, b), (domains, rest)) \<in> measure (\<lambda>(d, s). length s)"
    using length_dropWhile_le [of "\<lambda>x. x \<noteq> 46" rest] by simp
qed simp

definition name_or_parent_in :: "str list \<Rightarrow> str \<Rightarrow> bool" where
  "name_or_parent_in domains nm = (if nm \<in> set domains then True else parent_in domains nm)"

fun compiled_blocks :: "compiled list \<Rightarrow> ip_addr \<Rightarrow> str \<Rightarrow> bool \<times> compiled list" where
  "compiled_blocks [] ip nm = (False, [])"
| "compiled_blocks (p # ps) ip nm =
     (if cidr_contains (cp_cidr p) ip \<and> name_or_parent_in (cp_domains p) nm
      then (True, p\<lparr>cp_blocked := cp_blocked p + 1\<rparr> # ps)
      else map_prod id ((#) p) (compiled_blocks ps ip nm))"

definition policies_blocks :: "compiled list \<Rightarrow> ip_addr \<Rightarrow> str \<Rightarrow> bool \<times> compiled list" where
  "policies_blocks ps ip qname_lc = compiled_blocks ps ip (trim_end_matches (\<lambda>c. c = 46) qname_lc)"

definition compile_domain :: "str \<Rightarrow> str" where
  "compile_domain d = str_lower (trim_end_matches (\<lambda>c. c = 46) (trim d))"

definition compile_policy :: "compiled list option \<Rightarrow> subnet_policy \<Rightarrow> compiled option" where
  "compile_policy prev p =
     (case cidr_parse (sp_subnet p) of
        None \<Rightarrow> None
      | Some cidr \<Rightarrow>
          let domains = filter (\<lambda>d. d \<noteq> []) (map compile_domain (sp_blacklist_extra p));
              prior = (case Option.bind prev (find (\<lambda>c. cp_name c = sp_name p)) of Some c \<Rightarrow> cp_blocked c | None \<Rightarrow> 0)
          in Some \<lparr>cp_name = sp_name p, cp_cidr = cidr, cp_domains = domains, cp_blocked = prior\<rparr>)"

definition compile_with :: "subnet_policy list \<Rightarrow> compiled list option \<Rightarrow> compiled list" where
  "compile_with policies prev = List.map_filter (compile_policy prev) policies"

definition policy_start :: policy_state where
  "policy_start = \<lparr>has_policies_flag = False, live = None\<rparr>"

definition policy_init :: "subnet_policy list \<Rightarrow> policy_state \<Rightarrow> policy_state" where
  "policy_init loaded st =
     (let compiled = compile_with loaded None in
      \<lparr>has_policies_flag = (compiled \<noteq> []), live = (case live st of None \<Rightarrow> Some compiled | Some c \<Rightarrow> Some c)\<rparr>)"

definition policy_apply :: "subnet_policy list \<Rightarrow> policy_state \<Rightarrow> policy_state" where
  "policy_apply policies st =
     (let compiled = compile_with policies (live st) in
      \<lparr>has_policies_flag = (compiled \<noteq> []), live = Some compiled\<rparr>)"

definition policy_blocks :: "ip_addr \<Rightarrow> str \<Rightarrow> policy_state \<Rightarrow> bool \<times> policy_state" where
  "policy_blocks ip qname_lc st =
     (if \<not> has_policies_flag st then (False, st)
      else case live st of
        None \<Rightarrow> (False, st)
      | Some ps \<Rightarrow> (case policies_blocks ps ip qname_lc of (r, ps) \<Rightarrow> (r, st\<lparr>live := Some ps\<rparr>)))"

definition has_policies :: "policy_state \<Rightarrow> bool" where
  "has_policies st = has_policies_flag st"

definition blocked_counts :: "policy_state \<Rightarrow> (str \<times> u64) list" where
  "blocked_counts st = (case live st of None \<Rightarrow> [] | Some ps \<Rightarrow> map (\<lambda>c. (cp_name c, cp_blocked c)) ps)"

declare parent_in.simps [simp del]

section \<open>Names and their parents\<close>

text \<open>\<open>at_or_below nm d\<close>: the domain \<open>d\<close> is the name itself or follows one of its dots.\<close>

definition at_or_below :: "str \<Rightarrow> str \<Rightarrow> bool" where
  "at_or_below nm d \<longleftrightarrow> nm = d \<or> (\<exists>pre. nm = pre @ 46 # d)"

lemma split_once_Some: "split_once c s = Some (a, b) \<longleftrightarrow> s = a @ c # b \<and> c \<notin> set a"
proof
  assume "split_once c s = Some (a, b)"
  then have d: "dropWhile (\<lambda>x. x \<noteq> c) s = c # b" "a = takeWhile (\<lambda>x. x \<noteq> c) s"
    by (auto simp: split_once_def split: list.splits dest: dropWhile_eq_Cons_conv [THEN iffD1])
  then show "s = a @ c # b \<and> c \<notin> set a" using takeWhile_dropWhile_id [of "\<lambda>x. x \<noteq> c" s] by (auto dest: set_takeWhileD)
next
  assume a: "s = a @ c # b \<and> c \<notin> set a"
  then have "\<forall>x \<in> set a. x \<noteq> c" by auto
  with a show "split_once c s = Some (a, b)" by (simp add: split_once_def takeWhile_append2)
qed

lemma split_once_None: "split_once c s = None \<longleftrightarrow> c \<notin> set s"
proof -
  have "dropWhile (\<lambda>x. x \<noteq> c) s = [] \<longleftrightarrow> c \<notin> set s" by auto
  then show ?thesis unfolding split_once_def by (cases "dropWhile (\<lambda>x. x \<noteq> c) s") (simp_all del: dropWhile_eq_Nil_conv)
qed

lemma parent_in_iff: "parent_in domains s \<longleftrightarrow> (\<exists>pre d. s = pre @ 46 # d \<and> d \<noteq> [] \<and> d \<in> set domains)"
proof (induction domains s rule: parent_in.induct)
  case (1 domains s)
  show ?case
  proof (cases "split_once 46 s")
    case None
    then have "46 \<notin> set s" by (simp add: split_once_None)
    with None show ?thesis by (auto simp: parent_in.simps [of _ s])
  next
    case (Some x)
    obtain a b where x: "x = (a, b)" by (cases x)
    then have s: "s = a @ 46 # b" "46 \<notin> set a" using Some by (simp_all add: split_once_Some)
    have "(\<exists>pre d. s = pre @ 46 # d \<and> d \<noteq> [] \<and> d \<in> set domains) \<longleftrightarrow>
        b \<noteq> [] \<and> b \<in> set domains \<or> (\<exists>pre d. b = pre @ 46 # d \<and> d \<noteq> [] \<and> d \<in> set domains)"
      using s by (auto simp: append_eq_append_conv2 Cons_eq_append_conv append_eq_Cons_conv)
    then show ?thesis using 1 [OF Some x [symmetric]] Some by (auto simp: parent_in.simps [of _ s] x)
  qed
qed

lemma name_or_parent_in_iff:
  assumes "[] \<notin> set domains"
  shows "name_or_parent_in domains nm \<longleftrightarrow> (\<exists>d \<in> set domains. at_or_below nm d)"
  using assms unfolding name_or_parent_in_def parent_in_iff at_or_below_def by auto

section \<open>What a policy blocks\<close>

lemma compiled_blocks_iff:
  "fst (compiled_blocks ps ip nm) \<longleftrightarrow> (\<exists>p \<in> set ps. cidr_contains (cp_cidr p) ip \<and> name_or_parent_in (cp_domains p) nm)"
  by (induction ps) auto

text \<open>The counters: a query that is blocked adds one to the first policy that blocks it.\<close>

lemma compiled_blocks_counts:
  "map (\<lambda>p. p\<lparr>cp_blocked := 0\<rparr>) (snd (compiled_blocks ps ip nm)) = map (\<lambda>p. p\<lparr>cp_blocked := 0\<rparr>) ps \<and>
   sum_list (map cp_blocked (snd (compiled_blocks ps ip nm))) = sum_list (map cp_blocked ps) + (if fst (compiled_blocks ps ip nm) then 1 else 0)"
  by (induction ps) (auto simp: ac_simps)

lemma compiled_blocks_uncounted:
  "map (\<lambda>p. p\<lparr>cp_blocked := 0\<rparr>) ps = map (\<lambda>p. p\<lparr>cp_blocked := 0\<rparr>) qs \<Longrightarrow>
     fst (compiled_blocks ps ip nm) = fst (compiled_blocks qs ip nm)"
proof (induction ps arbitrary: qs)
  case (Cons p ps)
  then obtain q qs' where q: "qs = q # qs'" "p\<lparr>cp_blocked := 0\<rparr> = q\<lparr>cp_blocked := 0\<rparr>"
    "map (\<lambda>p. p\<lparr>cp_blocked := 0\<rparr>) ps = map (\<lambda>p. p\<lparr>cp_blocked := 0\<rparr>) qs'" by (cases qs) auto
  then have "cp_cidr p = cp_cidr q" "cp_domains p = cp_domains q" by (metis compiled.select_convs compiled.surjective compiled.update_convs(4))+
  with Cons.IH [OF q(3)] q(1) show ?case by simp
qed simp

lemma compile_policy_blocks:
  "(\<exists>c. compile_policy prev p = Some c \<and> cidr_contains (cp_cidr c) ip \<and> name_or_parent_in (cp_domains c) nm) \<longleftrightarrow>
   (\<exists>cidr d. cidr_parse (sp_subnet p) = Some cidr \<and> cidr_contains cidr ip \<and>
      d \<in> set (sp_blacklist_extra p) \<and> compile_domain d \<noteq> [] \<and> at_or_below nm (compile_domain d))"
  by (auto simp: compile_policy_def Let_def name_or_parent_in_iff split: option.split)

text \<open>The flag that lets the packet paths skip the test is set exactly when there is a policy to ask.\<close>

definition policy_ok :: "policy_state \<Rightarrow> bool" where
  "policy_ok st \<longleftrightarrow> (has_policies st \<longleftrightarrow> (\<exists>ps. live st = Some ps \<and> ps \<noteq> []))"

lemma policy_blocks_fst:
  "policy_ok st \<Longrightarrow> fst (policy_blocks ip q st) \<longleftrightarrow>
     (\<exists>ps. live st = Some ps \<and> fst (compiled_blocks ps ip (trim_end_matches (\<lambda>c. c = 46) q)))"
  by (auto simp: policy_ok_def has_policies_def policy_blocks_def policies_blocks_def split: option.split prod.split)

lemma policy_blocks_snd:
  "policy_ok st \<Longrightarrow> policy_ok (snd (policy_blocks ip q st)) \<and>
     (fst (policy_blocks ip' q' (snd (policy_blocks ip q st))) \<longleftrightarrow> fst (policy_blocks ip' q' st))"
proof -
  assume ok: "policy_ok st"
  let ?nm = "trim_end_matches (\<lambda>c. c = 46) q"
  show ?thesis
  proof (cases "has_policies_flag st \<and> live st \<noteq> None")
    case False
    then have "snd (policy_blocks ip q st) = st" by (auto simp: policy_blocks_def)
    with ok show ?thesis by simp
  next
    case True
    then obtain ps where ps: "live st = Some ps" by auto
    have same: "map (\<lambda>p. p\<lparr>cp_blocked := 0\<rparr>) (snd (compiled_blocks ps ip ?nm)) = map (\<lambda>p. p\<lparr>cp_blocked := 0\<rparr>) ps"
      using compiled_blocks_counts by blast
    have st: "snd (policy_blocks ip q st) = st\<lparr>live := Some (snd (compiled_blocks ps ip ?nm))\<rparr>"
      using True ps by (simp add: policy_blocks_def policies_blocks_def split: prod.split)
    have "snd (compiled_blocks ps ip ?nm) = [] \<longleftrightarrow> ps = []" using same by (metis map_is_Nil_conv)
    with ok have ok': "policy_ok (snd (policy_blocks ip q st))" by (simp add: policy_ok_def has_policies_def st ps)
    show ?thesis
      using ok' policy_blocks_fst [OF ok'] policy_blocks_fst [OF ok] compiled_blocks_uncounted [OF same] by (simp add: st ps)
  qed
qed

text \<open>
  C22. A query is blocked by the live policies exactly when a policy whose network holds the client lists
  the name or a domain above it, compared without case, surrounding space or trailing dots; policies with a
  network that does not parse count for nothing. The answer does not depend on the queries before, every
  blocked query adds one to the counters, and the flag the packet paths test first is right in every state.
\<close>

theorem policies_decide:
  "policy_ok (policy_init policies policy_start) \<and> policy_ok (policy_apply policies st) \<and>
   (policy_ok st \<longrightarrow> policy_ok (snd (policy_blocks ip q st)) \<and>
      (fst (policy_blocks ip' q' (snd (policy_blocks ip q st))) \<longleftrightarrow> fst (policy_blocks ip' q' st))) \<and>
   (fst (policy_blocks ip q (policy_apply policies st)) \<longleftrightarrow>
      (\<exists>p \<in> set policies. \<exists>cidr d. cidr_parse (sp_subnet p) = Some cidr \<and> cidr_contains cidr ip \<and>
         d \<in> set (sp_blacklist_extra p) \<and> compile_domain d \<noteq> [] \<and>
         at_or_below (trim_end_matches (\<lambda>c. c = 46) q) (compile_domain d))) \<and>
   sum_list (map snd (blocked_counts (snd (policy_blocks ip q (policy_apply policies st))))) =
     sum_list (map snd (blocked_counts (policy_apply policies st))) +
       (if fst (policy_blocks ip q (policy_apply policies st)) then 1 else 0)"
proof -
  let ?st = "policy_apply policies st" and ?nm = "trim_end_matches (\<lambda>c. c = 46) q"
  let ?ps = "compile_with policies (live st)"
  have live: "live ?st = Some ?ps" "has_policies_flag ?st \<longleftrightarrow> ?ps \<noteq> []" by (simp_all add: policy_apply_def Let_def)
  have ok: "policy_ok (policy_init policies policy_start)" "policy_ok ?st"
    by (auto simp: policy_ok_def has_policies_def policy_init_def policy_start_def policy_apply_def Let_def)
  have "fst (policy_blocks ip q ?st) \<longleftrightarrow> fst (compiled_blocks ?ps ip ?nm)"
    using policy_blocks_fst [OF ok(2)] live by simp
  then have iff: "fst (policy_blocks ip q ?st) \<longleftrightarrow> (\<exists>p \<in> set policies. \<exists>c. compile_policy (live st) p = Some c \<and>
      cidr_contains (cp_cidr c) ip \<and> name_or_parent_in (cp_domains c) ?nm)"
    unfolding compiled_blocks_iff compile_with_def map_filter_def by force
  have "sum_list (map snd (blocked_counts (snd (policy_blocks ip q ?st)))) =
      sum_list (map snd (blocked_counts ?st)) + (if fst (policy_blocks ip q ?st) then 1 else 0)"
    using compiled_blocks_counts [of ?ps ip ?nm] live
    by (auto simp: policy_blocks_def policies_blocks_def blocked_counts_def comp_def split: prod.splits)
  with ok policy_blocks_snd iff show ?thesis unfolding compile_policy_blocks by blast
qed

theorem policies_decide_witness:
  "fst (policy_blocks (V4 0x0A000001) (ascii ''ads.x.'') (policy_apply
     [\<lparr>sp_name = ascii ''p'', sp_subnet = ascii ''10.0.0.0/8'', sp_blacklist_extra = [ascii ''X.'']\<rparr>] policy_start))"
proof -
  let ?p = "\<lparr>sp_name = ascii ''p'', sp_subnet = ascii ''10.0.0.0/8'', sp_blacklist_extra = [ascii ''X.'']\<rparr>"
  have c: "cidr_parse (ascii ''10.0.0.0/8'') = Some \<lparr>cidr_prefix = V4 0x0A000000, cidr_prefix_len = 8\<rparr>"
    by (simp add: cidr_parse_def cidr_max_def net_eval)
  have "cidr_contains \<lparr>cidr_prefix = V4 0x0A000000, cidr_prefix_len = 8\<rparr> (V4 0x0A000001)" by code_simp
  moreover have "compile_domain (ascii ''X.'') = ascii ''x''" by code_simp
  moreover have "trim_end_matches (\<lambda>c. c = 46) (ascii ''ads.x.'') = ascii ''ads'' @ 46 # ascii ''x''" by code_simp
  moreover have "ascii ''x'' \<noteq> []" by (simp add: ascii_def)
  ultimately show ?thesis
    using policies_decide [of "[?p]" policy_start "V4 0x0A000001" "ascii ''ads.x.''" "V4 0" "[]"] c by (auto simp: at_or_below_def)
qed

end
