(* ===== verification/Cache_Snapshot.thy ===== *)
theory Cache_Snapshot
  imports Local_Zones
begin

unbundle bit_operations_syntax

text \<open>
  The response cache of the packet paths, \<open>dns/cache_snapshot.rs\<close>, and its seeding from the local zones,
  \<open>local_zone_entries\<close> and \<open>preload_into_cache\<close> of \<open>dns/local.rs\<close>: the table the server writes, the copy that is
  published to the packet workers, eviction, and what is kept across a restart. A table is an association
  list with distinct keys; the order of iteration and the outcome of \<open>select_nth_unstable\<close> are arguments. An
  \<open>Instant\<close> is a number of nanoseconds, read once per operation. The bytes of the file are those of the \<open>rkyv\<close>
  package: here the file is the list of entries handed to it.
\<close>

section \<open>The code\<close>

abbreviation (input) SECOND :: nat where "SECOND \<equiv> 1000000000"
abbreviation (input) YEAR_SECS :: nat where "YEAR_SECS \<equiv> 365 * 24 * 3600"

record cache_entry =
  ce_payload :: "byte list"
  ce_expires :: nat
  ce_qname :: "byte list"

type_synonym cache_map = "(u64 \<times> cache_entry) list"

record cache_state =
  cs_map :: cache_map
  cs_gen :: u64

definition sentinel_expires :: "nat \<Rightarrow> nat" where
  "sentinel_expires now = now + 100 * YEAR_SECS * SECOND"

definition is_sentinel :: "nat \<Rightarrow> cache_entry \<Rightarrow> bool" where
  "is_sentinel now e \<longleftrightarrow> ce_expires e > now + 50 * YEAR_SECS * SECOND"

definition cache_insert ::
    "(cache_map \<Rightarrow> cache_map) \<Rightarrow> nat \<Rightarrow> u64 \<Rightarrow> cache_entry \<Rightarrow> nat \<Rightarrow> cache_state \<Rightarrow> cache_state" where
  "cache_insert iter now key entry max_entries st =
     (if length (cs_map st) \<ge> max_entries \<and> map_of (cs_map st) key = None then
        (case find (\<lambda>(k, e). ce_expires e \<le> now \<and> \<not> is_sentinel now e) (iter (cs_map st)) of
           Some (k, _) \<Rightarrow> \<lparr>cs_map = AList.update key entry (AList.delete k (cs_map st)), cs_gen = cs_gen st + 1\<rparr>
         | None \<Rightarrow> st)
      else \<lparr>cs_map = AList.update key entry (cs_map st), cs_gen = cs_gen st + 1\<rparr>)"

definition cache_insert_local :: "u64 \<Rightarrow> cache_entry \<Rightarrow> cache_state \<Rightarrow> cache_state" where
  "cache_insert_local key entry st = \<lparr>cs_map = AList.update key entry (cs_map st), cs_gen = cs_gen st + 1\<rparr>"

definition evict_oldest ::
    "(cache_map \<Rightarrow> cache_map) \<Rightarrow> (nat \<Rightarrow> (u64 \<times> nat) list \<Rightarrow> (u64 \<times> nat) list) \<Rightarrow> nat \<Rightarrow> nat \<Rightarrow> cache_state \<Rightarrow> nat \<times> cache_state" where
  "evict_oldest iter select now target_len st =
     (let current = length (cs_map st) in
      if current \<le> target_len then (0, st)
      else let want_removed = current - target_len;
               candidates = map (\<lambda>(k, e). (k, ce_expires e)) (filter (\<lambda>(k, e). \<not> is_sentinel now e) (iter (cs_map st)))
           in if candidates = [] then (0, st)
              else let n = min want_removed (length candidates);
                       candidates = (if n < length candidates then select (n - 1) candidates else candidates);
                       (evicted, m) = fold (\<lambda>(k, _) (evicted, m).
                          if map_of m k \<noteq> None then (evicted + 1, AList.delete k m) else (evicted, m))
                          (take n candidates) (0, cs_map st)
                   in (evicted, \<lparr>cs_map = m, cs_gen = (if evicted > 0 then cs_gen st + 1 else cs_gen st)\<rparr>))"

record persist_entry =
  pe_key :: "byte list"
  pe_payload :: "byte list"
  pe_expires_secs :: nat

definition save_entries :: "(cache_map \<Rightarrow> cache_map) \<Rightarrow> nat \<Rightarrow> nat \<Rightarrow> cache_state \<Rightarrow> persist_entry list" where
  "save_entries iter now_unix now st =
     map (\<lambda>(k, e). \<lparr>pe_key = rev (be_bytes 8 k), pe_payload = ce_payload e,
            pe_expires_secs = now_unix + (ce_expires e - now) div SECOND\<rparr>)
       (filter (\<lambda>(k, e). ce_expires e > now) (iter (cs_map st)))"

definition load_entry ::
    "(cache_map \<Rightarrow> cache_map) \<Rightarrow> (nat \<Rightarrow> nat \<Rightarrow> nat option) \<Rightarrow> nat \<Rightarrow> nat \<Rightarrow> nat \<Rightarrow> persist_entry \<Rightarrow> nat \<times> cache_state \<Rightarrow> nat \<times> cache_state" where
  "load_entry iter checked_add now_unix now max_entries pe = (\<lambda>(loaded, st).
     if pe_expires_secs pe \<le> now_unix then (loaded, st)
     else if length (pe_key pe) < 8 then (loaded, st)
     else case checked_add now ((pe_expires_secs pe - now_unix) * SECOND) of
       None \<Rightarrow> (loaded, st)
     | Some expires_at \<Rightarrow>
         (loaded + 1, cache_insert iter now (be_word (rev (take 8 (pe_key pe))))
            \<lparr>ce_payload = pe_payload pe, ce_expires = expires_at, ce_qname = []\<rparr> max_entries st))"

definition load_entries ::
    "(cache_map \<Rightarrow> cache_map) \<Rightarrow> (nat \<Rightarrow> nat \<Rightarrow> nat option) \<Rightarrow> nat \<Rightarrow> nat \<Rightarrow> nat \<Rightarrow> persist_entry list \<Rightarrow> cache_state \<Rightarrow> nat \<times> cache_state" where
  "load_entries iter checked_add now_unix now max_entries pes st =
     fold (load_entry iter checked_add now_unix now max_entries) pes (0, st)"

text \<open>One tick of \<open>publish_loop\<close>: the task's own variables and the published table.\<close>

record publisher =
  pb_last_gen :: u64
  pb_evict_tick :: byte
  pb_snapshot :: cache_map

definition publish_tick :: "nat \<Rightarrow> cache_state \<Rightarrow> publisher \<Rightarrow> cache_state \<times> publisher" where
  "publish_tick now st pb =
     (let cur_gen = cs_gen st;
          evict_tick = pb_evict_tick pb + 1;
          force_evict = (evict_tick = 0)
      in if cur_gen = pb_last_gen pb \<and> \<not> force_evict then (st, pb\<lparr>pb_evict_tick := evict_tick\<rparr>)
         else let st = (if force_evict
                        then st\<lparr>cs_map := filter (\<lambda>(k, e). ce_expires e > now \<or> is_sentinel now e) (cs_map st)\<rparr> else st)
              in (st, \<lparr>pb_last_gen = cur_gen, pb_evict_tick = evict_tick,
                       pb_snapshot = filter (\<lambda>(k, e). ce_expires e > now) (cs_map st)\<rparr>))"

text \<open>The prepared responses of the address records.\<close>

definition local_zone_entry :: "nat \<Rightarrow> u64 \<times> wire_record_entry \<Rightarrow> u16 \<Rightarrow> (u64 \<times> cache_entry) list option" where
  "local_zone_entry sentinel = (\<lambda>(key_raw, entry) qt.
     let recs = (if qt = 1 then we_a entry else we_aaaa entry) in
     if recs = [] then Some []
     else do {
       b \<leftarrow> build_answer_a_aaaa_wire
         \<lparr>wq_id = 0, wq_qname_wire = we_qname entry, wq_qtype = qt, wq_qclass = 1, wq_rd = True, wq_edns = None\<rparr>
         (replicate 512 0) recs None;
       (case b of
          None \<Rightarrow> Some []
        | Some (len, buf) \<Rightarrow> do {
            payload \<leftarrow> subslice buf 0 len;
            Some [(key_raw XOR push_bit 48 (ucast qt),
                   \<lparr>ce_payload = payload, ce_expires = sentinel, ce_qname = we_qname entry\<rparr>)]
          })
     })"

fun collect_entries :: "nat \<Rightarrow> (u64 \<times> wire_record_entry) list \<Rightarrow> (u64 \<times> cache_entry) list option" where
  "collect_entries sentinel [] = Some []"
| "collect_entries sentinel (x # xs) = do {
     a \<leftarrow> local_zone_entry sentinel x 1;
     aaaa \<leftarrow> local_zone_entry sentinel x 28;
     rest \<leftarrow> collect_entries sentinel xs;
     Some (a @ aaaa @ rest)
   }"

definition local_zone_entries ::
    "((u64 \<times> wire_record_entry) list \<Rightarrow> (u64 \<times> wire_record_entry) list) \<Rightarrow> nat \<Rightarrow> local_zone_set \<Rightarrow> (u64 \<times> cache_entry) list option" where
  "local_zone_entries iter now zs = collect_entries (sentinel_expires now) (iter (wire_records zs))"

definition preload_into_cache ::
    "((u64 \<times> wire_record_entry) list \<Rightarrow> (u64 \<times> wire_record_entry) list) \<Rightarrow> nat \<Rightarrow> bool \<Rightarrow> local_zone_set \<Rightarrow> cache_state \<Rightarrow> cache_state option" where
  "preload_into_cache iter now local_zone_dnssec zs st =
     (if local_zone_dnssec then Some st
      else do {
        entries \<leftarrow> local_zone_entries iter now zs;
        Some (fold (\<lambda>(key, entry). cache_insert_local key entry) entries st)
      })"

definition build_view_snapshot ::
    "((u64 \<times> wire_record_entry) list \<Rightarrow> (u64 \<times> wire_record_entry) list) \<Rightarrow> nat \<Rightarrow> local_zone_set \<Rightarrow> cache_map option" where
  "build_view_snapshot iter now zs = do {
     entries \<leftarrow> local_zone_entries iter now zs;
     Some (fold (\<lambda>(key, entry) snap. AList.update key entry snap) entries [])
   }"

section \<open>Insertion\<close>

definition cache_ok :: "nat \<Rightarrow> cache_state \<Rightarrow> bool" where
  "cache_ok max_entries st \<longleftrightarrow> distinct (map fst (cs_map st)) \<and> length (cs_map st) \<le> max_entries"

lemma length_update: "length (AList.update k v m) = (if k \<in> fst ` set m then length m else Suc (length m))"
proof -
  have "length (AList.update k v m) = length (map fst (AList.update k v m))" by simp
  then show ?thesis by (auto simp: update_keys)
qed

lemma length_filter_keys:
  assumes "distinct (map fst m)" "gone \<subseteq> fst ` set m"
  shows "length (filter (\<lambda>(k, e). k \<notin> gone) m) + card gone = length m"
proof -
  have "set (map fst (filter (\<lambda>(k, e). k \<in> gone) m)) = gone" using assms(2) by force
  moreover have "distinct (map fst (filter (\<lambda>(k, e). k \<in> gone) m))" using assms(1) by (rule distinct_map_filter)
  ultimately have "length (filter (\<lambda>(k, e). k \<in> gone) m) = card gone" by (metis distinct_card length_map)
  moreover have "filter (\<lambda>x. \<not> (case x of (k, e) \<Rightarrow> k \<in> gone)) m = filter (\<lambda>(k, e). k \<notin> gone) m" by (rule filter_cong) auto
  ultimately show ?thesis using sum_length_filter_compl [of "\<lambda>(k, e). k \<in> gone" m] by simp
qed

lemma length_delete_present:
  assumes "distinct (map fst m)" "k \<in> fst ` set m"
  shows "Suc (length (AList.delete k m)) = length m"
proof -
  have "AList.delete k m = filter (\<lambda>(k', e). k' \<notin> {k}) m" by (auto simp: AList.delete_eq intro!: filter_cong)
  then show ?thesis using length_filter_keys [OF assms(1), of "{k}"] assms(2) by simp
qed

lemma find_some: "find P xs = Some x \<Longrightarrow> x \<in> set xs \<and> P x"
  by (auto simp: find_Some_iff)

lemma cache_insert_cases:
  assumes "iterates iter"
  obtains (put) "cache_insert iter now key entry max_entries st = \<lparr>cs_map = AList.update key entry (cs_map st), cs_gen = cs_gen st + 1\<rparr>"
      "length (cs_map st) < max_entries \<or> key \<in> fst ` set (cs_map st)"
    | (swap) v f where "cache_insert iter now key entry max_entries st =
        \<lparr>cs_map = AList.update key entry (AList.delete v (cs_map st)), cs_gen = cs_gen st + 1\<rparr>"
      "(v, f) \<in> set (cs_map st)" "ce_expires f \<le> now"
    | (skip) "cache_insert iter now key entry max_entries st = st" "max_entries \<le> length (cs_map st)"
      "key \<notin> fst ` set (cs_map st)" "\<forall>(k, e) \<in> set (cs_map st). now < ce_expires e"
proof (cases "length (cs_map st) \<ge> max_entries \<and> map_of (cs_map st) key = None")
  case False
  then have "cache_insert iter now key entry max_entries st = \<lparr>cs_map = AList.update key entry (cs_map st), cs_gen = cs_gen st + 1\<rparr>"
    unfolding cache_insert_def by (rule if_not_P)
  then show thesis using False by (intro put) (auto simp: map_of_eq_None_iff)
next
  case True
  let ?P = "\<lambda>(k, e). ce_expires e \<le> now \<and> \<not> is_sentinel now e"
  have ins: "cache_insert iter now key entry max_entries st = (case find ?P (iter (cs_map st)) of
      Some (k, _) \<Rightarrow> \<lparr>cs_map = AList.update key entry (AList.delete k (cs_map st)), cs_gen = cs_gen st + 1\<rparr> | None \<Rightarrow> st)"
    unfolding cache_insert_def using True by (rule if_P)
  note set = iterates_set [OF assms, of "cs_map st"]
  show thesis
  proof (cases "find ?P (iter (cs_map st))")
    case None
    then have "\<not> (\<exists>x. x \<in> set (iter (cs_map st)) \<and> ?P x)" unfolding find_None_iff .
    then have "\<forall>(k, e) \<in> set (cs_map st). now < ce_expires e" unfolding set by (auto simp: is_sentinel_def not_le [symmetric])
    then show thesis using True by (intro skip) (simp_all only: ins None option.case, auto simp: map_of_eq_None_iff)
  next
    case (Some x)
    obtain v f where x: "x = (v, f)" by (cases x)
    have "(v, f) \<in> set (cs_map st) \<and> ce_expires f \<le> now" using find_some [OF Some] unfolding set x by simp
    then show thesis by (intro swap [of v f]) (simp_all only: ins Some x option.case prod.case)
  qed
qed

lemma cache_insert_spec:
  assumes "iterates iter" "cache_ok max_entries st"
  shows "cache_ok max_entries (cache_insert iter now key entry max_entries st) \<and>
    (k \<noteq> key \<and> map_of (cs_map st) k = Some e \<and> now < ce_expires e \<longrightarrow>
       map_of (cs_map (cache_insert iter now key entry max_entries st)) k = Some e) \<and>
    (map_of (cs_map (cache_insert iter now key entry max_entries st)) key = Some entry \<or>
       cache_insert iter now key entry max_entries st = st \<and> length (cs_map st) = max_entries \<and>
       (\<forall>(k, e) \<in> set (cs_map st). now < ce_expires e))"
proof -
  have d: "distinct (map fst (cs_map st))" "length (cs_map st) \<le> max_entries" using assms(2) by (simp_all add: cache_ok_def)
  show ?thesis
    using assms(1)
  proof (cases rule: cache_insert_cases [where now = now and key = key and entry = entry and max_entries = max_entries and st = st])
    case put
    then show ?thesis using d unfolding put(1) by (auto simp: cache_ok_def distinct_update update_conv' length_update)
  next
    case (swap v f)
    then have v: "v \<in> fst ` set (cs_map st)" "map_of (cs_map st) v = Some f" using d(1) by force+
    have "length (AList.update key entry (AList.delete v (cs_map st))) \<le> max_entries"
      using length_delete_present [OF d(1) v(1)] d(2) by (simp add: length_update split: if_splits)
    moreover have "k \<noteq> v" if "map_of (cs_map st) k = Some e" "now < ce_expires e"
      using that v(2) swap(3) by (cases "k = v") simp_all
    ultimately show ?thesis using d unfolding swap(1)
      by (auto simp: cache_ok_def distinct_update distinct_delete update_conv' delete_conv')
  next
    case skip
    then show ?thesis using d unfolding skip(1) by (auto simp: cache_ok_def)
  qed
qed

section \<open>Eviction under memory pressure\<close>

text \<open>The documented behaviour of \<open>select_nth_unstable_by_key\<close> on the second components.\<close>

definition selects :: "(nat \<Rightarrow> (u64 \<times> nat) list \<Rightarrow> (u64 \<times> nat) list) \<Rightarrow> bool" where
  "selects select \<longleftrightarrow> (\<forall>i xs. i < length xs \<longrightarrow> mset (select i xs) = mset xs \<and>
     (\<forall>a \<in> set (take (Suc i) (select i xs)). \<forall>b \<in> set (drop (Suc i) (select i xs)). snd a \<le> snd b))"

lemma fold_evict:
  "distinct (map fst cs) \<Longrightarrow> fst ` set cs \<subseteq> fst ` set m \<Longrightarrow>
     fold (\<lambda>(k, _) (evicted, m). if map_of m k \<noteq> None then (evicted + 1, AList.delete k m) else (evicted, m)) cs (i, m) =
     (i + length cs, filter (\<lambda>(k, e). k \<notin> fst ` set cs) m)"
proof (induction cs arbitrary: i m)
  case (Cons c cs)
  obtain k t where c: "c = (k, t)" by (cases c)
  have k: "map_of m k \<noteq> None" using Cons.prems(2) by (auto simp: c map_of_eq_None_iff)
  have "fst ` set cs \<subseteq> fst ` set (AList.delete k m)"
    using Cons.prems by (force simp: c AList.delete_eq)
  with Cons.IH [of "AList.delete k m" "i + 1"] Cons.prems(1) k show ?case
    by (auto simp: c AList.delete_eq intro!: filter_cong)
qed simp

text \<open>Removing the first entries of a selected list of the entries that may go.\<close>

lemma evict_selected:
  assumes m: "distinct (map fst m)"
    and cs: "mset cs = mset (map (\<lambda>(k, e). (k, ce_expires e)) (filter free m))"
    and order: "\<forall>a \<in> set (take n cs). \<forall>b \<in> set (drop n cs). snd a \<le> snd b"
    and n: "n \<le> length cs"
    and ev: "fold (\<lambda>(k, _) (evicted, m). if map_of m k \<noteq> None then (evicted + 1, AList.delete k m) else (evicted, m)) (take n cs) (0, m) = (evicted, m')"
  shows "evicted = n" "length m' + n = length m" "set m' \<subseteq> set m"
    "x \<in> set m \<Longrightarrow> x \<notin> set m' \<Longrightarrow> free x"
    "x \<in> set m \<Longrightarrow> x \<notin> set m' \<Longrightarrow> y \<in> set m' \<Longrightarrow> free y \<Longrightarrow> ce_expires (snd x) \<le> ce_expires (snd y)"
proof -
  let ?gone = "fst ` set (take n cs)"
  have set_cs: "set cs = (\<lambda>(k, e). (k, ce_expires e)) ` set (filter free m)" using cs by (metis list.set_map set_mset_mset)
  have "mset (map fst cs) = mset (map fst (filter free m))" using cs by (simp add: mset_map split_def image_mset.compositionality comp_def)
  then have "distinct (map fst cs)" using distinct_map_filter [OF m] by (metis mset_eq_imp_distinct_iff)
  then have dist: "distinct (map fst (take n cs))" by (metis distinct_take take_map)
  have sub: "?gone \<subseteq> fst ` set m" using set_take_subset [of n cs] by (force simp: set_cs)
  have e: "evicted = n" "m' = filter (\<lambda>(k, e). k \<notin> ?gone) m" using fold_evict [OF dist sub, of 0] ev n by auto
  moreover have "card ?gone = n" using distinct_card [OF dist] n by simp
  ultimately show "evicted = n" "length m' + n = length m" "set m' \<subseteq> set m" using length_filter_keys [OF m sub] by auto
  have gone: "free x \<and> (fst x, ce_expires (snd x)) \<in> set (take n cs)" if x: "x \<in> set m" "x \<notin> set m'" for x
  proof -
    obtain k f where kf: "x = (k, f)" by (cases x)
    with x e(2) obtain t where t: "(k, t) \<in> set (take n cs)" by auto
    then have "(k, t) \<in> set cs" by (rule in_set_takeD)
    then obtain f' where f': "(k, f') \<in> set m" "free (k, f')" "t = ce_expires f'" by (auto simp: set_cs)
    with x(1) kf m have "f' = f" by (metis map_of_is_SomeI option.inject)
    with f' t kf show ?thesis by simp
  qed
  then show "x \<in> set m \<Longrightarrow> x \<notin> set m' \<Longrightarrow> free x" by blast
  assume x: "x \<in> set m" "x \<notin> set m'" and y: "y \<in> set m'" "free y"
  have "(fst y, ce_expires (snd y)) \<in> set cs" "fst y \<notin> ?gone" using y e(2) by (force simp: set_cs)+
  then have "(fst y, ce_expires (snd y)) \<in> set (drop n cs)"
    by (metis Un_iff append_take_drop_id fst_conv image_eqI set_append)
  with gone [OF x] order show "ce_expires (snd x) \<le> ce_expires (snd y)" by fastforce
qed

text \<open>
  C24. Eviction under memory pressure removes as many entries as the target asks for, or all that may go,
  never one that was preloaded from the local zones, and always those that expire soonest: an entry that is
  kept and could have been removed expires no earlier than any that was. The number returned is the number
  removed, and the packet workers are told exactly when something was.
\<close>

theorem evict_oldest_spec:
  assumes "iterates iter" "selects select" "distinct (map fst (cs_map st))"
    and "evict_oldest iter select now target_len st = (evicted, st')"
  shows "evicted = min (length (cs_map st) - target_len) (length (filter (\<lambda>(k, e). \<not> is_sentinel now e) (cs_map st))) \<and>
    length (cs_map st') + evicted = length (cs_map st) \<and> set (cs_map st') \<subseteq> set (cs_map st) \<and>
    (\<forall>(k, e) \<in> set (cs_map st) - set (cs_map st'). \<not> is_sentinel now e \<and>
       (\<forall>(k', e') \<in> set (cs_map st'). \<not> is_sentinel now e' \<longrightarrow> ce_expires e \<le> ce_expires e')) \<and>
    (cs_gen st' = cs_gen st \<longleftrightarrow> evicted = 0)"
proof -
  let ?m = "cs_map st" and ?free = "\<lambda>(k, e). \<not> is_sentinel now e"
  define cands where "cands = map (\<lambda>(k, e). (k, ce_expires e)) (filter ?free (iter ?m))"
  have ms: "mset cands = mset (map (\<lambda>(k, e). (k, ce_expires e)) (filter ?free ?m))"
    using assms(1) by (simp add: cands_def iterates_def)
  then have len: "length cands = length (filter ?free ?m)" by (metis length_map size_mset)
  show ?thesis
  proof (cases "length ?m \<le> target_len \<or> cands = []")
    case True
    then have "evicted = 0" "st' = st" using assms(4) unfolding evict_oldest_def Let_def cands_def [symmetric]
      by (simp_all split: if_splits)
    with True len show ?thesis by auto
  next
    case False
    define n where "n = min (length ?m - target_len) (length cands)"
    define cs where "cs = (if n < length cands then select (n - 1) cands else cands)"
    have n: "0 < n" "n \<le> length cands" using False by (auto simp: n_def)
    have sel: "mset cs = mset cands \<and> (\<forall>a \<in> set (take n cs). \<forall>b \<in> set (drop n cs). snd a \<le> snd b)"
      using assms(2) [unfolded selects_def, rule_format, of "n - 1" cands] n by (auto simp: cs_def)
    then have "n \<le> length cs" using n(2) by (metis size_mset)
    obtain m' where ev: "fold (\<lambda>(k, _) (evicted, m). if map_of m k \<noteq> None then (evicted + 1, AList.delete k m) else (evicted, m))
        (take n cs) (0, ?m) = (evicted, m')" and st': "st' = \<lparr>cs_map = m', cs_gen = (if evicted > 0 then cs_gen st + 1 else cs_gen st)\<rparr>"
      using assms(4) False unfolding evict_oldest_def Let_def cands_def [symmetric] n_def [symmetric] cs_def [symmetric]
      by (auto split: prod.splits)
    note e = evict_selected [OF assms(3) _ _ \<open>n \<le> length cs\<close> ev, of ?free]
    have "evicted = n" "length m' + n = length ?m" "set m' \<subseteq> set ?m" using e(1-3) sel ms by simp_all
    moreover have "\<forall>(k, e) \<in> set ?m - set m'. \<not> is_sentinel now e \<and>
        (\<forall>(k', e') \<in> set m'. \<not> is_sentinel now e' \<longrightarrow> ce_expires e \<le> ce_expires e')"
      using e(4,5) sel ms by fastforce
    ultimately show ?thesis using n(1) len by (auto simp: st' n_def)
  qed
qed

definition take_sorted :: "nat \<Rightarrow> (u64 \<times> nat) list \<Rightarrow> (u64 \<times> nat) list" where
  "take_sorted i xs = sort_key snd xs"

lemma sorted_halves:
  assumes "a \<in> set (take n (sort_key snd xs))" "b \<in> set (drop n (sort_key snd xs))"
  shows "snd a \<le> (snd b :: nat)"
proof -
  have "sorted (map snd (take n (sort_key snd xs) @ drop n (sort_key snd xs)))"
    unfolding append_take_drop_id by (rule sorted_sort_key)
  then have "\<forall>x \<in> set (map snd (take n (sort_key snd xs))). \<forall>y \<in> set (map snd (drop n (sort_key snd xs))). x \<le> y"
    unfolding map_append sorted_append by (elim conjE)
  then show ?thesis using imageI [OF assms(1), of snd] imageI [OF assms(2), of snd] unfolding set_map by (blast dest: bspec)
qed

lemma take_sorted_selects: "selects take_sorted"
  unfolding selects_def take_sorted_def
  by (intro allI impI conjI ballI) (simp only: mset_sort, erule (1) sorted_halves)

theorem evict_oldest_spec_witness:
  "evict_oldest (\<lambda>m. m) take_sorted 0 1
     \<lparr>cs_map = [(1, \<lparr>ce_payload = [], ce_expires = 30, ce_qname = []\<rparr>), (2, \<lparr>ce_payload = [], ce_expires = 20, ce_qname = []\<rparr>)], cs_gen = 0\<rparr> =
   (1, \<lparr>cs_map = [(1, \<lparr>ce_payload = [], ce_expires = 30, ce_qname = []\<rparr>)], cs_gen = 1\<rparr>) \<and> (1 :: nat) = min (2 - 1) 2"
proof -
  let ?st = "\<lparr>cs_map = [(1 :: u64, \<lparr>ce_payload = [], ce_expires = 30, ce_qname = []\<rparr>), (2, \<lparr>ce_payload = [], ce_expires = 20, ce_qname = []\<rparr>)], cs_gen = 0\<rparr>"
  let ?st' = "\<lparr>cs_map = [(1 :: u64, \<lparr>ce_payload = [], ce_expires = 30, ce_qname = []\<rparr>)], cs_gen = 1\<rparr>"
  have e: "evict_oldest (\<lambda>m. m) take_sorted 0 1 ?st = (1, ?st')"
    by (simp add: evict_oldest_def is_sentinel_def take_sorted_def)
  have d: "distinct (map fst (cs_map ?st))" by simp
  from evict_oldest_spec [OF iterates_id take_sorted_selects d e] e show ?thesis by (simp add: is_sentinel_def)
qed

section \<open>Publication\<close>

text \<open>What a tick hands to the packet workers never holds an expired entry, and after a write it holds
  every live one.\<close>

lemma publish_tick_live:
  assumes "publish_tick now st pb = (st', pb')" "cs_gen st \<noteq> pb_last_gen pb"
  shows "set (pb_snapshot pb') = {(k, e) \<in> set (cs_map st). now < ce_expires e}" "pb_last_gen pb' = cs_gen st'" "cs_gen st' = cs_gen st"
  using assms by (auto simp: publish_tick_def Let_def split: if_splits)

lemma insert_then_publish:
  assumes "iterates iter" "cache_ok max_entries st" "pb_last_gen pb = cs_gen st" "now' < ce_expires entry"
    and "length (cs_map st) < max_entries"
    and "publish_tick now' (cache_insert iter now key entry max_entries st) pb = (st', pb')"
  shows "(key, entry) \<in> set (pb_snapshot pb')"
proof -
  have ins: "cache_insert iter now key entry max_entries st = \<lparr>cs_map = AList.update key entry (cs_map st), cs_gen = cs_gen st + 1\<rparr>"
    using assms(5) by (simp add: cache_insert_def)
  have "cs_gen (cache_insert iter now key entry max_entries st) \<noteq> pb_last_gen pb" by (simp add: ins assms(3))
  note pub = publish_tick_live(1) [OF assms(6) this]
  have "map_of (AList.update key entry (cs_map st)) key = Some entry" by (simp add: update_conv')
  then have "(key, entry) \<in> set (AList.update key entry (cs_map st))" by (rule map_of_SomeD)
  with pub assms(4) show ?thesis by (simp add: ins)
qed

section \<open>Persistence\<close>

lemma key_bytes_round_trip: "be_word (rev (take 8 (rev (be_bytes 8 (k :: u64))))) = k"
  by (simp add: length_be_bytes be_word_be_bytes)

lemma map_of_filter_value:
  "distinct (map fst m) \<Longrightarrow> map_of (filter (\<lambda>(k, e). P e) m) k = Option.bind (map_of m k) (\<lambda>e. if P e then Some e else None)"
proof (induction m)
  case (Cons x m)
  obtain k' e where x: "x = (k', e)" by (cases x)
  have "map_of m k' = None" using Cons.prems by (simp add: x map_of_eq_None_iff)
  with Cons show ?case by (auto simp: x)
qed simp

definition restored :: "nat \<Rightarrow> nat \<Rightarrow> cache_entry \<Rightarrow> cache_entry option" where
  "restored now now' e =
     (if (ce_expires e - now) div SECOND = 0 then None
      else Some \<lparr>ce_payload = ce_payload e, ce_expires = now' + (ce_expires e - now) div SECOND * SECOND, ce_qname = []\<rparr>)"

lemma load_saved_list:
  assumes "\<And>a b. checked_add a b = Some (a + b)"
    and "distinct (map fst es)" "fst ` set es \<inter> fst ` set (cs_map st) = {}" "length (cs_map st) + length es \<le> max_entries"
  shows "map_of (cs_map (snd (fold (load_entry iter checked_add now_unix now' max_entries)
      (map (\<lambda>(k, e). \<lparr>pe_key = rev (be_bytes 8 k), pe_payload = ce_payload e,
         pe_expires_secs = now_unix + (ce_expires e - now) div SECOND\<rparr>) es) (i, st)))) k =
    (case map_of es k of None \<Rightarrow> map_of (cs_map st) k | Some e \<Rightarrow> restored now now' e)"
  using assms(2-4)
proof (induction es arbitrary: i st)
  case (Cons x es)
  obtain k' e where x: "x = (k', e)" by (cases x)
  let ?pe = "\<lparr>pe_key = rev (be_bytes 8 k'), pe_payload = ce_payload e, pe_expires_secs = now_unix + (ce_expires e - now) div SECOND\<rparr>"
  have fresh: "map_of (cs_map st) k' = None" "map_of es k' = None" using Cons.prems(1,2) by (auto simp: x map_of_eq_None_iff)
  show ?case
  proof (cases "restored now now' e")
    case None
    then have "load_entry iter checked_add now_unix now' max_entries ?pe (i, st) = (i, st)"
      by (simp add: load_entry_def restored_def split: if_splits)
    with Cons.IH [of st i] Cons.prems None fresh show ?thesis by (auto simp: x)
  next
    case (Some e')
    let ?st = "\<lparr>cs_map = AList.update k' e' (cs_map st), cs_gen = cs_gen st + 1\<rparr>"
    have "\<not> max_entries \<le> length (cs_map st)" using Cons.prems(3) by simp
    then have "load_entry iter checked_add now_unix now' max_entries ?pe (i, st) = (i + 1, ?st)"
      using Some assms(1) key_bytes_round_trip [of k']
      by (auto simp: load_entry_def restored_def cache_insert_def length_be_bytes split: if_splits)
    moreover have "fst ` set es \<inter> fst ` set (cs_map ?st) = {}" "length (cs_map ?st) + length es \<le> max_entries"
      using Cons.prems fresh by (auto simp: x dom_update length_update)
    ultimately show ?thesis
      using Cons.IH [of ?st "i + 1"] Cons.prems(1) Some fresh by (auto simp: x update_conv' split: option.split)
  qed
qed simp

text \<open>A restart: what is written and read back is every entry with a second or more to live, under its key,
  with its payload and its remaining life in whole seconds; the name that guards against hash collisions is
  not kept.\<close>

lemma load_saved:
  assumes "iterates iter" "\<And>a b. checked_add a b = Some (a + b)" "distinct (map fst (cs_map st))" "length (cs_map st) \<le> max_entries"
  shows "map_of (cs_map (snd (load_entries iter' checked_add now_unix now' max_entries (save_entries iter now_unix now st) \<lparr>cs_map = [], cs_gen = 0\<rparr>))) k =
    Option.bind (map_of (cs_map st) k) (restored now now')"
proof -
  let ?es = "filter (\<lambda>(k, e). ce_expires e > now) (iter (cs_map st))"
  have d: "distinct (map fst (iter (cs_map st)))" using assms(1,3) by (simp add: iterates_distinct)
  have get: "map_of ?es k = Option.bind (map_of (cs_map st) k) (\<lambda>e. if ce_expires e > now then Some e else None)"
    unfolding map_of_filter_value [OF d] map_of_iter [OF assms(1,3)] ..
  have "length ?es \<le> max_entries"
    using length_filter_le [of "\<lambda>(k, e). ce_expires e > now" "iter (cs_map st)"] iterates_length [OF assms(1), of "cs_map st"] assms(4) by simp
  then have "map_of (cs_map (snd (load_entries iter' checked_add now_unix now' max_entries (save_entries iter now_unix now st) \<lparr>cs_map = [], cs_gen = 0\<rparr>))) k =
      (case map_of ?es k of None \<Rightarrow> None | Some e \<Rightarrow> restored now now' e)"
    using load_saved_list [where es = ?es and st = "\<lparr>cs_map = [], cs_gen = 0\<rparr>", OF assms(2) distinct_map_filter [OF d]]
    by (simp add: load_entries_def save_entries_def split: option.split)
  also have "\<dots> = Option.bind (map_of (cs_map st) k) (restored now now')"
    unfolding get by (cases "map_of (cs_map st) k") (auto simp: restored_def)
  finally show ?thesis .
qed

end
