(* ===== verification/Cache_Serve.thy ===== *)
theory Cache_Serve
  imports Fast_Path Subnet_Policy Cache_Snapshot Ip_Facts
begin

unbundle bit_operations_syntax

text \<open>
  Answering from the published cache: \<open>answer_from_cache\<close> of \<open>dns/xdp/worker.rs\<close> with the helpers it calls, and
  \<open>truncate_udp_response\<close> of \<open>dns/server.rs\<close>. The output buffer and the process-wide state (the policies, the
  counter of misses and what is handed to the statistics) are threaded through; the outer \<open>option\<close> stands for a
  panic, the inner one is the code's own: \<open>None\<close> leaves the query to the next path.
\<close>

section \<open>The code\<close>

definition set_octet :: "nat \<Rightarrow> byte \<Rightarrow> byte list \<Rightarrow> byte list option" where
  "set_octet i v xs = (if i < length xs then Some (xs[i := v]) else None)"

definition udp_budget :: "byte list \<Rightarrow> nat" where
  "udp_budget query =
     (case message_parse query of
        Inr m \<Rightarrow> (case message_edns m of Inr (Some e) \<Rightarrow> min 1232 (max 512 (unat (udp_payload e))) | _ \<Rightarrow> 512)
      | Inl _ \<Rightarrow> 512)"

definition truncated_message :: "message \<Rightarrow> message" where
  "truncated_message m = m\<lparr>msg_header := set_tc True (msg_header m), answers := [], authority := [],
     additional := filter (\<lambda>r. rr_type r = rtype_OPT) (additional m)\<rparr>"

definition truncate_udp_response :: "byte list \<Rightarrow> byte list \<Rightarrow> byte list option" where
  "truncate_udp_response resp query =
     (let mx = udp_budget query in
      if length resp \<le> mx then Some resp
      else case message_parse resp of
        Inl _ \<Rightarrow> Some resp
      | Inr m \<Rightarrow> do {
          encoded \<leftarrow> message_encode (truncated_message m);
          Some (if length encoded > mx then take mx encoded else encoded)
        })"

function presentation_loop :: "byte list \<Rightarrow> nat \<Rightarrow> str \<Rightarrow> str option" where
  "presentation_loop wire i out =
     (if i < length wire then
        let len = unat (wire ! i) in
        if len = 0 then Some out
        else if len > 63 \<or> i + 1 + len > length wire then None
        else presentation_loop wire (i + 1 + len)
          ((if out \<noteq> [] then out @ [46] else out) @ map unat (take len (drop (i + 1) wire)))
      else Some out)"
  by pat_completeness auto
termination
  by (relation "measure (\<lambda>(wire, i, out). length wire - i)") auto

definition wire_qname_to_presentation :: "byte list \<Rightarrow> str option" where
  "wire_qname_to_presentation wire =
     (case presentation_loop wire 0 [] of None \<Rightarrow> None | Some out \<Rightarrow> if out = [] then None else Some out)"

record fast_state =
  fs_policies :: policy_state
  fs_misses :: u64
  fs_qtype_hits :: "u16 list"
  fs_domain_hits :: "byte list list"

definition miss :: "byte list \<Rightarrow> fast_state \<Rightarrow> nat option \<times> byte list \<times> fast_state" where
  "miss tx st = (None, tx, st\<lparr>fs_misses := fs_misses st + 1\<rparr>)"

text \<open>The test of the network policies, before the table is read.\<close>

definition policy_gate :: "ip_addr option \<Rightarrow> byte list \<Rightarrow> fast_state \<Rightarrow> bool \<times> fast_state" where
  "policy_gate src_ip qname_lc st =
     (case src_ip of
        None \<Rightarrow> (False, st)
      | Some ip \<Rightarrow>
          if has_policies (fs_policies st) then
            (case wire_qname_to_presentation qname_lc of
               None \<Rightarrow> (False, st)
             | Some nm \<Rightarrow> (case policy_blocks ip nm (fs_policies st) of (b, ps) \<Rightarrow> (b, st\<lparr>fs_policies := ps\<rparr>)))
          else (False, st))"

text \<open>Copying a cached response out, with the identifier and the RD bit of the query.\<close>

definition serve_payload :: "byte list \<Rightarrow> byte list \<Rightarrow> byte list \<Rightarrow> (nat \<times> byte list) option" where
  "serve_payload query wire tx = do {
     (_, tx) \<leftarrow> put wire (0, tx);
     q0 \<leftarrow> index query 0;
     q1 \<leftarrow> index query 1;
     q2 \<leftarrow> index query 2;
     tx \<leftarrow> set_octet 0 q0 tx;
     tx \<leftarrow> set_octet 1 q1 tx;
     t2 \<leftarrow> index tx 2;
     tx \<leftarrow> set_octet 2 ((t2 AND 0xFE) OR (q2 AND 0x01)) tx;
     if length wire > 512 then do {
       v \<leftarrow> subslice tx 0 (length wire);
       v \<leftarrow> truncate_udp_response v query;
       if length v \<noteq> length wire then put v (0, tx) else Some (length wire, tx)
     }
     else Some (length wire, tx)
   }"

definition cache_key :: "cpu \<Rightarrow> byte list \<Rightarrow> u16 \<Rightarrow> u64" where
  "cache_key cpu qname_lc qt = cpu_hash cpu qname_lc XOR push_bit 48 (ucast qt)"

definition lookup_cache ::
    "cpu \<Rightarrow> nat \<Rightarrow> cache_map \<Rightarrow> bool \<Rightarrow> bool \<Rightarrow> byte list \<Rightarrow> byte list \<Rightarrow> u16 \<Rightarrow> byte list \<Rightarrow> fast_state \<Rightarrow>
     (nat option \<times> byte list \<times> fast_state) option" where
  "lookup_cache cpu now snap stats domain_stats query qname_lc qt tx st =
     (case map_of snap (cache_key cpu qname_lc qt) of
        None \<Rightarrow> Some (miss tx st)
      | Some e \<Rightarrow>
          if ce_qname e \<noteq> [] \<and> \<not> bytes_eq (cpu_x86_64 cpu) (cpu_level cpu) (ce_qname e) qname_lc then Some (miss tx st)
          else if ce_expires e > now \<and> length (ce_payload e) \<ge> 2 then
            if length tx < length (ce_payload e) then Some (miss tx st)
            else do {
              (len, tx) \<leftarrow> serve_payload query (ce_payload e) tx;
              let st = (if stats then st\<lparr>fs_qtype_hits := fs_qtype_hits st @ [qt]\<rparr> else st);
              let st = (if domain_stats then st\<lparr>fs_domain_hits := fs_domain_hits st @ [qname_lc]\<rparr> else st);
              Some (Some len, tx, st)
            }
          else Some (miss tx st))"

text \<open>From the end of the name on.\<close>

definition ask_cache ::
    "cpu \<Rightarrow> nat \<Rightarrow> cache_map \<Rightarrow> ip_addr option \<Rightarrow> bool \<Rightarrow> bool \<Rightarrow> byte list \<Rightarrow> nat \<Rightarrow> byte list \<Rightarrow> fast_state \<Rightarrow>
     (nat option \<times> byte list \<times> fast_state) option" where
  "ask_cache cpu now snap src_ip stats domain_stats query qname_wire_len tx st = do {
     qname_wire \<leftarrow> subslice (drop 12 query) 0 qname_wire_len;
     let qname_lc = normalize_query_qname (cpu_x86_64 cpu) (cpu_level cpu) qname_wire;
     if length query < 12 + qname_wire_len + 4 then Some (miss tx st)
     else do {
       qt \<leftarrow> read_u16 query (12 + qname_wire_len);
       cls \<leftarrow> read_u16 query (12 + qname_wire_len + 2);
       if cls \<noteq> 1 then Some (None, tx, st)
       else if qt = 255 then Some (None, tx, st)
       else do {
         arc \<leftarrow> read_u16 query 10;
         opt \<leftarrow> (if arc > 0 then parse_opt_rr query (12 + qname_wire_len + 4) arc else Some None);
         if (case opt of None \<Rightarrow> False | Some e \<Rightarrow> ei_do_bit e) then Some (None, tx, st)
         else (case policy_gate src_ip qname_lc st of (blocked, st) \<Rightarrow>
           if blocked then Some (None, tx, st)
           else lookup_cache cpu now snap stats domain_stats query qname_lc qt tx st)
       }
     }
   }"

definition answer_from_cache ::
    "cpu \<Rightarrow> nat \<Rightarrow> cache_map \<Rightarrow> acl_entry list \<Rightarrow> ip_addr option \<Rightarrow> bool \<Rightarrow> bool \<Rightarrow> byte list \<Rightarrow> byte list \<Rightarrow> fast_state \<Rightarrow>
     (nat option \<times> byte list \<times> fast_state) option" where
  "answer_from_cache cpu now snap acl src_ip stats domain_stats query tx st =
     (if acl_gate acl src_ip \<noteq> Allow then Some (None, tx, st)
      else if length query < 13 then Some (None, tx, st)
      else do {
        flags \<leftarrow> read_u16 query 2;
        if flags AND 0x8000 \<noteq> 0 then Some (None, tx, st)
        else if flags AND 0x7800 \<noteq> 0 then Some (None, tx, st)
        else do {
          qdc \<leftarrow> read_u16 query 4;
          if qdc \<noteq> 1 then Some (None, tx, st)
          else (case find_zero (cpu_x86_64 cpu) (drop 12 query) of
            None \<Rightarrow> Some (miss tx st)
          | Some zero_pos \<Rightarrow>
              if 12 + (zero_pos + 1) + 4 > length query then Some (miss tx st)
              else ask_cache cpu now snap src_ip stats domain_stats query (zero_pos + 1) tx st)
        }
      })"

declare presentation_loop.simps [simp del]

section \<open>Truncation\<close>

lemma parsed_message_ok:
  assumes "message_parse buf = Inr m" "length buf \<le> 65027"
  shows "message_ok m"
  using message_parse_counts [OF assms(1)] assms(2) unat_u16_le unfolding message_ok_def by metis

lemma truncated_ok: "message_ok m \<Longrightarrow> message_ok (truncated_message m)"
  by (auto simp: message_ok_def truncated_message_def list_all_iff intro: order.trans [OF length_filter_le])

lemma truncate_response:
  assumes "length resp \<le> 65027"
  obtains "length resp \<le> udp_budget query" "truncate_udp_response resp query = Some resp"
    | err where "message_parse resp = Inl err" "truncate_udp_response resp query = Some resp"
    | m buf where "message_parse resp = Inr m" "udp_budget query < length resp" "message_encode (truncated_message m) = Some buf"
        "truncate_udp_response resp query = Some (take (udp_budget query) buf)"
proof (cases "length resp \<le> udp_budget query")
  case True
  then show thesis by (intro that(1)) (simp_all add: truncate_udp_response_def Let_def)
next
  case False
  show thesis
  proof (cases "message_parse resp")
    case (Inl err)
    with False show thesis by (intro that(2)) (simp_all add: truncate_udp_response_def Let_def)
  next
    case (Inr m)
    from message_sameI [OF truncated_ok [OF parsed_message_ok [OF Inr assms]], of True] obtain buf where
      buf: "message_encode (truncated_message m) = Some buf" by (auto simp: message_encode_def)
    with Inr False show thesis by (intro that(3)) (auto simp: truncate_udp_response_def Let_def)
  qed
qed

lemma budget_bounds: "512 \<le> udp_budget query \<and> udp_budget query \<le> 1232"
  by (auto simp: udp_budget_def split: sum.split option.split)

section \<open>The octets of a reply\<close>

text \<open>A cached response with the identifier and the RD bit of a query.\<close>

definition patched :: "byte list \<Rightarrow> byte list \<Rightarrow> byte list" where
  "patched query wire = wire[0 := query ! 0, 1 := query ! 1, 2 := (wire ! 2 AND 0xFE) OR (query ! 2 AND 0x01)]"

text \<open>
  What a client takes: the payload size of a readable OPT record of its query, between 512 and 1232, and 512
  without one.
\<close>

definition client_takes :: "byte list \<Rightarrow> nat \<Rightarrow> bool" where
  "client_takes query n \<longleftrightarrow>
     (if \<exists>m e. message_parse query = Inr m \<and> message_edns m = Inr (Some e)
      then \<exists>m e. message_parse query = Inr m \<and> message_edns m = Inr (Some e) \<and>
        n = (if udp_payload e < 512 then 512 else if udp_payload e > 1232 then 1232 else unat (udp_payload e))
      else n = 512)"

text \<open>A message with the records removed except for the OPT records, and the TC flag set.\<close>

definition cut_short :: "message \<Rightarrow> message \<Rightarrow> bool" where
  "cut_short m t \<longleftrightarrow> hid (msg_header t) = hid (msg_header m) \<and> hflags (msg_header t) = hflags (msg_header m) OR 0x0200 \<and>
     questions t = questions m \<and> answers t = [] \<and> authority t = [] \<and>
     additional t = filter (\<lambda>r. rr_type r = rtype_OPT) (additional m)"

text \<open>
  What may be sent for a cached response: the response itself when the client takes it (or when it does not
  parse), and otherwise the encoding of the message cut short, of which the client gets what it takes.
\<close>

definition reply_for :: "byte list \<Rightarrow> byte list \<Rightarrow> byte list \<Rightarrow> bool" where
  "reply_for query wire out \<longleftrightarrow> (\<exists>limit. client_takes query limit \<and>
     (out = patched query wire \<and> (length wire \<le> limit \<or> (\<exists>err. message_parse (patched query wire) = Inl err)) \<or>
      (\<exists>m t buf. message_parse (patched query wire) = Inr m \<and> limit < length wire \<and> cut_short m t \<and>
         message_encode t = Some buf \<and> out = take limit buf)))"

lemma budget_taken: "client_takes query (udp_budget query)"
proof -
  have "min 1232 (max 512 (unat p)) = (if p < 512 then 512 else if p > 1232 then 1232 else unat p)" for p :: u16
    by (simp add: word_less_nat_alt not_less)
  then show ?thesis by (auto simp: client_takes_def udp_budget_def split: sum.split option.split)
qed

lemma truncated_cut_short: "cut_short m (truncated_message m)"
  by (simp add: cut_short_def truncated_message_def set_tc_def flag_set_def)

lemma reply_forI:
  "out = patched query wire \<Longrightarrow> length wire \<le> udp_budget query \<or> (\<exists>err. message_parse (patched query wire) = Inl err) \<Longrightarrow>
     reply_for query wire out"
  "message_parse (patched query wire) = Inr m \<Longrightarrow> udp_budget query < length wire \<Longrightarrow>
     message_encode (truncated_message m) = Some buf \<Longrightarrow> out = take (udp_budget query) buf \<Longrightarrow> reply_for query wire out"
  using budget_taken [of query] truncated_cut_short [of m] unfolding reply_for_def by blast+

lemma length_patched [simp]: "length (patched query wire) = length wire"
  by (simp add: patched_def)

lemma serve_payload_reply:
  assumes "2 \<le> length wire" "length wire \<le> length tx" "3 \<le> length tx" "13 \<le> length query" "length wire \<le> 65027"
  shows "\<exists>len tx'. serve_payload query wire tx = Some (len, tx') \<and> length tx' = length tx \<and> len \<le> length tx \<and>
    reply_for query wire (take len tx')"
proof -
  define xs where "xs = wire @ drop (length wire) tx"
  let ?tx1 = "xs[0 := query ! 0, 1 := query ! 1]"
  let ?tx2 = "?tx1[2 := (?tx1 ! 2 AND 0xFE) OR (query ! 2 AND 0x01)]"
  have xs: "length xs = length tx" "put wire (0, tx) = Some (length wire, xs)" using assms(2) by (simp_all add: xs_def put_def)
  have len: "length ?tx2 = length tx" using xs by simp
  have tk: "take (length wire) ?tx2 = patched query wire"
    by (cases "length wire = 2") (use assms(1) in \<open>simp_all add: xs_def take_update_swap patched_def nth_append list_update_beyond\<close>)
  have octet: "set_octet 0 (query ! 0) xs = Some (xs[0 := query ! 0])" "set_octet 1 (query ! 1) (xs[0 := query ! 0]) = Some ?tx1"
    "set_octet 2 v ?tx1 = Some (?tx1[2 := v])" "index ?tx1 2 = Some (?tx1 ! 2)" for v
    using assms(3) xs(1) by (auto simp: set_octet_def index_def)
  have q: "index query 0 = Some (query ! 0)" "index query 1 = Some (query ! 1)" "index query 2 = Some (query ! 2)"
    using assms(4) by (auto simp: index_def)
  have sl: "subslice ?tx2 0 (length wire) = Some (patched query wire)"
    using assms(2) xs(1) tk by (simp add: subslice_def)
  have serve: "serve_payload query wire tx =
      (if length wire > 512 then do {
         v \<leftarrow> truncate_udp_response (patched query wire) query;
         if length v \<noteq> length wire then put v (0, ?tx2) else Some (length wire, ?tx2) }
       else Some (length wire, ?tx2))"
    unfolding serve_payload_def xs(2) q octet sl Option.bind.simps prod.case ..
  have fits: "reply_for query wire (take (length wire) ?tx2)" if "length wire \<le> udp_budget query \<or> (\<exists>err. message_parse (patched query wire) = Inl err)"
    using reply_forI(1) [OF tk that] .
  show ?thesis
  proof (cases "length wire > 512")
    case False
    then show ?thesis using fits budget_bounds [of query] assms(2) len by (simp add: serve)
  next
    case True
    have "length (patched query wire) \<le> 65027" using assms(5) by simp
    then show ?thesis
    proof (cases rule: truncate_response [of _ query])
      case 1
      then show ?thesis using fits assms(2) len by (simp add: serve)
    next
      case (2 err)
      then show ?thesis using fits assms(2) len by (simp add: serve)
    next
      case (3 m buf)
      define v where "v = take (udp_budget query) buf"
      have short: "length v < length wire" using 3(2) by (simp add: v_def)
      then have "put v (0, ?tx2) = Some (length v, v @ drop (length v) ?tx2)" using assms(2) len by (simp add: put_def)
      then have "serve_payload query wire tx = Some (length v, v @ drop (length v) ?tx2)"
        using True 3(4) short unfolding serve v_def [symmetric] by simp
      moreover have "reply_for query wire v" using reply_forI(2) [OF 3(1) _ 3(3)] 3(2) by (simp add: v_def)
      ultimately show ?thesis using short assms(2) len by simp
    qed
  qed
qed

section \<open>Who is answered, and with what\<close>

text \<open>
  A query that the cache may answer: an admitted client, the opcode QUERY, and, as the fast path reads the
  datagram, the class IN, a type other than ANY and no DO flag.
\<close>

definition cache_query :: "cpu \<Rightarrow> acl_entry list \<Rightarrow> ip_addr option \<Rightarrow> byte list \<Rightarrow> wire_query \<Rightarrow> bool" where
  "cache_query cpu acl src_ip query wq \<longleftrightarrow> (\<forall>ip. src_ip = Some ip \<longrightarrow> acl_check acl ip = Allow) \<and>
     (\<exists>flags. read_u16 query 2 = Some flags \<and> flags AND 0x7800 = 0) \<and>
     parse_query (cpu_x86_64 cpu) query = Some (Some wq) \<and> wq_qclass wq = class_IN \<and> wq_qtype wq \<noteq> rtype_ANY \<and>
     (\<forall>e. wq_edns wq = Some e \<longrightarrow> \<not> ei_do_bit e)"

text \<open>Past the header checks, the octets after the name give the same query on both fast paths.\<close>

lemma cache_reads_query:
  assumes "acl_gate acl src_ip = Allow" "read_u16 query 2 = Some flags" "flags AND 0x8000 = 0" "flags AND 0x7800 = 0"
    "read_u16 query 4 = Some 1" "find_zero (cpu_x86_64 cpu) (drop 12 query) = Some z" "12 + (z + 1) + 4 \<le> length query"
  obtains wq where "parse_query (cpu_x86_64 cpu) query = Some (Some wq)"
    "answer_from_cache cpu now snap acl src_ip stats domain_stats query tx st =
      (if wq_qclass wq \<noteq> 1 \<or> wq_qtype wq = 255 \<or> (case wq_edns wq of None \<Rightarrow> False | Some e \<Rightarrow> ei_do_bit e) then Some (None, tx, st)
       else case policy_gate src_ip (lower (wq_qname_wire wq)) st of (blocked, st) \<Rightarrow>
         if blocked then Some (None, tx, st)
         else lookup_cache cpu now snap stats domain_stats query (lower (wq_qname_wire wq)) (wq_qtype wq) tx st)"
proof -
  let ?p = "12 + (z + 1)"
  obtain qid arc qt cls where r: "read_u16 query 0 = Some qid" "read_u16 query 10 = Some arc" "read_u16 query ?p = Some qt"
    "read_u16 query (?p + 2) = Some cls"
    using assms(7) read_u16_returns [of 0 query] read_u16_returns [of 10 query] read_u16_returns [of ?p query]
      read_u16_returns [of "?p + 2" query] by (auto simp: returns_def)
  have asked: "answer_from_cache cpu now snap acl src_ip stats domain_stats query tx st =
      ask_cache cpu now snap src_ip stats domain_stats query (z + 1) tx st"
    using assms by (simp add: answer_from_cache_def)
  obtain opt where o1: "parse_opt_rr query (?p + 4) arc = Some opt"
    using opt_loop_returns [of "unat arc" query "?p + 4"] by (cases "arc = 0") (auto simp: parse_opt_rr_def returns_def)
  have o2: "(if arc > 0 then parse_opt_rr query (?p + 4) arc else Some None) = Some opt"
    using o1 by (cases "arc = 0") (simp_all add: word_gt_0 parse_opt_rr_def)
  have q: "subslice query 12 ?p = Some (take (z + 1) (drop 12 query))" "subslice (drop 12 query) 0 (z + 1) = Some (take (z + 1) (drop 12 query))"
    using assms(7) by (simp_all add: subslice_def)
  let ?wq = "\<lparr>wq_id = qid, wq_qname_wire = take (z + 1) (drop 12 query), wq_qtype = qt, wq_qclass = cls, wq_rd = (flags AND 0x0100 \<noteq> 0), wq_edns = opt\<rparr>"
  have parsed: "parse_query (cpu_x86_64 cpu) query = Some (Some ?wq)"
    using assms(2-7) r o1 q by (simp add: parse_query_def)
  have "answer_from_cache cpu now snap acl src_ip stats domain_stats query tx st =
      (if cls \<noteq> 1 \<or> qt = 255 \<or> (case opt of None \<Rightarrow> False | Some e \<Rightarrow> ei_do_bit e) then Some (None, tx, st)
       else case policy_gate src_ip (lower (take (z + 1) (drop 12 query))) st of (blocked, st) \<Rightarrow>
         if blocked then Some (None, tx, st)
         else lookup_cache cpu now snap stats domain_stats query (lower (take (z + 1) (drop 12 query))) qt tx st)"
    unfolding asked ask_cache_def q(2) r(2-4) o2 normalize_lower Let_def Option.bind.simps using assms(7) by simp
  then show thesis by (rule that [of ?wq, unfolded wire_query.select_convs, OF parsed])
qed

lemma answer_from_cache_cases:
  obtains (skipped) "answer_from_cache cpu now snap acl src_ip stats domain_stats query tx st = Some (None, tx, st)"
    | (missed) "answer_from_cache cpu now snap acl src_ip stats domain_stats query tx st = Some (miss tx st)"
    | (asked) wq st' blocked where "cache_query cpu acl src_ip query wq" "13 \<le> length query"
        "policy_gate src_ip (lower (wq_qname_wire wq)) st = (blocked, st')"
        "answer_from_cache cpu now snap acl src_ip stats domain_stats query tx st =
           (if blocked then Some (None, tx, st')
            else lookup_cache cpu now snap stats domain_stats query (lower (wq_qname_wire wq)) (wq_qtype wq) tx st')"
proof (cases "acl_gate acl src_ip = Allow \<and> 13 \<le> length query")
  case False
  then show thesis by (intro skipped) (auto simp: answer_from_cache_def)
next
  case True
  obtain flags qdc where r: "read_u16 query 2 = Some flags" "read_u16 query 4 = Some qdc"
    using True read_u16_returns [of 2 query] read_u16_returns [of 4 query] by (auto simp: returns_def)
  show thesis
  proof (cases "flags AND 0x8000 = 0 \<and> flags AND 0x7800 = 0 \<and> qdc = 1")
    case False
    then show thesis using True r by (intro skipped) (auto simp: answer_from_cache_def)
  next
    case ok: True
    then have q1: "read_u16 query 4 = Some 1" using r(2) by simp
    show thesis
    proof (cases "find_zero (cpu_x86_64 cpu) (drop 12 query)")
      case None
      then show thesis using True r ok by (intro missed) (simp add: answer_from_cache_def)
    next
      case (Some z)
      show thesis
      proof (cases "12 + (z + 1) + 4 \<le> length query")
        case False
        then show thesis using True r ok Some by (intro missed) (simp add: answer_from_cache_def)
      next
        case in_bounds: True
        obtain wq where wq: "parse_query (cpu_x86_64 cpu) query = Some (Some wq)"
          "answer_from_cache cpu now snap acl src_ip stats domain_stats query tx st =
            (if wq_qclass wq \<noteq> 1 \<or> wq_qtype wq = 255 \<or> (case wq_edns wq of None \<Rightarrow> False | Some e \<Rightarrow> ei_do_bit e) then Some (None, tx, st)
             else case policy_gate src_ip (lower (wq_qname_wire wq)) st of (blocked, st) \<Rightarrow>
               if blocked then Some (None, tx, st)
               else lookup_cache cpu now snap stats domain_stats query (lower (wq_qname_wire wq)) (wq_qtype wq) tx st)"
          by (rule cache_reads_query [OF conjunct1 [OF True] r(1) conjunct1 [OF ok] conjunct1 [OF conjunct2 [OF ok]] q1 Some in_bounds])
        show thesis
        proof (cases "wq_qclass wq \<noteq> 1 \<or> wq_qtype wq = 255 \<or> (case wq_edns wq of None \<Rightarrow> False | Some e \<Rightarrow> ei_do_bit e)")
          case True
          then show thesis using wq(2) by (intro skipped) simp
        next
          case False
          obtain blocked st' where "policy_gate src_ip (lower (wq_qname_wire wq)) st = (blocked, st')"
            by (cases "policy_gate src_ip (lower (wq_qname_wire wq)) st")
          then show thesis using wq False True r(1) ok by (intro asked) (auto simp: cache_query_def acl_gate_def split: option.splits)
        qed
      qed
    qed
  qed
qed

lemma lookup_cache_reply:
  assumes "3 \<le> length tx" "13 \<le> length query" "\<forall>(k, e) \<in> set snap. length (ce_payload e) \<le> 65027"
  shows "\<exists>r tx' st'. lookup_cache cpu now snap stats domain_stats query lc qt tx st = Some (r, tx', st') \<and> length tx' = length tx \<and>
    (\<forall>len. r = Some len \<longrightarrow> len \<le> length tx \<and> (\<exists>e. map_of snap (cache_key cpu lc qt) = Some e \<and>
       now < ce_expires e \<and> ce_qname e \<in> {[], lc} \<and> reply_for query (ce_payload e) (take len tx')))"
proof (cases "map_of snap (cache_key cpu lc qt)")
  case None
  then show ?thesis by (simp add: lookup_cache_def miss_def)
next
  case (Some e)
  have e: "length (ce_payload e) \<le> 65027" using map_of_SomeD [OF Some] assms(3) by auto
  show ?thesis
  proof (cases "(ce_qname e = [] \<or> ce_qname e = lc) \<and> now < ce_expires e \<and> 2 \<le> length (ce_payload e) \<and> length (ce_payload e) \<le> length tx")
    case False
    then show ?thesis by (auto simp: lookup_cache_def miss_def Some bytes_eq_iff)
  next
    case True
    then obtain len tx' where "serve_payload query (ce_payload e) tx = Some (len, tx')" "length tx' = length tx" "len \<le> length tx"
      "reply_for query (ce_payload e) (take len tx')"
      using serve_payload_reply [OF _ _ assms(1,2) e] by blast
    with True show ?thesis by (auto simp: lookup_cache_def Some bytes_eq_iff Let_def)
  qed
qed

lemma lookup_cache_hit:
  assumes "3 \<le> length tx" "13 \<le> length query" "\<forall>(k, e) \<in> set snap. length (ce_payload e) \<le> 65027"
    "map_of snap (cache_key cpu lc qt) = Some e" "now < ce_expires e" "ce_qname e \<in> {[], lc}" "2 \<le> length (ce_payload e)"
    "length (ce_payload e) \<le> length tx"
  shows "\<exists>len tx' st'. lookup_cache cpu now snap stats domain_stats query lc qt tx st = Some (Some len, tx', st')"
proof -
  have "length (ce_payload e) \<le> 65027" using map_of_SomeD [OF assms(4)] assms(3) by auto
  then obtain len tx' where "serve_payload query (ce_payload e) tx = Some (len, tx')"
    using serve_payload_reply [OF assms(7,8,1,2)] by blast
  with assms(5-8) show ?thesis by (auto simp: lookup_cache_def assms(4) bytes_eq_iff Let_def)
qed

lemma answer_from_cache_gated:
  assumes "3 \<le> length tx" "\<forall>(k, e) \<in> set snap. length (ce_payload e) \<le> 65027"
  shows "\<exists>r tx' st'. answer_from_cache cpu now snap acl src_ip stats domain_stats query tx st = Some (r, tx', st') \<and>
    length tx' = length tx \<and>
    (\<forall>len. r = Some len \<longrightarrow> len \<le> length tx \<and>
      (\<exists>wq e. cache_query cpu acl src_ip query wq \<and> \<not> fst (policy_gate src_ip (lower (wq_qname_wire wq)) st) \<and>
         map_of snap (cache_key cpu (lower (wq_qname_wire wq)) (wq_qtype wq)) = Some e \<and> now < ce_expires e \<and>
         ce_qname e \<in> {[], lower (wq_qname_wire wq)} \<and> reply_for query (ce_payload e) (take len tx')))"
proof (cases rule: answer_from_cache_cases [of cpu now snap acl src_ip stats domain_stats query tx st])
  case skipped
  then show ?thesis by simp
next
  case missed
  then show ?thesis by (simp add: miss_def)
next
  case (asked wq st' blocked)
  show ?thesis
  proof (cases blocked)
    case True
    then show ?thesis using asked by simp
  next
    case False
    with lookup_cache_reply [OF assms(1) asked(2) assms(2)] asked show ?thesis by fastforce
  qed
qed

text \<open>
  The policies: a policy whose network holds the client lists the name, or a domain after one of its dots. The
  name is that of the labels with dots between them and none at the end.
\<close>

definition policy_denies :: "ip_addr \<Rightarrow> str \<Rightarrow> policy_state \<Rightarrow> bool" where
  "policy_denies ip nm st \<longleftrightarrow>
     (\<exists>ps. live st = Some ps \<and> (\<exists>p \<in> set ps. in_block (cidr_prefix (cp_cidr p)) (cidr_prefix_len (cp_cidr p)) ip \<and>
        (\<exists>d \<in> set (cp_domains p). nm = d \<or> d \<noteq> [] \<and> (\<exists>pre. nm = pre @ 46 # d))))"

definition dotted :: "byte list list \<Rightarrow> str" where
  "dotted ls = tl (concat (map (\<lambda>l. 46 # map unat l) ls))"

definition denied :: "ip_addr option \<Rightarrow> byte list list \<Rightarrow> fast_state \<Rightarrow> bool" where
  "denied src_ip ls st \<longleftrightarrow> ls \<noteq> [] \<and>
     (\<exists>ip. src_ip = Some ip \<and> policy_denies ip (trim_end_matches (\<lambda>c. c = 46) (dotted ls)) (fs_policies st))"

lemma presentation_labels:
  assumes "list_all label_ok ls"
  shows "presentation_loop (pre @ wire_of ls) (length pre) out =
    Some (if out = [] then dotted ls else out @ concat (map (\<lambda>l. 46 # map unat l) ls))"
  using assms
proof (induction ls arbitrary: pre out)
  case Nil
  then show ?case by (subst presentation_loop.simps) (simp add: dotted_def)
next
  case (Cons l ls)
  let ?n = "of_nat (length l) :: byte"
  have l: "l \<noteq> []" "unat ?n = length l" "length l \<le> 63" using Cons.prems by (auto simp: label_ok_def unat_of_nat)
  have "presentation_loop (pre @ wire_of (l # ls)) (length pre) out =
      presentation_loop ((pre @ ?n # l) @ wire_of ls) (length (pre @ ?n # l)) ((if out \<noteq> [] then out @ [46] else out) @ map unat l)"
    using l by (subst presentation_loop.simps) (simp add: nth_append Let_def)
  also have "\<dots> = Some (if out = [] then dotted (l # ls) else out @ concat (map (\<lambda>l. 46 # map unat l) (l # ls)))"
    using Cons.IH [of "pre @ ?n # l"] Cons.prems l(1) by (auto simp: dotted_def)
  finally show ?case .
qed

lemma policy_gate_denied:
  assumes "policy_ok (fs_policies st)" "list_all label_ok ls"
  shows "fst (policy_gate src_ip (wire_of ls) st) \<longleftrightarrow> denied src_ip ls st"
proof (cases "ls = [] \<or> src_ip = None")
  case True
  then show ?thesis using presentation_labels [of "[]" "[]" "[]"]
    by (auto simp: denied_def policy_gate_def wire_qname_to_presentation_def dotted_def split: option.split)
next
  case False
  then obtain ip where ip: "src_ip = Some ip" and ls: "ls \<noteq> []" by auto
  then have "dotted ls \<noteq> []" using assms(2) by (cases ls) (auto simp: dotted_def label_ok_def)
  then have "wire_qname_to_presentation (wire_of ls) = Some (dotted ls)"
    using presentation_labels [OF assms(2), of "[]" "[]"] by (simp add: wire_qname_to_presentation_def)
  then have "fst (policy_gate src_ip (wire_of ls) st) \<longleftrightarrow> has_policies (fs_policies st) \<and> fst (policy_blocks ip (dotted ls) (fs_policies st))"
    using ip by (simp add: policy_gate_def split: prod.split)
  also have "\<dots> \<longleftrightarrow> fst (policy_blocks ip (dotted ls) (fs_policies st))"
    by (auto simp: has_policies_def policy_blocks_def)
  also have "\<dots> \<longleftrightarrow> policy_denies ip (trim_end_matches (\<lambda>c. c = 46) (dotted ls)) (fs_policies st)"
    unfolding policy_blocks_fst [OF assms(1)] compiled_blocks_iff policy_denies_def name_or_parent_in_def parent_in_iff
      cidr_contains_block by auto
  finally show ?thesis using ip ls by (simp add: denied_def)
qed

text \<open>A query that may be answered is looked up, unless a policy stands against it.\<close>

lemma cache_query_asked:
  assumes "cache_query cpu acl src_ip query wq"
  shows "answer_from_cache cpu now snap acl src_ip stats domain_stats query tx st =
    (case policy_gate src_ip (lower (wq_qname_wire wq)) st of (blocked, st) \<Rightarrow>
       if blocked then Some (None, tx, st)
       else lookup_cache cpu now snap stats domain_stats query (lower (wq_qname_wire wq)) (wq_qtype wq) tx st)"
proof -
  obtain flags where fl: "read_u16 query 2 = Some flags" "flags AND 0x7800 = 0" using assms by (auto simp: cache_query_def)
  have acl: "acl_gate acl src_ip = Allow" using assms by (auto simp: cache_query_def acl_gate_def split: option.split)
  have pq: "parse_query (cpu_x86_64 cpu) query = Some (Some wq)" using assms by (simp add: cache_query_def)
  then obtain z where z: "flags AND 0x8000 = 0" "read_u16 query 4 = Some 1" "find_zero (cpu_x86_64 cpu) (drop 12 query) = Some z"
    "12 + (z + 1) + 4 \<le> length query"
    using fl(1) by (auto simp: parse_query_def Let_def split: if_splits bind_splits option.splits)
  obtain wq' where "parse_query (cpu_x86_64 cpu) query = Some (Some wq')"
    "answer_from_cache cpu now snap acl src_ip stats domain_stats query tx st =
      (if wq_qclass wq' \<noteq> 1 \<or> wq_qtype wq' = 255 \<or> (case wq_edns wq' of None \<Rightarrow> False | Some e \<Rightarrow> ei_do_bit e) then Some (None, tx, st)
       else case policy_gate src_ip (lower (wq_qname_wire wq')) st of (blocked, st) \<Rightarrow>
         if blocked then Some (None, tx, st)
         else lookup_cache cpu now snap stats domain_stats query (lower (wq_qname_wire wq')) (wq_qtype wq') tx st)"
    by (rule cache_reads_query [OF acl fl(1) z(1) fl(2) z(2-4)])
  with pq assms show ?thesis by (auto simp: cache_query_def split: option.splits)
qed

text \<open>
  C11. Answering from the cache never panics on any datagram, given room for a header, and is safe: a client that
  the access list does not admit, a name that a network policy whose network holds the client lists itself or
  through a domain above it, another opcode or class, the type ANY, the DO flag, and an expired response are never
  answered. What is sent is a response stored under the key of the name and type of the query (with that name, unless the
  entry carries none), with the identifier and the RD flag of the query: the whole response if the client takes it, and
  otherwise the encoding of the message with the TC flag and without its records except the OPT record, as far as the
  client takes it; only a response that does not parse is sent whole regardless. Conversely, a query with a well-formed
  name for which such a response of at least two octets is stored and fits the buffer is answered.
\<close>

theorem cache_answer_safe:
  assumes "3 \<le> length tx" "\<forall>(k, e) \<in> set snap. length (ce_payload e) \<le> 65027" "policy_ok (fs_policies st)"
  shows "\<exists>r tx' st'. answer_from_cache cpu now snap acl src_ip stats domain_stats query tx st = Some (r, tx', st') \<and>
    length tx' = length tx \<and>
    (\<forall>len. r = Some len \<longrightarrow> len \<le> length tx \<and>
      (\<exists>wq e. cache_query cpu acl src_ip query wq \<and>
         (\<forall>ls. lower (wq_qname_wire wq) = wire_of ls \<and> list_all label_ok ls \<longrightarrow> \<not> denied src_ip ls st) \<and>
         map_of snap (cache_key cpu (lower (wq_qname_wire wq)) (wq_qtype wq)) = Some e \<and> now < ce_expires e \<and>
         ce_qname e \<in> {[], lower (wq_qname_wire wq)} \<and> reply_for query (ce_payload e) (take len tx'))) \<and>
    (\<forall>wq ls e. cache_query cpu acl src_ip query wq \<and> lower (wq_qname_wire wq) = wire_of ls \<and> list_all label_ok ls \<and>
       \<not> denied src_ip ls st \<and> map_of snap (cache_key cpu (lower (wq_qname_wire wq)) (wq_qtype wq)) = Some e \<and> now < ce_expires e \<and>
       ce_qname e \<in> {[], lower (wq_qname_wire wq)} \<and> 2 \<le> length (ce_payload e) \<and> length (ce_payload e) \<le> length tx \<longrightarrow> r \<noteq> None)"
proof -
  obtain r tx' st' where a: "answer_from_cache cpu now snap acl src_ip stats domain_stats query tx st = Some (r, tx', st')"
    and s: "length tx' = length tx" "\<forall>len. r = Some len \<longrightarrow> len \<le> length tx \<and>
      (\<exists>wq e. cache_query cpu acl src_ip query wq \<and> \<not> fst (policy_gate src_ip (lower (wq_qname_wire wq)) st) \<and>
         map_of snap (cache_key cpu (lower (wq_qname_wire wq)) (wq_qtype wq)) = Some e \<and> now < ce_expires e \<and>
         ce_qname e \<in> {[], lower (wq_qname_wire wq)} \<and> reply_for query (ce_payload e) (take len tx'))"
    using answer_from_cache_gated [OF assms(1,2)] by blast
  have "r \<noteq> None" if "cache_query cpu acl src_ip query wq" "lower (wq_qname_wire wq) = wire_of ls" "list_all label_ok ls"
      "\<not> denied src_ip ls st" "map_of snap (cache_key cpu (lower (wq_qname_wire wq)) (wq_qtype wq)) = Some e" "now < ce_expires e"
      "ce_qname e \<in> {[], lower (wq_qname_wire wq)}" "2 \<le> length (ce_payload e)" "length (ce_payload e) \<le> length tx" for wq ls e
  proof -
    have "13 \<le> length query" using that(1) by (auto simp: cache_query_def parse_query_def split: if_splits)
    note hit = lookup_cache_hit [OF assms(1) this assms(2) that(5-9), of stats domain_stats]
    have "\<not> fst (policy_gate src_ip (lower (wq_qname_wire wq)) st)"
      using policy_gate_denied [OF assms(3) that(3)] that(2,4) by simp
    with a hit show ?thesis unfolding cache_query_asked [OF that(1)]
      by (cases "policy_gate src_ip (lower (wq_qname_wire wq)) st") (auto, metis option.inject prod.inject option.distinct(1))
  qed
  then show ?thesis using a s policy_gate_denied [OF assms(3)] by (intro exI [of _ r] exI [of _ tx'] exI [of _ st']) metis
qed

definition sample_query :: "byte list" where
  "sample_query = [0, 7, 1, 0, 0, 1, 0, 0, 0, 0, 0, 0, 1, 97, 0, 0, 1, 0, 1]"

definition sample_response :: "byte list" where
  "sample_response = [0, 0, 132, 0, 0, 1, 0, 0, 0, 0, 0, 0, 1, 97, 0, 0, 1, 0, 1]"

definition sample_snapshot :: cache_map where
  "sample_snapshot = [(cache_key plain_cpu [1, 97, 0] 1, \<lparr>ce_payload = sample_response, ce_expires = 5, ce_qname = [1, 97, 0]\<rparr>)]"

definition sample_state :: fast_state where
  "sample_state = \<lparr>fs_policies = policy_start, fs_misses = 0, fs_qtype_hits = [], fs_domain_hits = []\<rparr>"

theorem cache_answer_safe_witness:
  "\<exists>tx'. answer_from_cache plain_cpu 3 sample_snapshot [] None False False sample_query (replicate 32 0) sample_state =
      Some (Some 19, tx', sample_state) \<and> reply_for sample_query sample_response (take 19 tx')"
proof -
  have e: "answer_from_cache plain_cpu 3 sample_snapshot [] None False False sample_query (replicate 32 0) sample_state =
      Some (Some 19, 0 # 7 # 133 # drop 3 sample_response @ replicate 13 0, sample_state)"
    by code_simp
  have "3 \<le> length (replicate 32 (0 :: byte))" "\<forall>(k, e) \<in> set sample_snapshot. length (ce_payload e) \<le> 65027"
    by (simp_all add: sample_snapshot_def sample_response_def)
  moreover have "policy_ok (fs_policies sample_state)" by (simp add: sample_state_def policy_ok_def has_policies_def policy_start_def)
  ultimately show ?thesis
    using cache_answer_safe [of "replicate 32 0" sample_snapshot sample_state plain_cpu 3 "[]" None False False sample_query] e
    by (auto simp: sample_snapshot_def split: if_splits)
qed

end
