(* ===== verification/Spec2Isabelle.thy ===== *)
theory Spec2Isabelle
  imports Rate_Limit Dns_Hasher Validated_Cache Cache_Serve
begin

text \<open>
  A verification library for Runbound, a DNS server in Rust that serves local zones, resolves and forwards with
  DNSSEC validation, and answers from shared tables on a fast path in the packet receiver. The theories follow
  the modules under \<^verbatim>\<open>src/src\<close>; a definition has the name of the function it translates, and data has the
  constructors and fields of the source.

  \<^bold>\<open>How the code is translated.\<close> Integers of the code are words of their width, \<open>usize\<close> is \<open>nat\<close>; where a narrower
  counter may wrap or saturate, that is written out. A panic is the value \<open>None\<close> of an outer option, an error of
  the code is \<open>Inl\<close> of a sum or an inner \<open>None\<close>. Texts are lists of code points. A \<open>HashMap\<close> is an association
  list with distinct keys (\<^verbatim>\<open>Hash_Map\<close>); where the code iterates over one, the order is an argument \<open>iter\<close> of which
  only \<open>iterates\<close> is assumed: it yields every entry once. Loops are recursive functions, each with its termination
  proof, and the only fuel is the code's own: 8 steps of a CNAME chain, 127 compression pointers. Shared tables
  behind locks and atomics are sequential state, passed and returned. Clocks, random sources, the hexadecimal
  decoder, the base32 encoder of the signer, the cryptographic primitives (record \<open>ring\<close>), the fetcher of the resolver and the processor (record
  \<open>cpu\<close>, which instructions it has) are arguments.

  \<^bold>\<open>The wire codec\<close> (\<^verbatim>\<open>dns/wire\<close>). \<^verbatim>\<open>Wire_Base\<close>: the cursor of decoder.rs and the writer of encoder.rs with its
  table of names. \<^verbatim>\<open>Wire_Name\<close>, \<^verbatim>\<open>Name_Grammar\<close>, \<^verbatim>\<open>Name_Compress\<close>, \<^verbatim>\<open>Name_Present\<close>, \<^verbatim>\<open>Name_Order\<close>: name.rs; parsing
  decides an inductive grammar of compressed names, the table of the writer always points at the suffix it names,
  the text of a name reads back, the canonical comparison is a total order. \<^verbatim>\<open>Wire_Interface\<close>: the contracts that
  the message codec needs of its parts, as locales. \<^verbatim>\<open>Wire_Header\<close>, \<^verbatim>\<open>Wire_Rdata\<close>, \<^verbatim>\<open>Rdata_Sound\<close>, \<^verbatim>\<open>Wire_Message\<close>,
  \<^verbatim>\<open>Message_Facts\<close>, \<^verbatim>\<open>Wire_Edns\<close>: header.rs, rdata.rs, question.rs, record.rs, message.rs and edns.rs; encoding never
  panics on well-formed messages and parsing inverts it, and what was parsed can be encoded again. \<^verbatim>\<open>Wire_Present\<close>:
  the reader of record lines, present.rs.

  \<^bold>\<open>Addresses and limits.\<close> \<^verbatim>\<open>Net_Std\<close>: what the code uses of the address and text types of the standard library.
  \<^verbatim>\<open>Ip_Acl\<close>, \<^verbatim>\<open>Ip_Facts\<close>: dns/acl.rs, the permission of dns/axfr.rs and ssrf.rs; the first matching rule decides,
  IPv4-mapped clients are judged as IPv4 clients, and no special-use address counts as public. \<^verbatim>\<open>Subnet_Policy\<close>: subnet_policy.rs. \<^verbatim>\<open>Rate_Limit\<close>: dns/ratelimit.rs;
  the number of queries let through in any history is bounded.

  \<^bold>\<open>Caches.\<close> \<^verbatim>\<open>Infra_Cache\<close>: dns/infra_cache.rs; the bounded table refines an unbounded store, a descent starts at
  the deepest known zone cut. \<^verbatim>\<open>Cache_Snapshot\<close>: dns/cache_snapshot.rs and the preloading in dns/local.rs; which
  entries an eviction takes, what a publication and a reload keep.

  \<^bold>\<open>DNSSEC.\<close> \<^verbatim>\<open>Dnssec_Sign\<close>, \<^verbatim>\<open>Dnssec_Verify\<close>: dnssec_sign.rs and dnssec_verify.rs; what the signer signs the verifier
  accepts. \<^verbatim>\<open>Dnssec_Denial\<close>, \<^verbatim>\<open>Denial_Facts\<close>: dnssec_denial.rs; an accepted proof of non-existence is never given for
  a name of the zone, and an NSEC3 record reads back as the signer wrote it. \<^verbatim>\<open>Dnssec_Chain\<close>: dnssec_chain.rs.
  \<^verbatim>\<open>Signed_Proofs\<close> says what the checks accept without naming them: signature records of a message that the library
  accepts under one of the keys, and denial records with such a signature and what they say of a name.
  \<^verbatim>\<open>Chain_Facts\<close>: keys are returned, and cached, only if a chain of signatures and digests in the messages received
  links them to the root anchors, and a message is called Secure, or Insecure, only on records that such keys sign.

  \<^bold>\<open>The resolver\<close> (dns/recursor_wire.rs). \<^verbatim>\<open>Recursor\<close>, \<^verbatim>\<open>Recursor_Facts\<close>: the descent through the zone cuts against an
  arbitrary network; it ends within its budget of 80 queries, asks only public addresses and believes only replies
  to its question. The recursion through name servers without glue is bounded by the budget, which is the fuel of
  \<open>resolve_ns_addr\<close> and always enough, since each level follows a reply. \<^verbatim>\<open>Validated_Cache\<close>: the validating entry
  point, which combines the descent with the chain of trust, and the cache of validated answers; it also runs the
  case of an unsigned CNAME beside a signed record set, which the code serves as Secure.

  \<^bold>\<open>Serving.\<close> \<^verbatim>\<open>Simd_Scan\<close>, \<^verbatim>\<open>Dns_Hasher\<close>: simd.rs and hasher.rs; the vector routines equal their scalar reference.
  \<^verbatim>\<open>Local_Zones\<close>: dns/local.rs, the store built from the configuration and the walk to the deepest zone. \<^verbatim>\<open>Wire_Serve\<close>:
  wire_serve.rs, the verdict on a query. \<^verbatim>\<open>Wire_Builder\<close>: wire_builder.rs, the reader and the builders that work on
  octets; they agree with the message codec. \<^verbatim>\<open>Fast_Path\<close>, \<^verbatim>\<open>Cache_Serve\<close>: the answers of dns/xdp/worker.rs from the
  index, from the zones and from the cache; the index gives the octets that the serving core gives where the zone
  serves data (the fast path does not look at the zone's action), and the cache serves nothing expired, blocked or
  meant for another question.

  \<^verbatim>\<open>Prelude\<close> holds the shared facts on octets, slices and panics. The interfaces are locales (\<open>wire_parser\<close>,
  \<open>stable_parser\<close>, \<open>wire_codec\<close>, \<open>header_field\<close>, \<open>item_loop\<close>, \<open>comparator\<close>, \<open>ttl_cache\<close>, \<open>zone_tree\<close>), each
  interpreted on the definitions of the component that provides it.

  \<^bold>\<open>Not modelled.\<close> The socket loops, TLS and QUIC servers, the forwarder, the HTTP
  interface, synchronisation and start-up consist of calls into third-party libraries (tokio, axum, rustls, quinn,
  reqwest) and of operating-system effects, which have no meaning inside the logic beyond the parameters above.
  Kernel rings, mapped memory and raw pointers of the packet receiver need a memory model of their own. Interleavings of threads
  are not modelled: each operation on a shared table is one step. The diagnostic text of record data, the
  test-only oracle against another codec and the fuzz drivers are left out.
\<close>

end
